(* ===== verification/Fullerene_Prelude.thy ===== *)
theory Fullerene_Prelude
  imports Main "HOL-Library.Word" "HOL-Library.Multiset" "HOL-Library.Product_Lexorder"
begin

text \<open>
  What every component theory shares: the machine integer types of the Rust sources, the
  operations of Rust's core library that the sources call on them (\<open>saturating_add\<close>,
  \<open>saturating_sub\<close>, \<open>saturating_mul\<close>, \<open>checked_add\<close>), little-endian byte images, and the lemmas about
  them and about searches through ranges of indices.

  \<open>u8\<close> to \<open>u64\<close> are words of their width. \<open>usize\<close> is 64 bits on the only supported target
  (x86_64); lengths and indices of vectors, which are bounded by the size of memory, are
  natural numbers. Plain \<open>+\<close> on words wraps, as it does in the release profile of the workspace
  (the development profile turns the same overflow into a panic).
\<close>

unbundle bit_operations_syntax

type_synonym u8 = "8 word"
type_synonym u16 = "16 word"
type_synonym u32 = "32 word"
type_synonym u64 = "64 word"
type_synonym bytes = "u8 list"

named_theorems unat_arith_simps \<open>saturating and checked word arithmetic read through \<open>unat\<close>\<close>
named_theorems list_scan_simps \<open>searches through lists\<close>


section \<open>Rust integer operations\<close>

definition sat_add :: "'a::len word \<Rightarrow> 'a word \<Rightarrow> 'a word" where
  "sat_add a b = (if unat a + unat b < 2 ^ LENGTH('a) then a + b else - 1)"

definition sat_sub :: "'a::len word \<Rightarrow> 'a word \<Rightarrow> 'a word" where
  "sat_sub a b = (if b \<le> a then a - b else 0)"

definition sat_mul :: "'a::len word \<Rightarrow> 'a word \<Rightarrow> 'a word" where
  "sat_mul a b = (if unat a * unat b < 2 ^ LENGTH('a) then a * b else - 1)"

definition checked_add :: "'a::len word \<Rightarrow> 'a word \<Rightarrow> 'a word option" where
  "checked_add a b = (if unat a + unat b < 2 ^ LENGTH('a) then Some (a + b) else None)"

lemma unat_neg_one: "unat (- 1 :: 'a::len word) = 2 ^ LENGTH('a) - 1"
  by (simp add: unsigned_minus_1_eq_mask mask_eq_exp_minus_1)

lemma unat_sat_add [unat_arith_simps]:
  fixes a b :: "'a::len word"
  shows "unat (sat_add a b) = min (unat a + unat b) (2 ^ LENGTH('a) - 1)"
  by (auto simp: sat_add_def unat_word_ariths unat_neg_one min_def)

lemma unat_sat_sub [unat_arith_simps]: "unat (sat_sub a b) = unat a - unat b"
  by (auto simp: sat_sub_def unat_sub word_le_nat_alt)

lemma unat_sat_mul [unat_arith_simps]:
  fixes a b :: "'a::len word"
  shows "unat (sat_mul a b) = min (unat a * unat b) (2 ^ LENGTH('a) - 1)"
proof (cases "unat a * unat b < 2 ^ LENGTH('a)")
  case True
  then have "unat a * unat b \<le> 2 ^ LENGTH('a) - 1" by linarith
  with True show ?thesis by (simp add: sat_mul_def unat_word_ariths min_absorb1)
next
  case False
  then have "2 ^ LENGTH('a) - 1 \<le> unat a * unat b" by linarith
  with False show ?thesis by (simp only: sat_mul_def unat_neg_one min_absorb2 if_False)
qed

lemma checked_add_Some_iff:
  fixes a b :: "'a::len word"
  shows "checked_add a b = Some c \<longleftrightarrow> unat a + unat b < 2 ^ LENGTH('a) \<and> c = a + b"
  by (auto simp: checked_add_def)

lemma unat_checked_add [unat_arith_simps]:
  fixes a b :: "'a::len word"
  shows "checked_add a b = Some c \<Longrightarrow> unat c = unat a + unat b"
  by (auto simp: checked_add_def unat_word_ariths split: if_splits)

lemma unat_bound: "unat a < 2 ^ LENGTH('a)" for a :: "'a::len word"
  by (rule unsigned_less)

lemma u64_bound: "unat x < 2 ^ 64" for x :: u64
  using unat_bound [of x] by simp

lemma sat_add_ge: "a \<le> sat_add a b" for a b :: "'a::len word"
proof -
  have "unat a \<le> 2 ^ LENGTH('a) - 1"
    using unat_bound [of a] by linarith
  then show ?thesis
    by (simp add: word_le_nat_alt unat_sat_add)
qed


section \<open>Lists\<close>

lemma length_filter_neq_iff [list_scan_simps]:
  "length (filter P xs) \<noteq> length xs \<longleftrightarrow> (\<exists>x \<in> set xs. \<not> P x)"
proof
  assume "length (filter P xs) \<noteq> length xs"
  then have "filter P xs \<noteq> xs" by auto
  then show "\<exists>x \<in> set xs. \<not> P x" by (auto simp: filter_id_conv)
next
  assume "\<exists>x \<in> set xs. \<not> P x"
  then obtain x where "x \<in> set xs" "\<not> P x" by blast
  then have "length (filter P xs) < length xs" by (rule length_filter_less)
  then show "length (filter P xs) \<noteq> length xs" by simp
qed

text \<open>A linear search over a range of indices finds the least index with the property.\<close>

lemma find_upt_Some [list_scan_simps]:
  "find P [k..<n] = Some f \<longleftrightarrow> k \<le> f \<and> f < n \<and> P f \<and> (\<forall>g. k \<le> g \<and> g < f \<longrightarrow> \<not> P g)"
proof (induction "n - k" arbitrary: k)
  case 0
  then show ?case by auto
next
  case (Suc d)
  then have k: "k < n" and IH: "find P [Suc k..<n] = Some f \<longleftrightarrow>
      Suc k \<le> f \<and> f < n \<and> P f \<and> (\<forall>g. Suc k \<le> g \<and> g < f \<longrightarrow> \<not> P g)" by auto
  show ?case
  proof (cases "P k")
    case True
    with k show ?thesis by (auto simp: upt_conv_Cons intro: antisym_conv2 [THEN iffD1] leI)
  next
    case False
    with k have "find P [k..<n] = find P [Suc k..<n]" by (simp add: upt_conv_Cons)
    moreover have "k \<le> g \<longleftrightarrow> g = k \<or> Suc k \<le> g" for g by auto
    ultimately show ?thesis using False IH by auto
  qed
qed

lemma find_upt_None [list_scan_simps]:
  "find P [k..<n] = None \<longleftrightarrow> (\<forall>g. k \<le> g \<and> g < n \<longrightarrow> \<not> P g)"
  by (auto simp: find_None_iff)


section \<open>Little-endian encodings\<close>

fun from_le :: "bytes \<Rightarrow> nat" where
  "from_le [] = 0"
| "from_le (b # bs) = unat b + 256 * from_le bs"

fun to_le :: "nat \<Rightarrow> nat \<Rightarrow> bytes" where
  "to_le 0 n = []"
| "to_le (Suc k) n = of_nat (n mod 256) # to_le k (n div 256)"

lemma length_to_le [simp]: "length (to_le k n) = k"
  by (induction k arbitrary: n) auto

lemma from_to_le: "from_le (to_le k n) = n mod 256 ^ k"
proof (induction k arbitrary: n)
  case (Suc k)
  have "unat (of_nat (n mod 256) :: u8) = n mod 256"
    by (simp add: unat_of_nat)
  with Suc show ?case
    by (simp add: mod_mult2_eq)
qed simp

lemma from_le_bound: "from_le bs < 256 ^ length bs"
proof (induction bs)
  case (Cons b bs)
  have "unat b < 256" using unat_bound [of b] by simp
  with Cons show ?case by (simp add: mult_less_cancel1)
qed simp

lemma unat_of_nat_u64: "n < 2 ^ 64 \<Longrightarrow> unat (of_nat n :: u64) = n"
  by (simp add: unat_of_nat take_bit_nat_eq_self)

end
