(* ===== verification/Chronoline.thy ===== *)
theory Chronoline
  imports Fullerene_Prelude
begin

text \<open>
  The timer subsystem, \<open>src/chronoline/src/lib.rs\<close>: a clock and a priority queue of one-shot and
  repeating timers. The queue is Rust's \<open>BinaryHeap\<close> under the reversed order of \<open>Timer\<close>, so its
  greatest element is the timer with the least \<open>(deadline, id)\<close>. What the code uses of the heap
  (\<open>push\<close>, \<open>peek\<close>, \<open>pop\<close>, \<open>into_vec\<close> with \<open>retain\<close> and \<open>from\<close>) is the locale \<open>timer_heap\<close>; the
  executable model keeps the elements in a list sorted by that key.
\<close>

section \<open>Data\<close>

datatype Deadline = Deadline (ticks: u64)

datatype TimerId = TimerId (timer_id: u64)

datatype TimerMode = OneShot | Repeating (interval_ticks: u64)

datatype TimerPolicy = FixedRate | FixedDelay

datatype RegisterError = ZeroInterval | TimerFull

text \<open>The derived \<open>PartialOrd\<close> and \<open>Ord\<close> of the newtypes compare the wrapped number.\<close>

instantiation Deadline :: linorder
begin

definition less_eq_Deadline :: "Deadline \<Rightarrow> Deadline \<Rightarrow> bool" where
  "less_eq_Deadline a b \<longleftrightarrow> ticks a \<le> ticks b"

definition less_Deadline :: "Deadline \<Rightarrow> Deadline \<Rightarrow> bool" where
  "less_Deadline a b \<longleftrightarrow> ticks a < ticks b"

instance
  by standard (auto simp: less_eq_Deadline_def less_Deadline_def Deadline.expand)

end

instantiation TimerId :: linorder
begin

definition less_eq_TimerId :: "TimerId \<Rightarrow> TimerId \<Rightarrow> bool" where
  "less_eq_TimerId a b \<longleftrightarrow> timer_id a \<le> timer_id b"

definition less_TimerId :: "TimerId \<Rightarrow> TimerId \<Rightarrow> bool" where
  "less_TimerId a b \<longleftrightarrow> timer_id a < timer_id b"

instance
  by standard (auto simp: less_eq_TimerId_def less_TimerId_def TimerId.expand)

end

record Timer =
  deadline :: Deadline
  tid :: TimerId
  mode :: TimerMode
  policy :: TimerPolicy
  missed_ticks :: u64
  max_catch_up :: u64

text \<open>\<open>Timer::cmp\<close> compares deadlines and then ids, reversed; this is the unreversed key.\<close>

definition timer_key :: "Timer \<Rightarrow> Deadline \<times> TimerId" where
  "timer_key t = (deadline t, tid t)"

definition timer_cmp_less :: "Timer \<Rightarrow> Timer \<Rightarrow> bool" where
  "timer_cmp_less a b \<longleftrightarrow>
     deadline b < deadline a \<or> (deadline b = deadline a \<and> tid b < tid a)"


section \<open>The heap\<close>

fun heap_push :: "Timer \<Rightarrow> Timer list \<Rightarrow> Timer list" where
  "heap_push t [] = [t]"
| "heap_push t (x # xs) =
     (if timer_key x \<le> timer_key t then x # heap_push t xs else t # x # xs)"

fun heap_peek :: "Timer list \<Rightarrow> Timer option" where
  "heap_peek [] = None"
| "heap_peek (t # _) = Some t"

definition heap_pop :: "Timer list \<Rightarrow> Timer list" where
  "heap_pop h = tl h"

definition heap_retain :: "(Timer \<Rightarrow> bool) \<Rightarrow> Timer list \<Rightarrow> Timer list" where
  "heap_retain P h = filter P h"

definition heap_ordered :: "Timer list \<Rightarrow> bool" where
  "heap_ordered h \<longleftrightarrow> sorted_wrt (\<lambda>a b. timer_key a \<le> timer_key b) h"

text \<open>What \<open>ChronoLine\<close> relies on of its heap.\<close>

locale timer_heap =
  fixes empty :: "'h"
    and push :: "Timer \<Rightarrow> 'h \<Rightarrow> 'h"
    and peek :: "'h \<Rightarrow> Timer option"
    and pop :: "'h \<Rightarrow> 'h"
    and retain :: "(Timer \<Rightarrow> bool) \<Rightarrow> 'h \<Rightarrow> 'h"
    and contents :: "'h \<Rightarrow> Timer multiset"
    and invar :: "'h \<Rightarrow> bool"
  assumes contents_empty: "contents empty = {#}"
    and contents_push: "contents (push t h) = add_mset t (contents h)"
    and contents_retain: "contents (retain P h) = filter_mset P (contents h)"
    and contents_pop: "peek h = Some t \<Longrightarrow> contents h = add_mset t (contents (pop h))"
    and peek_None: "peek h = None \<longleftrightarrow> contents h = {#}"
    and peek_least: "invar h \<Longrightarrow> peek h = Some t \<Longrightarrow> x \<in># contents h \<Longrightarrow> timer_key t \<le> timer_key x"
    and invar_empty: "invar empty"
    and invar_push: "invar h \<Longrightarrow> invar (push t h)"
    and invar_pop: "invar h \<Longrightarrow> invar (pop h)"
    and invar_retain: "invar h \<Longrightarrow> invar (retain P h)"
begin

lemma peek_mem: "peek h = Some t \<Longrightarrow> t \<in># contents h"
  using contents_pop by force

lemma deadline_mono: "timer_key t \<le> timer_key x \<Longrightarrow> deadline t \<le> deadline x"
  by (auto simp: timer_key_def less_eq_prod_def)

text \<open>Looking at the top alone decides whether anything in the heap is due.\<close>

lemma due_iff_peek_due:
  assumes "invar h"
  shows "(\<exists>x \<in># contents h. deadline x \<le> d) \<longleftrightarrow> (\<exists>t. peek h = Some t \<and> deadline t \<le> d)"
proof
  assume "\<exists>x \<in># contents h. deadline x \<le> d"
  then obtain x where x: "x \<in># contents h" "deadline x \<le> d" by blast
  with peek_None obtain t where t: "peek h = Some t" by (cases "peek h") auto
  with x assms have "deadline t \<le> deadline x" by (blast intro: peek_least deadline_mono)
  with x t show "\<exists>t. peek h = Some t \<and> deadline t \<le> d" by force
next
  assume "\<exists>t. peek h = Some t \<and> deadline t \<le> d"
  then show "\<exists>x \<in># contents h. deadline x \<le> d" using peek_mem by blast
qed

end


section \<open>The clock and its timers\<close>

record ChronoLine =
  timers :: "Timer list"
  now :: u64
  next_id :: u64
  cl_max_catch_up :: u64

definition cl_new :: ChronoLine where
  "cl_new = \<lparr>timers = [], now = 0, next_id = 0, cl_max_catch_up = - 1\<rparr>"

definition deadline_from_now :: "u64 \<Rightarrow> u64 \<Rightarrow> Deadline" where
  "deadline_from_now now_ticks delta = Deadline (sat_add now_ticks delta)"

definition set_max_catch_up :: "u64 \<Rightarrow> ChronoLine \<Rightarrow> ChronoLine" where
  "set_max_catch_up limit cl = cl\<lparr>cl_max_catch_up := limit\<rparr>"

definition register_with_mode_and_policy ::
    "Deadline \<Rightarrow> TimerId \<Rightarrow> TimerMode \<Rightarrow> TimerPolicy \<Rightarrow> ChronoLine
     \<Rightarrow> (RegisterError + TimerId) \<times> ChronoLine" where
  "register_with_mode_and_policy d i m p cl =
     (if m = Repeating 0 then (Inl ZeroInterval, cl)
      else (Inr i, cl\<lparr>timers := heap_push
                \<lparr>deadline = d, tid = i, mode = m, policy = p, missed_ticks = 0,
                 max_catch_up = cl_max_catch_up cl\<rparr> (timers cl)\<rparr>))"

definition register_with_mode ::
    "Deadline \<Rightarrow> TimerId \<Rightarrow> TimerMode \<Rightarrow> ChronoLine \<Rightarrow> (RegisterError + TimerId) \<times> ChronoLine" where
  "register_with_mode d i m cl = register_with_mode_and_policy d i m FixedDelay cl"

definition register :: "Deadline \<Rightarrow> TimerId \<Rightarrow> ChronoLine \<Rightarrow> (RegisterError + TimerId) \<times> ChronoLine" where
  "register d i cl = register_with_mode d i OneShot cl"

definition register_auto :: "Deadline \<Rightarrow> ChronoLine \<Rightarrow> (RegisterError + TimerId) \<times> ChronoLine" where
  "register_auto d cl =
     (let i = TimerId (next_id cl) in register d i (cl\<lparr>next_id := next_id cl + 1\<rparr>))"

definition advance :: "u64 \<Rightarrow> ChronoLine \<Rightarrow> ChronoLine" where
  "advance delta cl = cl\<lparr>now := sat_add (now cl) delta\<rparr>"

definition tick :: "u64 \<Rightarrow> ChronoLine \<Rightarrow> ChronoLine" where
  "tick t cl = cl\<lparr>now := max (now cl) t\<rparr>"

definition reset_now :: "u64 \<Rightarrow> ChronoLine \<Rightarrow> ChronoLine" where
  "reset_now t cl = cl\<lparr>now := t\<rparr>"

definition has_expired :: "ChronoLine \<Rightarrow> bool" where
  "has_expired cl = (case heap_peek (timers cl) of
     None \<Rightarrow> False | Some t \<Rightarrow> ticks (deadline t) \<le> now cl)"

text \<open>
  \<open>pop_expired\<close> divides by the interval; \<open>None\<close> is the panic of a division by zero. The inner
  result is the method's \<open>Option<Timer>\<close>.
\<close>

definition repeat_deadline :: "u64 \<Rightarrow> Timer \<Rightarrow> u64 \<Rightarrow> u64 \<Rightarrow> Deadline" where
  "repeat_deadline nw t i missed = (case policy t of
     FixedRate \<Rightarrow> Deadline (sat_add (ticks (deadline t)) (sat_mul i missed))
   | FixedDelay \<Rightarrow> Deadline (sat_add nw i))"

definition pop_expired :: "ChronoLine \<Rightarrow> (Timer option \<times> ChronoLine) option" where
  "pop_expired cl =
     (if \<not> has_expired cl then Some (None, cl)
      else case heap_peek (timers cl) of
        None \<Rightarrow> None
      | Some t \<Rightarrow>
          let rest = heap_pop (timers cl) in
          (case mode t of
             OneShot \<Rightarrow> Some (Some t, cl\<lparr>timers := rest\<rparr>)
           | Repeating i \<Rightarrow>
               if i = 0 then None
               else
                 let elapsed = sat_sub (now cl) (ticks (deadline t));
                     missed = sat_add (elapsed div i) 1;
                     t' = t\<lparr>missed_ticks := min missed (max_catch_up t)\<rparr>
                 in Some (Some t', cl\<lparr>timers := heap_push
                      \<lparr>deadline = repeat_deadline (now cl) t i missed, tid = tid t, mode = mode t,
                       policy = policy t, missed_ticks = 0, max_catch_up = max_catch_up t\<rparr>
                      rest\<rparr>)))"

definition cl_len :: "ChronoLine \<Rightarrow> nat" where
  "cl_len cl = length (timers cl)"

definition cl_is_empty :: "ChronoLine \<Rightarrow> bool" where
  "cl_is_empty cl \<longleftrightarrow> timers cl = []"

definition cancel :: "TimerId \<Rightarrow> ChronoLine \<Rightarrow> bool \<times> ChronoLine" where
  "cancel i cl =
     (let len_before = length (timers cl); ts = heap_retain (\<lambda>t. tid t \<noteq> i) (timers cl)
      in (length ts \<noteq> len_before, cl\<lparr>timers := ts\<rparr>))"

definition next_deadline :: "ChronoLine \<Rightarrow> Deadline option" where
  "next_deadline cl = map_option deadline (heap_peek (timers cl))"

definition cl_clear :: "ChronoLine \<Rightarrow> ChronoLine" where
  "cl_clear cl = cl\<lparr>timers := []\<rparr>"


section \<open>The heap meets its contract\<close>

lemma mset_heap_push [simp]: "mset (heap_push t h) = add_mset t (mset h)"
  by (induction h) auto

lemma set_heap_push [simp]: "set (heap_push t h) = insert t (set h)"
  by (metis mset_heap_push set_mset_add_mset_insert set_mset_mset)

lemma length_heap_push [simp]: "length (heap_push t h) = Suc (length h)"
  by (induction h) auto

lemma heap_ordered_Cons:
  "heap_ordered (t # h) \<longleftrightarrow> (\<forall>x \<in> set h. timer_key t \<le> timer_key x) \<and> heap_ordered h"
  by (simp add: heap_ordered_def)

lemma heap_ordered_push: "heap_ordered h \<Longrightarrow> heap_ordered (heap_push t h)"
  by (induction h) (auto simp: heap_ordered_Cons heap_ordered_def)

interpretation tq: timer_heap "[]" heap_push heap_peek heap_pop heap_retain mset heap_ordered
proof
  fix h t x
  show "heap_peek h = Some t \<Longrightarrow> mset h = add_mset t (mset (heap_pop h))"
    by (cases h) (auto simp: heap_pop_def)
  show "heap_peek h = None \<longleftrightarrow> mset h = {#}"
    by (cases h) auto
  show "heap_ordered h \<Longrightarrow> heap_peek h = Some t \<Longrightarrow> x \<in># mset h \<Longrightarrow> timer_key t \<le> timer_key x"
    by (cases h) (auto simp: heap_ordered_Cons)
  show "heap_ordered h \<Longrightarrow> heap_ordered (heap_pop h)"
    by (cases h) (auto simp: heap_ordered_Cons heap_pop_def)
  show "heap_ordered h \<Longrightarrow> heap_ordered (heap_retain P h)" for P
    by (simp add: heap_ordered_def heap_retain_def sorted_wrt_filter)
qed (auto simp: heap_retain_def heap_ordered_push, simp add: heap_ordered_def)

lemma timer_cmp_less_iff: "timer_cmp_less a b \<longleftrightarrow> timer_key b < timer_key a"
  by (auto simp: timer_cmp_less_def timer_key_def less_prod_def)


section \<open>The invariant of the timer line\<close>

definition chrono_inv :: "ChronoLine \<Rightarrow> bool" where
  "chrono_inv cl \<longleftrightarrow> heap_ordered (timers cl) \<and> (\<forall>t \<in> set (timers cl). mode t \<noteq> Repeating 0)"

lemma chrono_inv_new: "chrono_inv cl_new"
  by (simp add: chrono_inv_def cl_new_def tq.invar_empty)

lemma chrono_inv_register:
  "chrono_inv cl \<Longrightarrow> chrono_inv (snd (register_with_mode_and_policy d i m p cl))"
  by (auto simp: chrono_inv_def register_with_mode_and_policy_def tq.invar_push)

lemma chrono_inv_cancel: "chrono_inv cl \<Longrightarrow> chrono_inv (snd (cancel i cl))"
  by (auto simp: chrono_inv_def cancel_def Let_def tq.invar_retain heap_retain_def [symmetric])
     (simp add: heap_retain_def)

lemma chrono_inv_frame:
  "chrono_inv cl \<Longrightarrow> timers cl' = timers cl \<Longrightarrow> chrono_inv cl'"
  by (simp add: chrono_inv_def)

lemma has_expired_iff_due:
  assumes "chrono_inv cl"
  shows "has_expired cl \<longleftrightarrow> (\<exists>x \<in># mset (timers cl). deadline x \<le> Deadline (now cl))"
  using assms unfolding chrono_inv_def
  by (subst tq.due_iff_peek_due)
     (auto simp: has_expired_def less_eq_Deadline_def split: option.splits)

text \<open>The three outcomes of \<open>pop_expired\<close> on a state that satisfies the invariant.\<close>

lemma pop_expired_cases:
  assumes "chrono_inv cl" and "pop_expired cl = Some (r, cl')"
  obtains (none) "r = None" "cl' = cl" "\<not> has_expired cl"
  | (once) t where "heap_peek (timers cl) = Some t" "mode t = OneShot" "r = Some t"
      "has_expired cl" "cl' = cl\<lparr>timers := heap_pop (timers cl)\<rparr>"
  | (again) t i missed where "heap_peek (timers cl) = Some t" "mode t = Repeating i" "i \<noteq> 0"
      "has_expired cl" "missed = sat_add (sat_sub (now cl) (ticks (deadline t)) div i) 1"
      "r = Some (t\<lparr>missed_ticks := min missed (max_catch_up t)\<rparr>)"
      "cl' = cl\<lparr>timers := heap_push
         \<lparr>deadline = repeat_deadline (now cl) t i missed, tid = tid t, mode = mode t,
          policy = policy t, missed_ticks = 0, max_catch_up = max_catch_up t\<rparr>
         (heap_pop (timers cl))\<rparr>"
  using assms
  by (auto simp: pop_expired_def Let_def split: if_splits option.splits TimerMode.splits)

lemma chrono_inv_pop:
  assumes "chrono_inv cl" and "pop_expired cl = Some (r, cl')"
  shows "chrono_inv cl'"
  using assms
proof (cases rule: pop_expired_cases)
  case none
  with assms show ?thesis by simp
next
  case (once t)
  with assms show ?thesis
    by (cases "timers cl") (auto simp: chrono_inv_def heap_pop_def heap_ordered_Cons)
next
  case (again t i missed)
  with assms show ?thesis
    by (cases "timers cl")
       (auto simp: chrono_inv_def heap_pop_def heap_ordered_Cons intro!: heap_ordered_push)
qed

lemma pop_expired_not_panic: "chrono_inv cl \<Longrightarrow> pop_expired cl \<noteq> None"
  by (cases "timers cl")
     (auto simp: chrono_inv_def pop_expired_def has_expired_def Let_def
           split: TimerMode.splits)


subsection \<open>Draining the line\<close>

definition cl_due :: "ChronoLine \<Rightarrow> Timer list" where
  "cl_due cl = filter (\<lambda>t. ticks (deadline t) \<le> now cl) (timers cl)"

lemma has_expired_iff_cl_due: "chrono_inv cl \<Longrightarrow> has_expired cl \<longleftrightarrow> cl_due cl \<noteq> []"
  by (auto simp: has_expired_iff_due cl_due_def filter_empty_conv less_eq_Deadline_def)

lemma sat_add_gt:
  fixes a b :: "'a::len word"
  assumes "a < - 1" and "b \<noteq> 0"
  shows "a < sat_add a b"
proof -
  have "unat a < 2 ^ LENGTH('a) - 1"
    using assms(1) by (simp add: word_less_nat_alt unat_neg_one)
  moreover have "0 < unat b"
    using assms(2) by (simp add: unat_gt_0)
  ultimately show ?thesis
    by (simp add: word_less_nat_alt unat_sat_add)
qed

lemma missed_covers_elapsed:
  fixes nw d i :: u64
  assumes "d \<le> nw" and "i \<noteq> 0"
  shows "unat nw - unat d < unat i * unat (sat_add (sat_sub nw d div i) 1) \<or>
         unat (sat_add (sat_sub nw d div i) 1) = 2 ^ 64 - 1"
proof -
  let ?e = "unat nw - unat d"
  have i: "0 < unat i" using assms(2) by (simp add: unat_gt_0)
  have q: "unat (sat_add (sat_sub nw d div i) 1) = min (?e div unat i + 1) (2 ^ 64 - 1)"
    by (simp add: unat_arith_simps unat_div)
  have "?e < unat i * (?e div unat i + 1)"
    using i by (simp add: dividend_less_times_div)
  then show ?thesis
    unfolding q by (auto simp: min_def)
qed

lemma repeat_deadline_after_now:
  assumes "ticks (deadline t) \<le> nw" and "nw < - 1" and "i \<noteq> 0"
    and "missed = sat_add (sat_sub nw (ticks (deadline t)) div i) 1"
  shows "nw < ticks (repeat_deadline nw t i missed)"
proof (cases "policy t")
  case FixedDelay
  with assms show ?thesis by (simp add: repeat_deadline_def sat_add_gt)
next
  case FixedRate
  let ?d = "unat (ticks (deadline t))" and ?n = "unat nw" and ?i = "unat i" and ?m = "unat missed"
  have n: "?n < 2 ^ 64 - 1" using assms(2) by (simp add: word_less_nat_alt unat_neg_one)
  have d: "?d \<le> ?n" using assms(1) by (simp add: word_le_nat_alt)
  have i: "1 \<le> ?i" using assms(3) by (metis One_nat_def Suc_leI unat_gt_0)
  have "?n - ?d < ?i * ?m \<or> ?m = 2 ^ 64 - 1"
    using missed_covers_elapsed [OF assms(1,3)] assms(4) by simp
  moreover have "2 ^ 64 - 1 \<le> ?i * ?m" if "?m = 2 ^ 64 - 1"
    using i that by simp
  ultimately have "?n < ?d + min (?i * ?m) (2 ^ 64 - 1)"
    using n d by (auto simp: min_def)
  with n FixedRate show ?thesis
    by (simp add: repeat_deadline_def word_less_nat_alt unat_arith_simps)
qed

text \<open>
  Each pop removes one due timer, and a repeating timer comes back with a deadline that is no
  longer due, as long as the clock has not reached its last tick.
\<close>

lemma pop_expired_due:
  assumes inv: "chrono_inv cl" and pop: "pop_expired cl = Some (Some t, cl')" and nw: "now cl < - 1"
  shows "\<exists>u. tid u = tid t \<and> mset (cl_due cl) = add_mset u (mset (cl_due cl'))"
  using inv pop
proof (cases rule: pop_expired_cases)
  case none
  then show ?thesis by simp
next
  case (once u)
  then show ?thesis
    by (cases "timers cl") (auto simp: cl_due_def heap_pop_def has_expired_def)
next
  case (again u i missed)
  let ?new = "\<lparr>deadline = repeat_deadline (now cl) u i missed, tid = tid u, mode = mode u,
     policy = policy u, missed_ticks = 0, max_catch_up = max_catch_up u\<rparr>"
  from again have u: "ticks (deadline u) \<le> now cl"
    by (cases "timers cl") (auto simp: has_expired_def)
  then have "\<not> ticks (deadline ?new) \<le> now cl"
    using repeat_deadline_after_now [OF u nw again(3) again(5)] by simp
  then have "mset (cl_due cl) = add_mset u (mset (cl_due cl'))"
    using again u by (cases "timers cl") (simp_all add: cl_due_def heap_pop_def)
  with again show ?thesis by auto
qed

lemma pop_expired_now: "pop_expired cl = Some (r, cl') \<Longrightarrow> now cl' = now cl"
  by (auto simp: pop_expired_def Let_def split: if_splits option.splits TimerMode.splits)

lemma pop_expired_None_due:
  "chrono_inv cl \<Longrightarrow> pop_expired cl = Some (None, cl') \<Longrightarrow> cl' = cl \<and> cl_due cl = []"
  using has_expired_iff_cl_due
  by (auto simp: pop_expired_def Let_def split: if_splits option.splits TimerMode.splits)


section \<open>Every history of calls\<close>

text \<open>A step is one call of a public method that changes the line.\<close>

inductive cl_step :: "ChronoLine \<Rightarrow> ChronoLine \<Rightarrow> bool" where
  set_limit: "cl_step cl (set_max_catch_up l cl)"
| register_auto: "cl_step cl (snd (register_auto d cl))"
| register: "cl_step cl (snd (register_with_mode_and_policy d i m p cl))"
| advance: "cl_step cl (advance dt cl)"
| tick: "cl_step cl (tick t cl)"
| reset: "cl_step cl (reset_now t cl)"
| pop: "pop_expired cl = Some (r, cl') \<Longrightarrow> cl_step cl cl'"
| cancel: "cl_step cl (snd (cancel i cl))"
| clear: "cl_step cl (cl_clear cl)"

inductive cl_reachable :: "ChronoLine \<Rightarrow> bool" where
  new: "cl_reachable cl_new"
| step: "cl_reachable cl \<Longrightarrow> cl_step cl cl' \<Longrightarrow> cl_reachable cl'"

lemma cl_step_inv: "cl_step cl cl' \<Longrightarrow> chrono_inv cl \<Longrightarrow> chrono_inv cl'"
proof (induction rule: cl_step.induct)
  case (register_auto cl d)
  then show ?case
    unfolding register_auto_def register_def register_with_mode_def Let_def
    by (intro chrono_inv_register) (simp add: chrono_inv_def)
next
  case (clear cl)
  then show ?case by (simp add: chrono_inv_def cl_clear_def tq.invar_empty)
qed (auto simp: set_max_catch_up_def advance_def tick_def reset_now_def
     intro: chrono_inv_register chrono_inv_pop chrono_inv_cancel elim: chrono_inv_frame)

lemma cl_reachable_inv: "cl_reachable cl \<Longrightarrow> chrono_inv cl"
  by (induction rule: cl_reachable.induct) (auto intro: chrono_inv_new cl_step_inv)


section \<open>Properties\<close>

lemma grid_point:
  fixes d n i :: nat
  assumes "d \<le> n" and "0 < i"
  defines "k \<equiv> (n - d) div i + 1"
  shows "d + (k - 1) * i \<le> n" and "n < d + k * i" and "d + k * i \<le> n + i" and "k \<le> k * i"
proof -
  let ?q = "(n - d) div i"
  have "?q * i \<le> n - d" by (rule div_times_less_eq_dividend)
  then have le: "d + ?q * i \<le> n" using assms(1) by linarith
  have "n - d < i + i * ?q" using assms(2) by (rule dividend_less_div_times [THEN less_le_trans]) simp
  then have lt: "n < d + (?q * i + i)" using assms(1) by (simp add: mult.commute)
  show "d + (k - 1) * i \<le> n" "n < d + k * i" "d + k * i \<le> n + i"
    using le lt by (simp_all add: k_def add_mult_distrib)
  show "k \<le> k * i" using assms(2) by simp
qed

text \<open>
  C18. Whatever calls were made on a timer line, \<open>pop_expired\<close> does not panic. It returns no timer
  exactly when every registered deadline lies in the future, and then leaves the line unchanged;
  otherwise the timer it returns was registered, is due, and no registered timer precedes it in
  the order of deadlines and ids.
\<close>

theorem pop_expired_earliest:
  assumes "cl_reachable cl"
  shows "\<exists>r cl'. pop_expired cl = Some (r, cl') \<and> now cl' = now cl \<and>
    (case r of
       None \<Rightarrow> cl' = cl \<and> (\<forall>x \<in> set (timers cl). now cl < ticks (deadline x))
     | Some t \<Rightarrow> ticks (deadline t) \<le> now cl \<and>
         (\<exists>u \<in> set (timers cl). t = u\<lparr>missed_ticks := missed_ticks t\<rparr>) \<and>
         (\<forall>x \<in> set (timers cl). timer_key t \<le> timer_key x))"
proof -
  have inv: "chrono_inv cl" using assms by (rule cl_reachable_inv)
  then have "pop_expired cl \<noteq> None" by (rule pop_expired_not_panic)
  then obtain r cl' where pop: "pop_expired cl = Some (r, cl')" by auto
  have least: "\<forall>x \<in> set (timers cl). timer_key t \<le> timer_key x"
    if "heap_peek (timers cl) = Some t" for t
    using inv that tq.peek_least by (fastforce simp: chrono_inv_def)
  show ?thesis
    using inv pop
  proof (cases rule: pop_expired_cases)
    case none
    with pop inv show ?thesis
      by (auto simp: has_expired_iff_cl_due cl_due_def filter_empty_conv not_le)
  next
    case (once t)
    with pop least [OF once(1)] show ?thesis
      by (auto simp: has_expired_def intro!: bexI [of _ t] dest: tq.peek_mem)
  next
    case (again t i missed)
    with pop least [OF again(1)] show ?thesis
      by (auto simp: has_expired_def timer_key_def intro!: bexI [of _ t] dest: tq.peek_mem)
  qed
qed

theorem pop_expired_earliest_witness:
  "let cl = tick 9 (snd (register (Deadline 7) (TimerId 3) cl_new)) in
   cl_reachable cl \<and> (\<exists>t cl'. pop_expired cl = Some (Some t, cl') \<and> tid t = TimerId 3)"
proof -
  let ?cl = "tick 9 (snd (register (Deadline 7) (TimerId 3) cl_new))"
  have r: "cl_reachable ?cl"
    unfolding register_def register_with_mode_def
    by (blast intro: cl_reachable.intros cl_step.register cl_step.tick)
  from pop_expired_earliest [OF r] obtain r cl' where
    "pop_expired ?cl = Some (r, cl')"
    "case r of None \<Rightarrow> \<forall>x \<in> set (timers ?cl). now ?cl < ticks (deadline x)
     | Some t \<Rightarrow> (\<exists>u \<in> set (timers ?cl). t = u\<lparr>missed_ticks := missed_ticks t\<rparr>)"
    by (auto split: option.splits)
  with r show ?thesis
    by (auto simp: register_def register_with_mode_def register_with_mode_and_policy_def cl_new_def
        tick_def Let_def pop_expired_def has_expired_def heap_pop_def split: option.splits)
qed

text \<open>
  C31. A due \<open>FixedRate\<close> timer keeps its grid. When \<open>pop_expired\<close> takes it and the arithmetic stays
  below the last tick, it is registered again at its old deadline plus a multiple of its interval,
  which is the first grid point after the current tick, and the timer handed to the caller counts
  the grid points passed, capped at the catch-up limit.
\<close>

theorem fixed_rate_grid:
  assumes "cl_reachable cl" and "heap_peek (timers cl) = Some t" and "ticks (deadline t) \<le> now cl"
    and "mode t = Repeating i" and "policy t = FixedRate"
    and "unat (now cl) + unat i < 2 ^ 64"
  shows "\<exists>k t' u cl'. pop_expired cl = Some (Some t', cl') \<and> 0 < k \<and>
     mset (timers cl') = add_mset u (mset (timers cl) - {#t#}) \<and> tid u = tid t \<and> mode u = mode t \<and>
     unat (ticks (deadline u)) = unat (ticks (deadline t)) + k * unat i \<and>
     unat (ticks (deadline t)) + (k - 1) * unat i \<le> unat (now cl) \<and>
     now cl < ticks (deadline u) \<and>
     unat (missed_ticks t') = min k (unat (max_catch_up t))"
proof -
  let ?d = "unat (ticks (deadline t))" and ?n = "unat (now cl)" and ?i = "unat i"
  define k where "k = (?n - ?d) div ?i + 1"
  have inv: "chrono_inv cl" using assms(1) by (rule cl_reachable_inv)
  have "t \<in> set (timers cl)" using assms(2) tq.peek_mem by fastforce
  with inv assms(4) have i: "0 < ?i" by (auto simp: chrono_inv_def unat_gt_0)
  have d: "?d \<le> ?n" using assms(3) by (simp add: word_le_nat_alt)
  note grid = grid_point [OF d i, folded k_def]
  have k0: "0 < k" by (simp add: k_def)
  have k2: "?d + k * ?i < 2 ^ 64" using grid(3) assms(6) by linarith
  let ?m = "sat_add (sat_sub (now cl) (ticks (deadline t)) div i) 1"
  have m: "unat ?m = k"
    using k2 grid(4) by (simp add: unat_arith_simps unat_div k_def)
  let ?u = "\<lparr>deadline = repeat_deadline (now cl) t i ?m, tid = tid t, mode = mode t,
     policy = policy t, missed_ticks = 0, max_catch_up = max_catch_up t\<rparr>"
  have u: "unat (ticks (deadline ?u)) = ?d + k * ?i"
    using k2 assms(5) m by (simp add: repeat_deadline_def unat_arith_simps mult.commute)
  have pop: "pop_expired cl = Some (Some (t\<lparr>missed_ticks := min ?m (max_catch_up t)\<rparr>),
      cl\<lparr>timers := heap_push ?u (heap_pop (timers cl))\<rparr>)"
    using assms(2,3,4) i by (auto simp: pop_expired_def has_expired_def Let_def)
  have "mset (timers cl) = add_mset t (mset (heap_pop (timers cl)))"
    using assms(2) by (rule tq.contents_pop)
  moreover have "now cl < ticks (deadline ?u)"
    using u grid(2) by (simp add: word_less_nat_alt)
  moreover have "unat (min ?m (max_catch_up t)) = min k (unat (max_catch_up t))"
    using m by (simp add: min_def word_le_nat_alt)
  ultimately show ?thesis
    using pop u grid(1) k0
    by (intro exI [of _ k] exI [of _ "t\<lparr>missed_ticks := min ?m (max_catch_up t)\<rparr>"] exI [of _ ?u]
        exI [of _ "cl\<lparr>timers := heap_push ?u (heap_pop (timers cl))\<rparr>"] conjI) simp_all
qed

theorem fixed_rate_grid_witness:
  "let t = \<lparr>deadline = Deadline 10, tid = TimerId 4, mode = Repeating 5, policy = FixedRate,
            missed_ticks = 0, max_catch_up = - 1\<rparr>;
       cl = tick 23 (snd (register_with_mode_and_policy (Deadline 10) (TimerId 4) (Repeating 5) FixedRate cl_new))
   in heap_peek (timers cl) = Some t \<and>
      (\<exists>t' cl' u. pop_expired cl = Some (Some t', cl') \<and> timers cl' = [u] \<and> now cl < ticks (deadline u))"
proof -
  let ?t = "\<lparr>deadline = Deadline 10, tid = TimerId 4, mode = Repeating 5, policy = FixedRate,
            missed_ticks = 0, max_catch_up = - 1\<rparr>"
  let ?cl = "tick 23 (snd (register_with_mode_and_policy (Deadline 10) (TimerId 4) (Repeating 5) FixedRate cl_new))"
  have r: "cl_reachable ?cl"
    by (blast intro: cl_reachable.intros cl_step.register cl_step.tick)
  have cl: "?cl = \<lparr>timers = [?t], now = 23, next_id = 0, cl_max_catch_up = - 1\<rparr>"
    by (simp add: register_with_mode_and_policy_def cl_new_def tick_def)
  show ?thesis
    using fixed_rate_grid [OF r, of ?t 5] unfolding cl by (auto simp: Let_def)
qed

text \<open>
  C39. Cancelling an id removes every timer with that id, keeps every other one in its order, and
  reports whether there was one to remove. A cancelled timer is never returned by the next pop.
\<close>

theorem cancel_removes:
  assumes "cl_reachable cl" and "cancel i cl = (b, cl')"
  shows "timers cl' = filter (\<lambda>t. tid t \<noteq> i) (timers cl) \<and>
     (b \<longleftrightarrow> i \<in> tid ` set (timers cl)) \<and>
     (\<exists>r cl''. pop_expired cl' = Some (r, cl'') \<and> (\<forall>t. r = Some t \<longrightarrow> tid t \<noteq> i))"
proof -
  have ts: "timers cl' = filter (\<lambda>t. tid t \<noteq> i) (timers cl)"
    and b: "b \<longleftrightarrow> length (filter (\<lambda>t. tid t \<noteq> i) (timers cl)) \<noteq> length (timers cl)"
    using assms(2) by (auto simp: cancel_def Let_def heap_retain_def)
  have inv: "chrono_inv cl'"
    using chrono_inv_cancel [OF cl_reachable_inv [OF assms(1)], of i] assms(2) by simp
  then have "pop_expired cl' \<noteq> None" by (rule pop_expired_not_panic)
  then obtain r cl'' where pop: "pop_expired cl' = Some (r, cl'')" by auto
  have mem: "tid t \<noteq> i" if "heap_peek (timers cl') = Some t" for t
    using tq.peek_mem [OF that] ts by simp
  from inv pop have "\<forall>t. r = Some t \<longrightarrow> tid t \<noteq> i"
    by (cases rule: pop_expired_cases) (auto dest: mem)
  moreover have "b \<longleftrightarrow> i \<in> tid ` set (timers cl)"
    unfolding b by (auto simp: length_filter_neq_iff)
  ultimately show ?thesis using ts pop by blast
qed

theorem cancel_removes_witness:
  "let cl = snd (register (Deadline 7) (TimerId 3) cl_new)
   in fst (cancel (TimerId 3) cl) \<and> timers (snd (cancel (TimerId 3) cl)) = []"
proof -
  let ?cl = "snd (register (Deadline 7) (TimerId 3) cl_new)"
  have r: "cl_reachable ?cl"
    unfolding register_def register_with_mode_def
    by (blast intro: cl_reachable.intros cl_step.register)
  show ?thesis
    using cancel_removes [OF r, of "TimerId 3" "fst (cancel (TimerId 3) ?cl)" "snd (cancel (TimerId 3) ?cl)"]
    by (simp add: register_def register_with_mode_def register_with_mode_and_policy_def cl_new_def Let_def)
qed

end
