(* ===== verification/Solvent_Timers.thy ===== *)
theory Solvent_Timers
  imports Chronoline
begin

text \<open>
  The part of the desktop runtime that drives the timer line: \<open>chrono_tick\<close> of
  \<open>src/solvent/src/event_loop.rs\<close> and the timers \<open>init\<close> of \<open>src/solvent/src/runtime_context.rs\<close>
  registers. \<open>RuntimeState\<close> is restricted to the five fields \<open>chrono_tick\<close> reads or writes; the
  other fields hold windows, buffers and dirty flags that it does not touch.
\<close>

section \<open>The timer tick\<close>

text \<open>
  \<open>src/solvent/src/event_loop.rs\<close>, \<open>chrono_tick\<close>: the fields of \<open>RuntimeState\<close> it reads and writes.
  The loop may not end, so it is a partial function; \<open>None\<close> is also the panic of \<open>pop_expired\<close>.
\<close>

datatype ShellState = Desktop | TaskOverview | AppGrid | TimeZoneSelector

record RuntimeState =
  chrono :: ChronoLine
  cursor_visible :: bool
  frame_due :: bool
  term_dirty :: bool
  shell_state :: ShellState

definition CURSOR_TIMER_ID :: TimerId where
  "CURSOR_TIMER_ID = TimerId 1"

definition FRAME_TIMER_ID :: TimerId where
  "FRAME_TIMER_ID = TimerId 2"

definition chrono_tick_body :: "Timer \<Rightarrow> RuntimeState \<Rightarrow> RuntimeState" where
  "chrono_tick_body t rt =
     (if tid t = CURSOR_TIMER_ID
      then rt\<lparr>cursor_visible := \<not> cursor_visible rt, term_dirty := True\<rparr>
      else if tid t = FRAME_TIMER_ID \<and> shell_state rt = Desktop then rt\<lparr>frame_due := True\<rparr>
      else rt)"

partial_function (option) chrono_tick_loop :: "RuntimeState \<Rightarrow> RuntimeState option" where
  "chrono_tick_loop rt = (case pop_expired (chrono rt) of
     None \<Rightarrow> None
   | Some (None, cl) \<Rightarrow> Some (rt\<lparr>chrono := cl\<rparr>)
   | Some (Some t, cl) \<Rightarrow> chrono_tick_loop (chrono_tick_body t (rt\<lparr>chrono := cl\<rparr>)))"

definition chrono_tick :: "u64 \<Rightarrow> RuntimeState option \<Rightarrow> RuntimeState option option" where
  "chrono_tick nw r = (case r of
     None \<Rightarrow> Some None
   | Some rt \<Rightarrow> map_option Some (chrono_tick_loop (rt\<lparr>chrono := tick nw (chrono rt)\<rparr>)))"

definition CURSOR_BLINK_INTERVAL :: u64 where
  "CURSOR_BLINK_INTERVAL = 100"

definition FRAME_INTERVAL_TICKS :: u64 where
  "FRAME_INTERVAL_TICKS = 8"

definition solvent_init :: RuntimeState where
  "solvent_init =
     (let c1 = snd (register_with_mode (Deadline CURSOR_BLINK_INTERVAL) CURSOR_TIMER_ID
                      (Repeating CURSOR_BLINK_INTERVAL) cl_new);
          c2 = snd (register_with_mode (Deadline FRAME_INTERVAL_TICKS) FRAME_TIMER_ID
                      (Repeating FRAME_INTERVAL_TICKS) c1)
      in \<lparr>chrono = c2, cursor_visible = True, frame_due = True, term_dirty = True,
          shell_state = Desktop\<rparr>)"


section \<open>The tick drains the line\<close>

definition due_count :: "TimerId \<Rightarrow> ChronoLine \<Rightarrow> nat" where
  "due_count i cl = size (filter_mset (\<lambda>t. tid t = i) (mset (cl_due cl)))"

lemma chrono_tick_body_frame [simp]:
  "chrono (chrono_tick_body t rt) = chrono rt"
  "shell_state (chrono_tick_body t rt) = shell_state rt"
  by (simp_all add: chrono_tick_body_def)

lemma chrono_tick_body_flags:
  "cursor_visible (chrono_tick_body t rt) = (cursor_visible rt \<noteq> (tid t = CURSOR_TIMER_ID))"
  "term_dirty (chrono_tick_body t rt) = (term_dirty rt \<or> tid t = CURSOR_TIMER_ID)"
  "frame_due (chrono_tick_body t rt) =
     (frame_due rt \<or> tid t = FRAME_TIMER_ID \<and> shell_state rt = Desktop)"
  by (auto simp: chrono_tick_body_def CURSOR_TIMER_ID_def FRAME_TIMER_ID_def)

lemma due_count_add:
  "mset (cl_due cl) = add_mset u (mset (cl_due cl')) \<Longrightarrow>
   due_count i cl = (if tid u = i then Suc (due_count i cl') else due_count i cl')"
  by (simp add: due_count_def)

text \<open>What one call of the loop achieves, as a relation between its first and its last state.\<close>

definition drained :: "RuntimeState \<Rightarrow> RuntimeState \<Rightarrow> bool" where
  "drained rt rt' \<longleftrightarrow>
     cl_due (chrono rt') = [] \<and> now (chrono rt') = now (chrono rt) \<and>
     shell_state rt' = shell_state rt \<and>
     (cursor_visible rt' \<longleftrightarrow> cursor_visible rt = even (due_count CURSOR_TIMER_ID (chrono rt))) \<and>
     (term_dirty rt' \<longleftrightarrow> term_dirty rt \<or> due_count CURSOR_TIMER_ID (chrono rt) \<noteq> 0) \<and>
     (frame_due rt' \<longleftrightarrow> frame_due rt \<or>
        shell_state rt = Desktop \<and> due_count FRAME_TIMER_ID (chrono rt) \<noteq> 0)"

lemma drained_refl: "cl_due (chrono rt) = [] \<Longrightarrow> drained rt rt"
  by (simp add: drained_def due_count_def)

lemma drained_step:
  assumes u: "mset (cl_due (chrono rt)) = add_mset u (mset (cl_due cl))" "tid u = tid t"
    and nw: "now cl = now (chrono rt)"
    and d: "drained (chrono_tick_body t (rt\<lparr>chrono := cl\<rparr>)) rt'"
  shows "drained rt rt'"
proof -
  note count = due_count_add [OF u(1)]
  show ?thesis
  proof (cases "tid t = CURSOR_TIMER_ID")
    case True
    then have "tid t \<noteq> FRAME_TIMER_ID" by (simp add: CURSOR_TIMER_ID_def FRAME_TIMER_ID_def)
    with True d show ?thesis
      by (simp add: drained_def count chrono_tick_body_flags u(2) nw) blast
  next
    case False
    with d show ?thesis
      by (cases "tid t = FRAME_TIMER_ID")
         (simp_all add: drained_def count chrono_tick_body_flags u(2) nw, blast)
  qed
qed

lemma chrono_tick_loop_drains:
  assumes "chrono_inv (chrono rt)" and "now (chrono rt) < - 1"
  shows "\<exists>rt'. chrono_tick_loop rt = Some rt' \<and> drained rt rt'"
  using assms
proof (induction "length (cl_due (chrono rt))" arbitrary: rt rule: less_induct)
  case less
  have "pop_expired (chrono rt) \<noteq> None" using less.prems(1) by (rule pop_expired_not_panic)
  then obtain r cl where pop: "pop_expired (chrono rt) = Some (r, cl)" by auto
  show ?case
  proof (cases r)
    case None
    with pop_expired_None_due less.prems(1) pop
    have "cl = chrono rt" "cl_due (chrono rt) = []" by blast+
    with None pop show ?thesis
      by (subst chrono_tick_loop.simps) (simp add: drained_refl)
  next
    case (Some t)
    let ?rt = "chrono_tick_body t (rt\<lparr>chrono := cl\<rparr>)"
    from pop_expired_due less.prems pop Some obtain u where u: "tid u = tid t"
      "mset (cl_due (chrono rt)) = add_mset u (mset (cl_due cl))" by blast
    have "size (mset (cl_due (chrono rt))) = Suc (size (mset (cl_due cl)))"
      by (simp only: u(2) size_add_mset)
    then have len: "length (cl_due (chrono ?rt)) < length (cl_due (chrono rt))" by simp
    have inv: "chrono_inv (chrono ?rt)" using chrono_inv_pop [OF less.prems(1) pop] by simp
    have nw: "now cl = now (chrono rt)" using pop by (rule pop_expired_now)
    have step: "chrono_tick_loop rt = chrono_tick_loop ?rt"
      using pop Some by (subst chrono_tick_loop.simps) simp
    have "now (chrono ?rt) < - 1" using nw less.prems(2) by simp
    from less.hyps [OF len inv this] show ?thesis
      unfolding step using drained_step [OF u(2,1) nw] by blast
  qed
qed


section \<open>Properties\<close>

text \<open>
  C19. The timer tick returns, for every history of the timer line, as long as the clock is below
  its last value. Afterwards no timer is due. The cursor was toggled once for each due cursor
  timer, the terminal is marked dirty if there was one, and a frame is requested if a frame timer
  was due while the desktop is shown.
\<close>

theorem chrono_tick_drains:
  assumes "cl_reachable (chrono rt)" and "max (now (chrono rt)) nw < - 1"
  shows "\<exists>rt'. chrono_tick nw (Some rt) = Some (Some rt') \<and>
     now (chrono rt') = max (now (chrono rt)) nw \<and>
     (\<forall>t \<in> set (timers (chrono rt')). now (chrono rt') < ticks (deadline t)) \<and>
     (cursor_visible rt' \<longleftrightarrow>
        cursor_visible rt = even (due_count CURSOR_TIMER_ID (tick nw (chrono rt)))) \<and>
     (term_dirty rt' \<longleftrightarrow> term_dirty rt \<or> due_count CURSOR_TIMER_ID (tick nw (chrono rt)) \<noteq> 0) \<and>
     (frame_due rt' \<longleftrightarrow> frame_due rt \<or>
        shell_state rt = Desktop \<and> due_count FRAME_TIMER_ID (tick nw (chrono rt)) \<noteq> 0)"
proof -
  let ?rt = "rt\<lparr>chrono := tick nw (chrono rt)\<rparr>"
  have "chrono_inv (chrono ?rt)"
    using cl_reachable_inv [OF assms(1)] by (simp add: chrono_inv_def tick_def)
  moreover have "now (chrono ?rt) < - 1" using assms(2) by (simp add: tick_def)
  ultimately obtain rt' where rt': "chrono_tick_loop ?rt = Some rt'" "drained ?rt rt'"
    using chrono_tick_loop_drains by blast
  then have "chrono_tick nw (Some rt) = Some (Some rt')" by (simp add: chrono_tick_def)
  moreover have "now (chrono rt') = max (now (chrono rt)) nw"
    using rt'(2) by (simp add: drained_def tick_def)
  moreover have "\<forall>t \<in> set (timers (chrono rt')). now (chrono rt') < ticks (deadline t)"
    using rt'(2) unfolding drained_def cl_due_def filter_empty_conv not_le by metis
  ultimately show ?thesis
    using rt'(2) unfolding drained_def by (intro exI [of _ rt']) simp
qed

lemma solvent_init_reachable: "cl_reachable (chrono solvent_init)"
  unfolding solvent_init_def register_with_mode_def Let_def
  by (auto intro!: cl_reachable.step [OF _ cl_step.register] cl_reachable.new)

theorem chrono_tick_drains_witness:
  "\<exists>rt'. chrono_tick 100 (Some solvent_init) = Some (Some rt') \<and> \<not> cursor_visible rt'"
proof -
  have nw: "now (chrono solvent_init) = 0"
    by (simp add: solvent_init_def register_with_mode_def register_with_mode_and_policy_def cl_new_def Let_def
        CURSOR_BLINK_INTERVAL_def FRAME_INTERVAL_TICKS_def)
  have "due_count CURSOR_TIMER_ID (tick 100 (chrono solvent_init)) = 1"
    by (simp add: due_count_def cl_due_def solvent_init_def register_with_mode_def
        register_with_mode_and_policy_def cl_new_def Let_def CURSOR_BLINK_INTERVAL_def
        FRAME_INTERVAL_TICKS_def CURSOR_TIMER_ID_def FRAME_TIMER_ID_def tick_def timer_key_def)
  moreover have "cursor_visible solvent_init" by (simp add: solvent_init_def Let_def)
  moreover have "max (now (chrono solvent_init)) 100 < - 1" unfolding nw by simp
  ultimately show ?thesis
    using chrono_tick_drains [OF solvent_init_reachable, of 100] by auto
qed

end
