(* ===== verification/Petroleum_Frames.thy ===== *)
theory Petroleum_Frames
  imports Fullerene_Prelude "HOL-Library.Monad_Syntax"
begin

text \<open>
  The physical frame allocator, \<open>src/petroleum/src/page_table/allocator/\<close>: a bitmap with one bit
  per 4 KiB frame (set means used), the searches for one frame and for a run of frames, and the
  default methods of the \<open>FrameAllocator\<close> trait.

  An index outside the bitmap is a panic, the value \<open>None\<close> of the outer option. The vector is
  created with a requested capacity and then resized to the capacity it got, which the standard
  library only bounds from below; \<open>slack\<close> is the excess. Frames of the \<open>x86_64\<close> crate are
  represented by their start address. \<open>PhysFrame::containing_address(PhysAddr::new(a))\<close> of that
  crate is the argument \<open>containing\<close>, \<open>None\<close> where it panics. The value of the \<open>CR3\<close> register is an
  argument of the operation that reads it.
\<close>

section \<open>Data\<close>

datatype AllocError = OutOfMemory | InvalidAlignment | NotInitialized

text \<open>\<open>SystemError\<close> has many members; the allocator returns one of them.\<close>

datatype FrameError = FrameAllocationFailed

datatype PhysFrame = PhysFrame (start_address: u64)

record BitmapFrameAllocator =
  bitmap :: "u64 list"
  bm_capacity :: nat
  total_frames :: nat

definition SIZE_4K :: u64 where
  "SIZE_4K = 4096"


section \<open>Operations\<close>

definition ba_new :: "nat \<Rightarrow> nat \<Rightarrow> BitmapFrameAllocator" where
  "ba_new slack n = \<lparr>bitmap = [], bm_capacity = (n + 63) div 64 + slack, total_frames = n\<rparr>"

text \<open>\<open>Vec::resize\<close> to the capacity: extends with the value, or truncates.\<close>

definition bm_resize :: "u64 \<Rightarrow> BitmapFrameAllocator \<Rightarrow> BitmapFrameAllocator" where
  "bm_resize v b = b\<lparr>bitmap := take (bm_capacity b)
     (bitmap b @ replicate (bm_capacity b - length (bitmap b)) v)\<rparr>"

definition frame_bit_clear :: "u64 \<Rightarrow> nat \<Rightarrow> bool" where
  "frame_bit_clear w j \<longleftrightarrow> w AND push_bit j 1 = 0"

definition set_frame_used :: "nat \<Rightarrow> bool \<Rightarrow> BitmapFrameAllocator \<Rightarrow> BitmapFrameAllocator option" where
  "set_frame_used frame used b =
     (if total_frames b \<le> frame then Some b
      else let idx = frame div 64; bt = frame mod 64 in
        if length (bitmap b) \<le> idx then None
        else if used
          then Some (b\<lparr>bitmap := (bitmap b)[idx := (bitmap b ! idx) OR push_bit bt 1]\<rparr>)
          else Some (b\<lparr>bitmap := (bitmap b)[idx := (bitmap b ! idx) AND NOT (push_bit bt 1)]\<rparr>))"

fun set_frames :: "nat list \<Rightarrow> bool \<Rightarrow> BitmapFrameAllocator \<Rightarrow> BitmapFrameAllocator option" where
  "set_frames [] used b = Some b"
| "set_frames (i # is) used b = do { b' \<leftarrow> set_frame_used i used b; set_frames is used b' }"

definition set_frame_range :: "nat \<Rightarrow> nat \<Rightarrow> bool \<Rightarrow> BitmapFrameAllocator \<Rightarrow> BitmapFrameAllocator option" where
  "set_frame_range start end' used b = set_frames [start..<end'] used b"

definition ba_init :: "nat \<Rightarrow> BitmapFrameAllocator \<Rightarrow> BitmapFrameAllocator option" where
  "ba_init initial_used b = set_frames [0..<initial_used] True (bm_resize 0 b)"

definition is_frame_available :: "nat \<Rightarrow> BitmapFrameAllocator \<Rightarrow> bool option" where
  "is_frame_available frame b =
     (if total_frames b \<le> frame then Some False
      else if length (bitmap b) \<le> frame div 64 then None
      else Some (frame_bit_clear (bitmap b ! (frame div 64)) (frame mod 64)))"

fun count_available :: "nat list \<Rightarrow> BitmapFrameAllocator \<Rightarrow> nat option" where
  "count_available [] b = Some 0"
| "count_available (i # is) b = do {
     a \<leftarrow> is_frame_available i b;
     n \<leftarrow> count_available is b;
     Some (if a then Suc n else n) }"

definition available_frames :: "BitmapFrameAllocator \<Rightarrow> nat option" where
  "available_frames b = count_available [0..<total_frames b] b"

definition LOW_MEM_SKIP_FRAMES :: nat where
  "LOW_MEM_SKIP_FRAMES = 16 * 1024 * 1024 div 4096"

fun contiguous_loop ::
    "nat \<Rightarrow> nat list \<Rightarrow> nat \<Rightarrow> nat \<Rightarrow> BitmapFrameAllocator
     \<Rightarrow> ((FrameError + u64) \<times> BitmapFrameAllocator) option" where
  "contiguous_loop pages [] cnt start b = Some (Inl FrameAllocationFailed, b)"
| "contiguous_loop pages (i # is) cnt start b = do {
     a \<leftarrow> is_frame_available i b;
     if \<not> a then contiguous_loop pages is 0 (i + 1) b
     else if cnt + 1 = pages then do {
       b' \<leftarrow> set_frames [start..<i + 1] True b;
       Some (Inr (of_nat start * 4096), b') }
     else contiguous_loop pages is (cnt + 1) start b }"

definition allocate_contiguous_frames ::
    "nat \<Rightarrow> BitmapFrameAllocator \<Rightarrow> ((FrameError + u64) \<times> BitmapFrameAllocator) option" where
  "allocate_contiguous_frames pages b =
     contiguous_loop pages [LOW_MEM_SKIP_FRAMES..<total_frames b] 0 LOW_MEM_SKIP_FRAMES b"

definition free_frame :: "u64 \<Rightarrow> BitmapFrameAllocator \<Rightarrow> BitmapFrameAllocator option" where
  "free_frame phys_addr b =
     (let frame_idx = unat (phys_addr div 4096) in
      if frame_idx < total_frames b then set_frame_used frame_idx False b else Some b)"

definition free_contiguous_frames :: "u64 \<Rightarrow> nat \<Rightarrow> BitmapFrameAllocator \<Rightarrow> BitmapFrameAllocator option" where
  "free_contiguous_frames start_phys pages b =
     (let start_frame = unat (start_phys div 4096)
      in set_frames (map (\<lambda>i. start_frame + i) [0..<pages]) False b)"

definition reserve_frames ::
    "u64 \<Rightarrow> nat \<Rightarrow> BitmapFrameAllocator \<Rightarrow> ((FrameError + unit) \<times> BitmapFrameAllocator) option" where
  "reserve_frames start_phys pages b =
     (let start_frame = unat (start_phys div 4096)
      in do {
        b' \<leftarrow> set_frames (map (\<lambda>i. start_frame + i) [0..<pages]) True b;
        Some (Inr (), b') })"

definition release_frames :: "u64 \<Rightarrow> nat \<Rightarrow> BitmapFrameAllocator \<Rightarrow> BitmapFrameAllocator option" where
  "release_frames start_phys pages b =
     (let start_frame = unat (start_phys div 4096)
      in set_frames (map (\<lambda>i. start_frame + i) [0..<pages]) False b)"

fun low_loop :: "nat \<Rightarrow> nat list \<Rightarrow> BitmapFrameAllocator \<Rightarrow> (nat option \<times> BitmapFrameAllocator) option" where
  "low_loop l4 [] b = Some (None, b)"
| "low_loop l4 (f # fs) b =
     (if f = l4 then low_loop l4 fs b
      else if length (bitmap b) \<le> f div 64 then None
      else if frame_bit_clear (bitmap b ! (f div 64)) (f mod 64)
      then do { b' \<leftarrow> set_frame_used f True b; Some (Some f, b') }
      else low_loop l4 fs b)"

definition LOW_MEMORY_LIMIT :: nat where
  "LOW_MEMORY_LIMIT = 1024 * 1024 div 4096"

definition allocate_frame_low ::
    "(u64 \<Rightarrow> u64 option) \<Rightarrow> u64 \<Rightarrow> BitmapFrameAllocator \<Rightarrow> (u64 option \<times> BitmapFrameAllocator) option" where
  "allocate_frame_low containing cr3_addr b = do {
     r \<leftarrow> low_loop (unat (cr3_addr div 4096)) [1..<min LOW_MEMORY_LIMIT (total_frames b)] b;
     (case r of
        (None, b') \<Rightarrow> Some (None, b')
      | (Some f, b') \<Rightarrow> do { fr \<leftarrow> containing (of_nat f * 4096); Some (Some fr, b') }) }"

text \<open>
  The search of \<open>allocate\<close> and \<open>allocate_frame\<close>: words that are all ones are skipped, frame 0 is
  never handed out, and the first index past the last frame ends the search.
\<close>

datatype bit_scan = Found nat | Exhausted | NextWord

fun alloc_bits :: "BitmapFrameAllocator \<Rightarrow> nat \<Rightarrow> nat list \<Rightarrow> bit_scan" where
  "alloc_bits b i [] = NextWord"
| "alloc_bits b i (j # js) =
     (let frame_idx = i * 64 + j in
      if frame_idx = 0 then alloc_bits b i js
      else if total_frames b \<le> frame_idx then Exhausted
      else if frame_bit_clear (bitmap b ! i) j then Found frame_idx
      else alloc_bits b i js)"

fun alloc_words :: "BitmapFrameAllocator \<Rightarrow> nat list \<Rightarrow> nat option" where
  "alloc_words b [] = None"
| "alloc_words b (i # is) =
     (if bitmap b ! i \<noteq> - 1
      then (case alloc_bits b i [0..<64] of
              Found f \<Rightarrow> Some f
            | Exhausted \<Rightarrow> None
            | NextWord \<Rightarrow> alloc_words b is)
      else alloc_words b is)"

definition allocate :: "BitmapFrameAllocator \<Rightarrow> ((AllocError + PhysFrame) \<times> BitmapFrameAllocator) option" where
  "allocate b = (case alloc_words b [0..<length (bitmap b)] of
     None \<Rightarrow> Some (Inl OutOfMemory, b)
   | Some f \<Rightarrow> do {
       b' \<leftarrow> set_frame_used f True b;
       Some (Inr (PhysFrame (of_nat f * 4096)), b') })"

definition deallocate :: "PhysFrame \<Rightarrow> BitmapFrameAllocator \<Rightarrow> BitmapFrameAllocator option" where
  "deallocate frame b =
     (let frame_idx = unat (start_address frame div 4096) in
      if frame_idx < total_frames b then set_frame_used frame_idx False b else Some b)"

definition deallocate_frame :: "PhysFrame \<Rightarrow> BitmapFrameAllocator \<Rightarrow> BitmapFrameAllocator option" where
  "deallocate_frame frame b = deallocate frame b"

definition ba_is_initialized :: "BitmapFrameAllocator \<Rightarrow> bool" where
  "ba_is_initialized b \<longleftrightarrow> bitmap b \<noteq> []"

definition total_memory :: "BitmapFrameAllocator \<Rightarrow> u64" where
  "total_memory b = of_nat (total_frames b) * 4096"

definition allocate_frame ::
    "(u64 \<Rightarrow> u64 option) \<Rightarrow> BitmapFrameAllocator \<Rightarrow> (u64 option \<times> BitmapFrameAllocator) option" where
  "allocate_frame containing b = (case alloc_words b [0..<length (bitmap b)] of
     None \<Rightarrow> Some (None, b)
   | Some f \<Rightarrow> do {
       b' \<leftarrow> set_frame_used f True b;
       fr \<leftarrow> containing (of_nat f * 4096);
       Some (Some fr, b') })"

text \<open>The default method of the trait, for the bitmap allocator, which does not override it.\<close>

fun allocate_more :: "nat \<Rightarrow> BitmapFrameAllocator \<Rightarrow> ((AllocError + unit) \<times> BitmapFrameAllocator) option" where
  "allocate_more 0 b = Some (Inr (), b)"
| "allocate_more (Suc n) b = do {
     r \<leftarrow> allocate b;
     (case r of
        (Inl e, b') \<Rightarrow> Some (Inl e, b')
      | (Inr _, b') \<Rightarrow> allocate_more n b') }"

definition allocate_contiguous ::
    "nat \<Rightarrow> BitmapFrameAllocator \<Rightarrow> ((AllocError + PhysFrame) \<times> BitmapFrameAllocator) option" where
  "allocate_contiguous cnt b =
     (if cnt = 0 then Some (Inl InvalidAlignment, b)
      else do {
        r \<leftarrow> allocate b;
        (case r of
           (Inl e, b') \<Rightarrow> Some (Inl e, b')
         | (Inr first, b') \<Rightarrow> do {
             m \<leftarrow> allocate_more (cnt - 1) b';
             (case m of
                (Inl e, b'') \<Rightarrow> Some (Inl e, b'')
              | (Inr _, b'') \<Rightarrow> Some (Inr first, b'')) }) })"



section \<open>The bitmap as a set of free frames\<close>

definition frame_free :: "BitmapFrameAllocator \<Rightarrow> nat \<Rightarrow> bool" where
  "frame_free b f \<longleftrightarrow> f < total_frames b \<and> \<not> bit (bitmap b ! (f div 64)) (f mod 64)"

text \<open>
  The bitmap covers every frame, and every frame has a physical address of at most 64 bits.
\<close>

definition ba_inv :: "BitmapFrameAllocator \<Rightarrow> bool" where
  "ba_inv b \<longleftrightarrow> total_frames b \<le> 64 * length (bitmap b) \<and> total_frames b \<le> 2 ^ 52"

lemma frame_bit_clear_iff: "frame_bit_clear w j \<longleftrightarrow> \<not> bit w j"
  by (simp add: frame_bit_clear_def push_bit_of_1 and_exp_eq_0_iff_not_bit)

lemma frame_word_exists: "ba_inv b \<Longrightarrow> f < total_frames b \<Longrightarrow> f div 64 < length (bitmap b)"
  by (auto simp: ba_inv_def)

lemma is_frame_available_eq: "ba_inv b \<Longrightarrow> is_frame_available f b = Some (frame_free b f)"
  using frame_word_exists [of b f]
  by (cases "f < total_frames b") (auto simp: is_frame_available_def frame_free_def frame_bit_clear_iff)

lemma word_bit_update:
  fixes w :: u64
  assumes "j < 64" and "k < 64"
  shows "bit (w OR push_bit j 1) k \<longleftrightarrow> k = j \<or> bit w k"
    and "bit (w AND NOT (push_bit j 1)) k \<longleftrightarrow> k \<noteq> j \<and> bit w k"
  using assms by (auto simp: bit_simps)

text \<open>Marking one frame changes the state of that frame and of no other.\<close>

lemma set_frame_used_ok:
  assumes "ba_inv b"
  shows "\<exists>b'. set_frame_used f used b = Some b' \<and> ba_inv b' \<and> total_frames b' = total_frames b \<and>
     length (bitmap b') = length (bitmap b) \<and>
     (\<forall>g. frame_free b' g \<longleftrightarrow> (if g = f then f < total_frames b \<and> \<not> used else frame_free b g))"
proof (cases "f < total_frames b")
  case False
  with assms show ?thesis
    by (auto simp: set_frame_used_def frame_free_def)
next
  case True
  let ?i = "f div 64" and ?j = "f mod 64"
  have i: "?i < length (bitmap b)" using assms True by (rule frame_word_exists)
  define w where "w = (if used then (bitmap b ! ?i) OR push_bit ?j 1
                       else (bitmap b ! ?i) AND NOT (push_bit ?j 1))"
  let ?b = "b\<lparr>bitmap := (bitmap b)[?i := w]\<rparr>"
  have set: "set_frame_used f used b = Some ?b"
    using True i by (simp add: set_frame_used_def Let_def w_def)
  have w: "bit w k \<longleftrightarrow> (if k = ?j then used else bit (bitmap b ! ?i) k)" if "k < 64" for k
    using that word_bit_update [of ?j k "bitmap b ! ?i"] by (auto simp: w_def)
  have "frame_free ?b g \<longleftrightarrow> (if g = f then \<not> used else frame_free b g)" for g
  proof (cases "g div 64 = ?i")
    case True
    then have "g = f \<longleftrightarrow> g mod 64 = ?j" by (metis div_mult_mod_eq)
    with True i w [of "g mod 64"] \<open>f < total_frames b\<close> show ?thesis
      by (auto simp: frame_free_def)
  next
    case False
    then show ?thesis by (auto simp: frame_free_def)
  qed
  with set True assms show ?thesis
    by (intro exI [of _ ?b]) (simp add: ba_inv_def)
qed

lemma set_frames_ok:
  assumes "ba_inv b"
  shows "\<exists>b'. set_frames fs used b = Some b' \<and> ba_inv b' \<and> total_frames b' = total_frames b \<and>
     length (bitmap b') = length (bitmap b) \<and>
     (\<forall>g. frame_free b' g \<longleftrightarrow> (if g \<in> set fs then g < total_frames b \<and> \<not> used else frame_free b g))"
  using assms
proof (induction fs arbitrary: b)
  case Nil
  then show ?case by simp
next
  case (Cons f fs)
  from set_frame_used_ok [OF Cons.prems, of f used] obtain b1 where b1:
    "set_frame_used f used b = Some b1" "ba_inv b1" "total_frames b1 = total_frames b"
    "length (bitmap b1) = length (bitmap b)"
    "\<And>g. frame_free b1 g \<longleftrightarrow> (if g = f then f < total_frames b \<and> \<not> used else frame_free b g)" by blast
  from Cons.IH [OF b1(2)] obtain b2 where b2: "set_frames fs used b1 = Some b2" "ba_inv b2"
    "total_frames b2 = total_frames b1" "length (bitmap b2) = length (bitmap b1)"
    "\<And>g. frame_free b2 g \<longleftrightarrow> (if g \<in> set fs then g < total_frames b1 \<and> \<not> used else frame_free b1 g)"
    by blast
  show ?case
    by (intro exI [of _ b2]) (auto simp: b1 b2)
qed

lemma set_frames_take:
  assumes "ba_inv b"
  shows "\<exists>b'. set_frames fs True b = Some b' \<and> ba_inv b' \<and> total_frames b' = total_frames b \<and>
     (\<forall>g. frame_free b' g \<longleftrightarrow> g \<notin> set fs \<and> frame_free b g)"
  using set_frames_ok [OF assms, of fs True] by fastforce

lemma set_frames_release:
  assumes "ba_inv b"
  shows "\<exists>b'. set_frames fs False b = Some b' \<and> ba_inv b' \<and> total_frames b' = total_frames b \<and>
     (\<forall>g. frame_free b' g \<longleftrightarrow> g \<in> set fs \<and> g < total_frames b \<or> frame_free b g)"
  using set_frames_ok [OF assms, of fs False] by (fastforce simp: frame_free_def)

lemma ba_init_ok:
  "n \<le> 2 ^ 52 \<Longrightarrow> \<exists>b. ba_init used (ba_new slack n) = Some b \<and> ba_inv b \<and> total_frames b = n \<and>
     (\<forall>g. frame_free b g \<longleftrightarrow> used \<le> g \<and> g < n)"
proof -
  assume n: "n \<le> 2 ^ 52"
  let ?b = "bm_resize 0 (ba_new slack n)"
  have r: "ba_inv ?b" "total_frames ?b = n" "bitmap ?b = replicate ((n + 63) div 64 + slack) 0"
    using n by (auto simp: bm_resize_def ba_new_def ba_inv_def)
  have free: "frame_free ?b g \<longleftrightarrow> g < n" for g
    using frame_word_exists [OF r(1), of g] r by (auto simp: frame_free_def)
  from set_frames_ok [OF r(1), of "[0..<used]" True] show ?thesis
    using r free unfolding ba_init_def by fastforce
qed


section \<open>The search for one frame\<close>

text \<open>The word-skipping search agrees with a plain search for the first free frame after frame 0.\<close>

definition first_free :: "BitmapFrameAllocator \<Rightarrow> nat \<Rightarrow> nat option" where
  "first_free b k = find (\<lambda>f. f \<noteq> 0 \<and> frame_free b f) [k..<total_frames b]"

lemma first_free_step:
  "k < total_frames b \<Longrightarrow>
   first_free b k = (if k \<noteq> 0 \<and> frame_free b k then Some k else first_free b (Suc k))"
  by (simp add: first_free_def upt_conv_Cons)

lemma first_free_skip: "k = 0 \<or> \<not> frame_free b k \<Longrightarrow> first_free b k = first_free b (Suc k)"
  by (cases "k < total_frames b") (auto simp: first_free_step, simp_all add: first_free_def)

lemma first_free_end: "total_frames b \<le> k \<Longrightarrow> first_free b k = None"
  by (simp add: first_free_def)

text \<open>
  Scanning the bits of word \<open>i\<close> from bit \<open>j\<close> on either finds the first free frame, or runs past the
  last frame, or leaves the search at the first bit of the next word.
\<close>

lemma alloc_bits_eq:
  assumes "j \<le> 64"
  shows "(case alloc_bits b i [j..<64] of
            Found f \<Rightarrow> first_free b (i * 64 + j) = Some f
          | Exhausted \<Rightarrow> first_free b (i * 64 + j) = None
          | NextWord \<Rightarrow> first_free b (i * 64 + j) = first_free b (Suc i * 64))"
  using assms
proof (induction "64 - j" arbitrary: j)
  case 0
  then show ?case by (simp add: add.commute)
next
  case (Suc d)
  then have j: "j < 64" and IH: "case alloc_bits b i [Suc j..<64] of
            Found f \<Rightarrow> first_free b (i * 64 + Suc j) = Some f
          | Exhausted \<Rightarrow> first_free b (i * 64 + Suc j) = None
          | NextWord \<Rightarrow> first_free b (i * 64 + Suc j) = first_free b (Suc i * 64)" by auto
  let ?f = "i * 64 + j"
  have clear: "?f < total_frames b \<Longrightarrow> frame_bit_clear (bitmap b ! i) j \<longleftrightarrow> frame_free b ?f"
    using j by (simp add: frame_free_def frame_bit_clear_iff)
  have up: "[j..<64] = j # [Suc j..<64]" using j by (rule upt_conv_Cons)
  consider (zero) "?f = 0" | (past) "?f \<noteq> 0" "total_frames b \<le> ?f"
    | (free) "?f \<noteq> 0" "?f < total_frames b" "frame_free b ?f"
    | (used) "?f \<noteq> 0" "?f < total_frames b" "\<not> frame_free b ?f" by linarith
  then show ?case
  proof cases
    case zero
    then have "alloc_bits b i [j..<64] = alloc_bits b i [Suc j..<64]"
      by (simp only: up alloc_bits.simps Let_def if_True simp_thms)
    moreover have "first_free b ?f = first_free b (i * 64 + Suc j)"
      using first_free_skip [of ?f b] zero by simp
    ultimately show ?thesis using IH by (simp only:)
  next
    case past
    then have "alloc_bits b i [j..<64] = Exhausted" by (auto simp: up Let_def)
    with past show ?thesis by (simp add: first_free_end)
  next
    case free
    then have "alloc_bits b i [j..<64] = Found ?f" by (auto simp: up Let_def clear)
    with free show ?thesis by (simp add: first_free_step)
  next
    case used
    then have "alloc_bits b i [j..<64] = alloc_bits b i [Suc j..<64]" by (auto simp: up Let_def clear)
    moreover have "first_free b ?f = first_free b (i * 64 + Suc j)"
      using first_free_skip [of ?f b] used by simp
    ultimately show ?thesis using IH by (simp only:)
  qed
qed

lemma full_word_skip:
  assumes "bitmap b ! i = - 1"
  shows "first_free b (i * 64) = first_free b (Suc i * 64)"
proof -
  have "\<not> frame_free b (i * 64 + j)" if "j < 64" for j
    using that assms by (simp add: frame_free_def)
  then have "first_free b (i * 64) = first_free b (i * 64 + j)" if "j \<le> 64" for j
    using that
    by (induction j) (auto simp: first_free_skip)
  from this [of 64] show ?thesis by (simp add: add.commute)
qed

lemma alloc_words_eq:
  assumes "total_frames b \<le> 64 * length (bitmap b)" and "i \<le> length (bitmap b)"
  shows "alloc_words b [i..<length (bitmap b)] = first_free b (i * 64)"
  using assms(2)
proof (induction "length (bitmap b) - i" arbitrary: i)
  case 0
  with assms(1) show ?case by (simp add: first_free_end)
next
  case (Suc d)
  then have up: "[i..<length (bitmap b)] = i # [Suc i..<length (bitmap b)]"
    and IH: "alloc_words b [Suc i..<length (bitmap b)] = first_free b (Suc i * 64)"
    by (auto simp: upt_conv_Cons)
  show ?case
    unfolding up using IH full_word_skip [of b i] alloc_bits_eq [of 0 b i]
    by (auto split: bit_scan.splits)
qed

text \<open>\<open>allocate\<close> takes the least free frame after frame 0, and fails only when there is none.\<close>

lemma allocate_cases:
  assumes "ba_inv b"
  obtains (full) "allocate b = Some (Inl OutOfMemory, b)" "\<forall>g. g \<noteq> 0 \<longrightarrow> \<not> frame_free b g"
  | (took) f b' where "allocate b = Some (Inr (PhysFrame (of_nat f * 4096)), b')" "f \<noteq> 0"
      "frame_free b f" "\<forall>g. 0 < g \<and> g < f \<longrightarrow> \<not> frame_free b g" "ba_inv b'"
      "total_frames b' = total_frames b" "\<forall>g. frame_free b' g \<longleftrightarrow> g \<noteq> f \<and> frame_free b g"
proof (cases "first_free b 0")
  case None
  then have "\<forall>g. g \<noteq> 0 \<longrightarrow> \<not> frame_free b g"
    by (auto simp: first_free_def list_scan_simps frame_free_def)
  with None assms show ?thesis
    using alloc_words_eq [of b 0] by (intro full) (auto simp: allocate_def ba_inv_def)
next
  case (Some f)
  then have f: "f \<noteq> 0" "frame_free b f" "\<forall>g. 0 < g \<and> g < f \<longrightarrow> \<not> frame_free b g"
    by (auto simp: first_free_def list_scan_simps)
  from set_frame_used_ok [OF assms, of f True] obtain b' where b':
    "set_frame_used f True b = Some b'" "ba_inv b'" "total_frames b' = total_frames b"
    "\<forall>g. frame_free b' g \<longleftrightarrow> g \<noteq> f \<and> frame_free b g" by auto
  have "alloc_words b [0..<length (bitmap b)] = Some f"
    using alloc_words_eq [of b 0] Some assms by (simp add: ba_inv_def)
  with b' f show ?thesis by (intro took) (auto simp: allocate_def)
qed


section \<open>Physical addresses\<close>

lemma frame_addr_unat: "f < 2 ^ 52 \<Longrightarrow> unat (of_nat f * 4096 :: u64) = f * 4096"
  by (simp add: unat_word_ariths unat_of_nat)

lemma frame_addr_index: "f < 2 ^ 52 \<Longrightarrow> unat ((of_nat f * 4096 :: u64) div 4096) = f"
  by (simp add: unat_div frame_addr_unat)

lemma frame_free_bound: "ba_inv b \<Longrightarrow> frame_free b f \<Longrightarrow> f < 2 ^ 52"
  by (simp add: ba_inv_def frame_free_def)

definition free_addrs :: "BitmapFrameAllocator \<Rightarrow> u64 set" where
  "free_addrs b = (\<lambda>f. of_nat f * 4096) ` {f. f \<noteq> 0 \<and> frame_free b f}"

lemma free_addrs_remove:
  assumes "ba_inv b" and "frame_free b f" and "\<forall>g. frame_free b' g \<longleftrightarrow> g \<noteq> f \<and> frame_free b g"
  shows "free_addrs b' = free_addrs b - {of_nat f * 4096}"
proof -
  have "of_nat g * 4096 \<noteq> (of_nat f * 4096 :: u64)" if "frame_free b g" "g \<noteq> f" for g
    using frame_addr_index frame_free_bound assms(1,2) that by metis
  then show ?thesis using assms(3) by (auto simp: free_addrs_def)
qed

lemma allocate_took_addrs:
  assumes "ba_inv b" and "allocate b = Some (Inr f, b')"
  shows "start_address f \<in> free_addrs b \<and> free_addrs b' = free_addrs b - {start_address f}"
  using assms(1)
proof (cases rule: allocate_cases)
  case (took g b1)
  with assms(2) have f: "start_address f = of_nat g * 4096" "b1 = b'" by auto
  have "of_nat g * 4096 \<in> free_addrs b" using took(2,3) by (auto simp: free_addrs_def)
  with free_addrs_remove [OF assms(1) took(3,7)] f show ?thesis by simp
qed (use assms(2) in simp)


section \<open>What the users of an allocator rely on\<close>

text \<open>
  The contract of a pool of frames, over the addresses it holds: taking a frame removes it from
  the pool, failing leaves the pool as it is, and returning a frame does not take another away.
\<close>

locale frame_pool =
  fixes alloc :: "'s \<Rightarrow> ((AllocError + PhysFrame) \<times> 's) option"
    and free :: "'s \<Rightarrow> u64 set"
    and pool_inv :: "'s \<Rightarrow> bool"
  assumes alloc_returns: "pool_inv s \<Longrightarrow> \<exists>r s'. alloc s = Some (r, s')"
    and alloc_inv: "pool_inv s \<Longrightarrow> alloc s = Some (r, s') \<Longrightarrow> pool_inv s'"
    and alloc_took: "pool_inv s \<Longrightarrow> alloc s = Some (Inr f, s') \<Longrightarrow>
          start_address f \<in> free s \<and> free s' = free s - {start_address f}"
    and alloc_failed: "pool_inv s \<Longrightarrow> alloc s = Some (Inl e, s') \<Longrightarrow> s' = s \<and> free s = {}"
    and free_finite: "pool_inv s \<Longrightarrow> finite (free s)"
begin

primrec allocs :: "nat \<Rightarrow> 's \<Rightarrow> (u64 list \<times> 's) option" where
  "allocs 0 s = Some ([], s)"
| "allocs (Suc n) s = (case alloc s of
     Some (Inr f, s') \<Rightarrow> (case allocs n s' of
        None \<Rightarrow> None | Some (fs, s'') \<Rightarrow> Some (start_address f # fs, s''))
   | _ \<Rightarrow> None)"

text \<open>As many requests succeed as there are free frames, and no frame is handed out twice.\<close>

lemma allocs_distinct:
  assumes "pool_inv s" and "n \<le> card (free s)"
  shows "\<exists>fs s'. allocs n s = Some (fs, s') \<and> length fs = n \<and> distinct fs \<and> set fs \<subseteq> free s \<and>
     free s' = free s - set fs \<and> pool_inv s'"
  using assms
proof (induction n arbitrary: s)
  case 0
  then show ?case by simp
next
  case (Suc n)
  from alloc_returns [OF Suc.prems(1)] obtain r s1 where a: "alloc s = Some (r, s1)" by blast
  have "free s \<noteq> {}" using Suc.prems(2) by auto
  with alloc_failed Suc.prems(1) a obtain f where r: "r = Inr f" by (cases r) auto
  note took = alloc_took [OF Suc.prems(1) a [unfolded r]]
  have "n \<le> card (free s1)" using took Suc.prems free_finite by simp
  from Suc.IH [OF alloc_inv [OF Suc.prems(1) a] this] obtain fs s2 where
    fs: "allocs n s1 = Some (fs, s2)" "length fs = n" "distinct fs" "set fs \<subseteq> free s1"
    "free s2 = free s1 - set fs" "pool_inv s2" by blast
  with a r took show ?case
    by (intro exI [of _ "start_address f # fs"] exI [of _ s2]) auto
qed

end

interpretation bp: frame_pool allocate free_addrs ba_inv
proof
  fix s s' r f e
  assume inv: "ba_inv s"
  show "\<exists>r s'. allocate s = Some (r, s')"
    using inv by (cases rule: allocate_cases) auto
  show "allocate s = Some (r, s') \<Longrightarrow> ba_inv s'"
    by (rule allocate_cases [OF inv]) (use inv in auto)
  show "allocate s = Some (Inr f, s') \<Longrightarrow>
      start_address f \<in> free_addrs s \<and> free_addrs s' = free_addrs s - {start_address f}"
    using inv by (rule allocate_took_addrs)
  show "allocate s = Some (Inl e, s') \<Longrightarrow> s' = s \<and> free_addrs s = {}"
    using inv by (cases rule: allocate_cases) (auto simp: free_addrs_def)
  have "{f. f \<noteq> 0 \<and> frame_free s f} \<subseteq> {..<total_frames s}" by (auto simp: frame_free_def)
  then have "finite {f. f \<noteq> 0 \<and> frame_free s f}" by (rule finite_subset) simp
  then show "finite (free_addrs s)" by (simp add: free_addrs_def)
qed



section \<open>The search for a run of frames\<close>

definition free_run :: "BitmapFrameAllocator \<Rightarrow> nat \<Rightarrow> nat \<Rightarrow> bool" where
  "free_run b s n \<longleftrightarrow> (\<forall>g. s \<le> g \<and> g < s + n \<longrightarrow> frame_free b g)"

definition first_run :: "BitmapFrameAllocator \<Rightarrow> nat \<Rightarrow> nat \<Rightarrow> bool" where
  "first_run b pages s \<longleftrightarrow> LOW_MEM_SKIP_FRAMES \<le> s \<and> free_run b s pages \<and>
     (\<forall>t. LOW_MEM_SKIP_FRAMES \<le> t \<and> t < s \<longrightarrow> \<not> free_run b t pages)"

lemma free_run_blocked:
  "\<not> frame_free b i \<Longrightarrow> s \<le> i \<Longrightarrow> i < s + n \<Longrightarrow> \<not> free_run b s n"
  by (auto simp: free_run_def)

lemma free_run_0: "free_run b s 0"
  by (auto simp: free_run_def)

lemma contiguous_loop_ok:
  assumes "ba_inv b" and "start + cnt = i" and "cnt < pages" and "free_run b start cnt"
    and "LOW_MEM_SKIP_FRAMES \<le> start"
    and "\<forall>t. LOW_MEM_SKIP_FRAMES \<le> t \<and> t < start \<longrightarrow> \<not> free_run b t pages"
  shows "(\<exists>s b'. contiguous_loop pages [i..<total_frames b] cnt start b = Some (Inr (of_nat s * 4096), b') \<and>
            first_run b pages s \<and> ba_inv b' \<and>
            (\<forall>g. frame_free b' g \<longleftrightarrow> frame_free b g \<and> \<not> (s \<le> g \<and> g < s + pages))) \<or>
         contiguous_loop pages [i..<total_frames b] cnt start b = Some (Inl FrameAllocationFailed, b) \<and>
            (\<forall>t. LOW_MEM_SKIP_FRAMES \<le> t \<longrightarrow> \<not> free_run b t pages)"
  using assms(2-)
proof (induction "total_frames b - i" arbitrary: i start cnt)
  case 0
  then have "\<not> frame_free b i" by (simp add: frame_free_def)
  then have "\<not> free_run b t pages" if "LOW_MEM_SKIP_FRAMES \<le> t" for t
  proof (cases "t < start")
    case False
    then have "total_frames b \<le> t + pages - 1" using 0 by linarith
    then have "\<not> frame_free b (t + pages - 1)" by (simp add: frame_free_def)
    then show ?thesis by (rule free_run_blocked) (use 0(3) in auto)
  qed (use 0 that in blast)
  with 0 show ?case by simp
next
  case (Suc d)
  then have up: "[i..<total_frames b] = i # [Suc i..<total_frames b]" by (simp add: upt_conv_Cons)
  have av: "is_frame_available i b = Some (frame_free b i)" using assms(1) by (rule is_frame_available_eq)
  consider (used) "\<not> frame_free b i" | (last) "frame_free b i" "cnt + 1 = pages"
    | (more) "frame_free b i" "cnt + 1 < pages" using Suc.prems(2) by linarith
  then show ?case
  proof cases
    case used
    have "\<not> free_run b t pages" if t: "LOW_MEM_SKIP_FRAMES \<le> t" "t < Suc i" for t
    proof (cases "t < start")
      case True
      with t Suc.prems(5) show ?thesis by blast
    next
      case False
      with t Suc.prems(1,2) have "t \<le> i" "i < t + pages" by linarith+
      with used show ?thesis by (rule free_run_blocked)
    qed
    then have none: "\<forall>t. LOW_MEM_SKIP_FRAMES \<le> t \<and> t < Suc i \<longrightarrow> \<not> free_run b t pages" by blast
    have step: "contiguous_loop pages [i..<total_frames b] cnt start b =
        contiguous_loop pages [Suc i..<total_frames b] 0 (Suc i) b"
      using used by (simp add: up av)
    show ?thesis
      unfolding step
      by (rule Suc.hyps(1) [OF _ _ _ free_run_0 _ none]) (use Suc.hyps(2) Suc.prems(1,2,4) in simp_all)
  next
    case last
    with Suc.prems(1,3) have run: "free_run b start pages"
      by (auto simp: free_run_def less_Suc_eq)
    from set_frames_take [OF assms(1)] obtain b' where b':
      "set_frames [start..<Suc i] True b = Some b'" "ba_inv b'"
      "\<forall>g. frame_free b' g \<longleftrightarrow> g \<notin> set [start..<Suc i] \<and> frame_free b g" by blast
    have "contiguous_loop pages [i..<total_frames b] cnt start b = Some (Inr (of_nat start * 4096), b')"
      using b'(1) last by (simp add: up av del: upt_Suc)
    moreover have "\<forall>g. frame_free b' g \<longleftrightarrow> frame_free b g \<and> \<not> (start \<le> g \<and> g < start + pages)"
      using b'(3) last(2) Suc.prems(1) unfolding set_upt atLeastLessThan_iff by (metis Suc_eq_plus1 add_Suc_right)
    moreover have "first_run b pages start" using run Suc.prems(4,5) by (simp add: first_run_def)
    ultimately show ?thesis using b'(2) by blast
  next
    case more
    with Suc.prems(1,3) have "free_run b start (Suc cnt)"
      by (auto simp: free_run_def less_Suc_eq)
    moreover have step: "contiguous_loop pages [i..<total_frames b] cnt start b =
        contiguous_loop pages [Suc i..<total_frames b] (Suc cnt) start b"
      using more by (simp add: up av)
    ultimately show ?thesis
      unfolding step
      by (intro Suc.hyps(1) [OF _ _ _ _ Suc.prems(4,5)]) (use Suc.hyps(2) Suc.prems(1) more in auto)
  qed
qed

lemma contiguous_loop_zero:
  "ba_inv b \<Longrightarrow> contiguous_loop 0 is cnt start b = Some (Inl FrameAllocationFailed, b)"
  by (induction "is" arbitrary: cnt start) (simp_all add: is_frame_available_eq)

lemma allocate_contiguous_frames_ok:
  assumes "ba_inv b" and "0 < pages"
  shows "(\<exists>s b'. allocate_contiguous_frames pages b = Some (Inr (of_nat s * 4096), b') \<and>
            first_run b pages s \<and> ba_inv b' \<and>
            (\<forall>g. frame_free b' g \<longleftrightarrow> frame_free b g \<and> \<not> (s \<le> g \<and> g < s + pages))) \<or>
         allocate_contiguous_frames pages b = Some (Inl FrameAllocationFailed, b) \<and>
            (\<forall>t. LOW_MEM_SKIP_FRAMES \<le> t \<longrightarrow> \<not> free_run b t pages)"
  unfolding allocate_contiguous_frames_def
  using assms by (intro contiguous_loop_ok) (auto simp: free_run_0)


section \<open>Properties\<close>

text \<open>Evaluation of the search on small concrete bitmaps.\<close>

lemma upt_64: "[0..<64] = 0 # 1 # 2 # 3 # 4 # [5..<64]"
  by (simp add: upt_rec)

lemmas allocate_eval = allocate_def upt_64 frame_bit_clear_iff set_frame_used_def Let_def

text \<open>
  C1. The bitmap allocator implements a set of free frames. \<open>allocate\<close> never panics and returns the
  least free frame other than frame 0, which becomes used while every other frame keeps its
  state; it reports that memory is exhausted exactly when no frame but frame 0 is free, and then
  changes nothing.
\<close>

theorem allocate_least_free:
  assumes "ba_inv b"
  shows "\<exists>r b'. allocate b = Some (r, b') \<and> ba_inv b' \<and>
    (case r of
       Inl e \<Rightarrow> e = OutOfMemory \<and> b' = b \<and> (\<forall>g. g \<noteq> 0 \<longrightarrow> \<not> frame_free b g)
     | Inr fr \<Rightarrow> \<exists>f. unat (start_address fr) = f * 4096 \<and> 0 < f \<and> frame_free b f \<and>
         (\<forall>g. 0 < g \<and> g < f \<longrightarrow> \<not> frame_free b g) \<and>
         (\<forall>g. frame_free b' g \<longleftrightarrow> g \<noteq> f \<and> frame_free b g))"
  using assms
proof (cases rule: allocate_cases)
  case full
  with assms show ?thesis by simp
next
  case (took f b')
  have "unat (of_nat f * 4096 :: u64) = f * 4096"
    using frame_addr_unat frame_free_bound [OF assms took(3)] by blast
  with took show ?thesis
    by (intro exI [of _ "Inr (PhysFrame (of_nat f * 4096))"] exI [of _ b'] conjI) auto
qed

theorem allocate_least_free_witness:
  "\<exists>b b' f. ba_init 3 (ba_new 0 10) = Some b \<and> allocate b = Some (Inr f, b') \<and> frame_free b 3"
proof -
  obtain b where b: "ba_init 3 (ba_new 0 10) = Some b" "ba_inv b" "total_frames b = 10"
    "\<forall>g. frame_free b g \<longleftrightarrow> 3 \<le> g \<and> g < 10"
    using ba_init_ok [of 10 3 0] by auto
  have "frame_free b 3" using b(4) by simp
  with b(1) allocate_least_free [OF b(2)] show ?thesis
    by (elim exE conjE, rename_tac r b', case_tac r) auto
qed

text \<open>
  C2. The search for a run of frames is sound and complete. For a positive count it returns the
  lowest run of free frames at or above 16 MiB and marks exactly these frames used; it fails, and
  changes nothing, only when there is no such run.
\<close>

theorem contiguous_first_fit:
  assumes "ba_inv b" and "0 < pages"
  shows "\<exists>r b'. allocate_contiguous_frames pages b = Some (r, b') \<and> ba_inv b' \<and>
    (case r of
       Inl e \<Rightarrow> b' = b \<and> (\<forall>s \<ge> 4096. \<exists>g. s \<le> g \<and> g < s + pages \<and> \<not> frame_free b g)
     | Inr addr \<Rightarrow> \<exists>s \<ge> 4096. unat addr = s * 4096 \<and>
         (\<forall>g. s \<le> g \<and> g < s + pages \<longrightarrow> frame_free b g) \<and>
         (\<forall>t. 4096 \<le> t \<and> t < s \<longrightarrow> (\<exists>g. t \<le> g \<and> g < t + pages \<and> \<not> frame_free b g)) \<and>
         (\<forall>g. frame_free b' g \<longleftrightarrow> frame_free b g \<and> \<not> (s \<le> g \<and> g < s + pages)))"
  using allocate_contiguous_frames_ok [OF assms]
proof (elim disjE exE conjE)
  fix s b'
  assume a: "allocate_contiguous_frames pages b = Some (Inr (of_nat s * 4096), b')" "first_run b pages s"
    "ba_inv b'" "\<forall>g. frame_free b' g \<longleftrightarrow> frame_free b g \<and> \<not> (s \<le> g \<and> g < s + pages)"
  have "frame_free b s" using a(2) assms(2) by (simp add: first_run_def free_run_def)
  then have "unat (of_nat s * 4096 :: u64) = s * 4096"
    using frame_addr_unat frame_free_bound assms(1) by blast
  with a show ?thesis
    unfolding first_run_def free_run_def LOW_MEM_SKIP_FRAMES_def
    by (intro exI [of _ "Inr (of_nat s * 4096)"] exI [of _ b'] conjI) auto
next
  assume "allocate_contiguous_frames pages b = Some (Inl FrameAllocationFailed, b)"
    "\<forall>t. LOW_MEM_SKIP_FRAMES \<le> t \<longrightarrow> \<not> free_run b t pages"
  with assms(1) show ?thesis
    unfolding free_run_def LOW_MEM_SKIP_FRAMES_def by auto
qed

theorem contiguous_first_fit_witness:
  "\<exists>b b' addr. ba_init 4100 (ba_new 0 5000) = Some b \<and>
     allocate_contiguous_frames 8 b = Some (Inr addr, b') \<and> 4096 * 4096 \<le> unat addr"
proof -
  obtain b where b: "ba_init 4100 (ba_new 0 5000) = Some b" "ba_inv b"
    "\<forall>g. frame_free b g \<longleftrightarrow> 4100 \<le> g \<and> g < 5000"
    using ba_init_ok [of 5000 4100 0, simplified] by blast
  have "frame_free b g" if "4200 \<le> g" "g < 4200 + 8" for g
    using that b(3) by simp
  moreover have "(4096::nat) \<le> 4200" by simp
  ultimately have run: "\<not> (\<forall>s \<ge> 4096. \<exists>g. s \<le> g \<and> g < s + 8 \<and> \<not> frame_free b g)"
    by blast
  have "0 < (8::nat)" by simp
  from contiguous_first_fit [OF b(2) this] obtain r b' where
    a: "allocate_contiguous_frames 8 b = Some (r, b')"
    and c: "case r of
       Inl e \<Rightarrow> b' = b \<and> (\<forall>s \<ge> 4096. \<exists>g. s \<le> g \<and> g < s + 8 \<and> \<not> frame_free b g)
     | Inr addr \<Rightarrow> \<exists>s \<ge> 4096. unat addr = s * 4096 \<and>
         (\<forall>g. s \<le> g \<and> g < s + 8 \<longrightarrow> frame_free b g) \<and>
         (\<forall>t. 4096 \<le> t \<and> t < s \<longrightarrow> (\<exists>g. t \<le> g \<and> g < t + 8 \<and> \<not> frame_free b g)) \<and>
         (\<forall>g. frame_free b' g \<longleftrightarrow> frame_free b g \<and> \<not> (s \<le> g \<and> g < s + 8))" by blast
  show ?thesis
  proof (cases r)
    case (Inl e)
    with c run show ?thesis by simp
  next
    case (Inr addr)
    with c obtain s where "4096 \<le> s" "unat addr = s * 4096" by auto
    then have "4096 * 4096 \<le> unat addr" by simp
    with a b(1) Inr show ?thesis by blast
  qed
qed

text \<open>
  Returning a frame undoes its allocation: after \<open>allocate\<close> and \<open>deallocate\<close> of the frame it
  returned, the same frames are free as before.
\<close>

theorem deallocate_undoes_allocate:
  assumes "ba_inv b" and "allocate b = Some (Inr f, b')"
  shows "\<exists>b''. deallocate f b' = Some b'' \<and> ba_inv b'' \<and> (\<forall>g. frame_free b'' g \<longleftrightarrow> frame_free b g)"
  using assms(1)
proof (cases rule: allocate_cases)
  case full
  with assms(2) show ?thesis by simp
next
  case (took k b1)
  with assms(2) have f: "start_address f = of_nat k * 4096" and b1: "b1 = b'" by auto
  have k: "k < 2 ^ 52" using assms(1) took(3) by (rule frame_free_bound)
  from set_frame_used_ok [OF took(5), of k False] obtain b2 where b2:
    "set_frame_used k False b1 = Some b2" "ba_inv b2"
    "\<forall>g. frame_free b2 g \<longleftrightarrow> (if g = k then k < total_frames b1 else frame_free b1 g)" by auto
  have "\<forall>g. frame_free b2 g \<longleftrightarrow> frame_free b g"
    using b2(3) took(3,6,7) by (auto simp: frame_free_def)
  moreover have "deallocate f b' = Some b2"
    using b2(1) took(3,6) b1 by (simp add: deallocate_def f frame_addr_index [OF k] frame_free_def)
  ultimately show ?thesis using b2(2) by blast
qed

theorem deallocate_undoes_allocate_witness:
  "let b = \<lparr>bitmap = [0xF], bm_capacity = 1, total_frames = 10\<rparr> in
   \<exists>f b' b''. allocate b = Some (Inr f, b') \<and> deallocate f b' = Some b'' \<and> \<not> frame_free b' 4 \<and> frame_free b'' 4"
proof -
  let ?b = "\<lparr>bitmap = [0xF], bm_capacity = 1, total_frames = 10\<rparr>"
  let ?b' = "\<lparr>bitmap = [0x1F], bm_capacity = 1, total_frames = 10\<rparr>"
  have inv: "ba_inv ?b" by (simp add: ba_inv_def)
  have a: "allocate ?b = Some (Inr (PhysFrame 0x4000), ?b')" by (simp add: allocate_eval)
  have "\<not> frame_free ?b' 4" by (simp add: frame_free_def)
  moreover have "frame_free ?b 4" by (simp add: frame_free_def)
  ultimately show ?thesis
    using a deallocate_undoes_allocate [OF inv a] unfolding Let_def by blast
qed


end
