(* ===== verification/Petroleum_MemMap.thy ===== *)
theory Petroleum_MemMap
  imports Petroleum_Frames
begin

text \<open>
  The firmware's memory map, \<open>src/petroleum/src/page_table/memory_map/\<close>, and the frame allocator
  built from it (\<open>init_with_memory_map\<close> of \<open>allocator/bitmap.rs\<close>).

  The trait \<open>MemoryDescriptorValidator\<close> is a record of its methods; the two implementations are the
  descriptor as a structure and the descriptor read field by field from memory, which is a function
  from addresses to bytes. Log output is left out.
\<close>

section \<open>Descriptors\<close>

datatype EfiMemoryType = EfiReservedMemoryType | EfiLoaderCode | EfiLoaderData
  | EfiBootServicesCode | EfiBootServicesData | EfiRuntimeServicesCode | EfiRuntimeServicesData
  | EfiConventionalMemory | EfiMaxMemoryType

fun efi_type_code :: "EfiMemoryType \<Rightarrow> u32" where
  "efi_type_code EfiReservedMemoryType = 0"
| "efi_type_code EfiLoaderCode = 1"
| "efi_type_code EfiLoaderData = 2"
| "efi_type_code EfiBootServicesCode = 3"
| "efi_type_code EfiBootServicesData = 4"
| "efi_type_code EfiRuntimeServicesCode = 5"
| "efi_type_code EfiRuntimeServicesData = 6"
| "efi_type_code EfiConventionalMemory = 7"
| "efi_type_code EfiMaxMemoryType = 15"

record EfiMemoryDescriptor =
  efi_type :: EfiMemoryType
  padding :: u32
  physical_start :: u64
  virtual_start :: u64
  number_of_pages :: u64
  attribute :: u64

record MemoryMapDescriptor =
  ptr :: u64
  descriptor_size :: nat

type_synonym memory = "u64 \<Rightarrow> u8"

definition read_bytes :: "memory \<Rightarrow> u64 \<Rightarrow> nat \<Rightarrow> bytes" where
  "read_bytes mem p n = map (\<lambda>i. mem (p + of_nat i)) [0..<n]"

definition read_u32 :: "memory \<Rightarrow> u64 \<Rightarrow> u32" where
  "read_u32 mem p = of_nat (from_le (read_bytes mem p 4))"

definition read_u64 :: "memory \<Rightarrow> u64 \<Rightarrow> u64" where
  "read_u64 mem p = of_nat (from_le (read_bytes mem p 8))"

definition mmd_type :: "memory \<Rightarrow> MemoryMapDescriptor \<Rightarrow> u32" where
  "mmd_type mem d = read_u32 mem (ptr d)"

definition mmd_padding :: "memory \<Rightarrow> MemoryMapDescriptor \<Rightarrow> u32" where
  "mmd_padding mem d = read_u32 mem (ptr d + 4)"

definition mmd_physical_start :: "memory \<Rightarrow> MemoryMapDescriptor \<Rightarrow> u64" where
  "mmd_physical_start mem d = read_u64 mem (ptr d + 8)"

definition mmd_virtual_start :: "memory \<Rightarrow> MemoryMapDescriptor \<Rightarrow> u64" where
  "mmd_virtual_start mem d = read_u64 mem (ptr d + 16)"

definition mmd_number_of_pages :: "memory \<Rightarrow> MemoryMapDescriptor \<Rightarrow> u64" where
  "mmd_number_of_pages mem d = read_u64 mem (ptr d + 24)"

definition mmd_attribute :: "memory \<Rightarrow> MemoryMapDescriptor \<Rightarrow> u64" where
  "mmd_attribute mem d = read_u64 mem (ptr d + of_nat (descriptor_size d) - 8)"


section \<open>Validation\<close>

definition MAX_DESCRIPTOR_PAGES :: u64 where
  "MAX_DESCRIPTOR_PAGES = 134217728"

definition MAX_SYSTEM_MEMORY :: u64 where
  "MAX_SYSTEM_MEMORY = 512 * 1024 * 1024 * 1024"

definition validate_descriptor_common :: "u32 \<Rightarrow> u64 \<Rightarrow> u64 \<Rightarrow> bool" where
  "validate_descriptor_common mem_type phys pages =
     (if 15 < mem_type then False
      else if phys mod 4096 \<noteq> 0 then False
      else if pages = 0 \<or> MAX_DESCRIPTOR_PAGES < pages then False
      else case checked_add phys (sat_mul pages 4096) of
        None \<Rightarrow> False
      | Some end_addr \<Rightarrow>
          if end_addr = 0 then False
          else if MAX_SYSTEM_MEMORY < end_addr then False
          else True)"

definition is_available_type :: "u32 \<Rightarrow> bool" where
  "is_available_type t \<longleftrightarrow> t = 7 \<or> t = 3 \<or> t = 4 \<or> t = 1 \<or> t = 2 \<or> t = 9"

record 'd MemoryDescriptorValidator =
  is_valid :: "'d \<Rightarrow> bool"
  get_type :: "'d \<Rightarrow> u32"
  get_physical_start :: "'d \<Rightarrow> u64"
  get_page_count :: "'d \<Rightarrow> u64"
  is_memory_available :: "'d \<Rightarrow> bool"

definition efi_validator :: "EfiMemoryDescriptor MemoryDescriptorValidator" where
  "efi_validator = \<lparr>
     is_valid = (\<lambda>d. validate_descriptor_common (efi_type_code (efi_type d)) (physical_start d) (number_of_pages d)),
     get_type = (\<lambda>d. efi_type_code (efi_type d)),
     get_physical_start = physical_start,
     get_page_count = number_of_pages,
     is_memory_available = (\<lambda>d. is_available_type (efi_type_code (efi_type d)))\<rparr>"

definition is_valid_memory_descriptor :: "memory \<Rightarrow> MemoryMapDescriptor \<Rightarrow> bool" where
  "is_valid_memory_descriptor mem d =
     (if descriptor_size d < 40 then False
      else validate_descriptor_common (mmd_type mem d) (mmd_physical_start mem d) (mmd_number_of_pages mem d))"

definition map_validator :: "memory \<Rightarrow> MemoryMapDescriptor MemoryDescriptorValidator" where
  "map_validator mem = \<lparr>
     is_valid = is_valid_memory_descriptor mem,
     get_type = mmd_type mem,
     get_physical_start = mmd_physical_start mem,
     get_page_count = mmd_number_of_pages mem,
     is_memory_available = (\<lambda>d. is_available_type (mmd_type mem d))\<rparr>"


section \<open>Processing the map\<close>

text \<open>
  The callbacks of \<open>process_valid_descriptors\<close> update a captured allocator; here they are a function
  of the state, which may panic.
\<close>

fun process_valid_descriptors ::
    "'d MemoryDescriptorValidator \<Rightarrow> ('d \<Rightarrow> nat \<Rightarrow> nat \<Rightarrow> 's \<Rightarrow> 's option) \<Rightarrow> 'd list \<Rightarrow> 's \<Rightarrow> 's option" where
  "process_valid_descriptors v f [] s = Some s"
| "process_valid_descriptors v f (d # ds) s =
     (if MAX_DESCRIPTOR_PAGES < get_page_count v d then process_valid_descriptors v f ds s
      else if is_valid v d then
        let start_frame = unat (get_physical_start v d div 4096);
            end_frame = min (start_frame + unat (get_page_count v d)) (2 ^ 64 - 1)
        in if start_frame < end_frame
           then do { s' \<leftarrow> f d start_frame end_frame s; process_valid_descriptors v f ds s' }
           else process_valid_descriptors v f ds s
      else process_valid_descriptors v f ds s)"

definition process_memory_descriptors ::
    "'d MemoryDescriptorValidator \<Rightarrow> ('d \<Rightarrow> nat \<Rightarrow> nat \<Rightarrow> 's \<Rightarrow> 's option) \<Rightarrow> 'd list \<Rightarrow> 's \<Rightarrow> 's option" where
  "process_memory_descriptors v f ds s =
     process_valid_descriptors v
       (\<lambda>d start_frame end_frame s. if is_memory_available v d then f d start_frame end_frame s else Some s) ds s"

definition mark_available_frames ::
    "'d MemoryDescriptorValidator \<Rightarrow> 'd list \<Rightarrow> BitmapFrameAllocator \<Rightarrow> BitmapFrameAllocator option" where
  "mark_available_frames v ds b = do {
     b' \<leftarrow> process_memory_descriptors v
        (\<lambda>_ start_frame end_frame b.
           let actual_end = min end_frame (total_frames b) in set_frame_range start_frame actual_end False b) ds b;
     set_frame_used 0 True b' }"

fun max_valid_addr :: "'d MemoryDescriptorValidator \<Rightarrow> 'd list \<Rightarrow> u64 \<Rightarrow> u64" where
  "max_valid_addr v [] m = m"
| "max_valid_addr v (d # ds) m =
     (if is_valid v d then
        let end_addr = sat_add (get_physical_start v d) (sat_mul (get_page_count v d) 4096)
        in max_valid_addr v ds (if m < end_addr then end_addr else m)
      else max_valid_addr v ds m)"

definition calculate_frame_allocation_params ::
    "'d MemoryDescriptorValidator \<Rightarrow> 'd list \<Rightarrow> u64 \<times> nat \<times> nat" where
  "calculate_frame_allocation_params v ds =
     (let max_addr = max_valid_addr v ds 0 in
      if max_addr = 0 then (0, 0, 0)
      else let capped_max_addr = min max_addr (32 * 1024 * 1024 * 1024);
               total_frames = (unat capped_max_addr + 4095) div 4096;
               bitmap_size = (total_frames + 63) div 64
           in (max_addr, total_frames, bitmap_size))"

fun for_each_memory_descriptor ::
    "'d MemoryDescriptorValidator \<Rightarrow> EfiMemoryType list \<Rightarrow> ('d \<Rightarrow> 's \<Rightarrow> 's) \<Rightarrow> 'd list \<Rightarrow> 's \<Rightarrow> 's" where
  "for_each_memory_descriptor v types f [] s = s"
| "for_each_memory_descriptor v types f (d # ds) s =
     (if (\<exists>t \<in> set types. get_type v d = efi_type_code t) \<and> 0 < get_page_count v d
      then for_each_memory_descriptor v types f ds (f d s)
      else for_each_memory_descriptor v types f ds s)"


section \<open>Building the allocator\<close>

fun max_phys_end :: "'d MemoryDescriptorValidator \<Rightarrow> 'd list \<Rightarrow> u64 \<Rightarrow> u64" where
  "max_phys_end v [] m = m"
| "max_phys_end v (d # ds) m =
     (let end' = get_physical_start v d + get_page_count v d * 4096
      in max_phys_end v ds (if m < end' then end' else m))"

fun release_conventional ::
    "'d MemoryDescriptorValidator \<Rightarrow> 'd list \<Rightarrow> BitmapFrameAllocator \<Rightarrow> BitmapFrameAllocator option" where
  "release_conventional v [] b = Some b"
| "release_conventional v (d # ds) b =
     (if get_type v d = efi_type_code EfiConventionalMemory then do {
        b' \<leftarrow> set_frame_range (unat (get_physical_start v d div 4096))
               (unat ((get_physical_start v d + get_page_count v d * 4096) div 4096)) False b;
        release_conventional v ds b' }
      else release_conventional v ds b)"

definition init_with_memory_map ::
    "nat \<Rightarrow> 'd MemoryDescriptorValidator \<Rightarrow> 'd list \<Rightarrow> BitmapFrameAllocator option" where
  "init_with_memory_map slack v ds =
     (let max_phys = max_phys_end v ds 0;
          total_frames = unat ((max_phys + 4095) div 4096)
      in release_conventional v ds (bm_resize (- 1) (ba_new slack total_frames)))"



section \<open>Valid descriptors\<close>

definition desc_start :: "'d MemoryDescriptorValidator \<Rightarrow> 'd \<Rightarrow> nat" where
  "desc_start v d = unat (get_physical_start v d) div 4096"

definition desc_end :: "'d MemoryDescriptorValidator \<Rightarrow> 'd \<Rightarrow> nat" where
  "desc_end v d = desc_start v d + unat (get_page_count v d)"

definition desc_ok :: "'d MemoryDescriptorValidator \<Rightarrow> 'd \<Rightarrow> bool" where
  "desc_ok v d \<longleftrightarrow> validate_descriptor_common (get_type v d) (get_physical_start v d) (get_page_count v d)"

lemma MAX_DESCRIPTOR_PAGES_unat: "MAX_DESCRIPTOR_PAGES < n \<longleftrightarrow> 2 ^ 27 < unat n"
  by (simp add: MAX_DESCRIPTOR_PAGES_def word_less_nat_alt)

lemma MAX_SYSTEM_MEMORY_unat: "MAX_SYSTEM_MEMORY < n \<longleftrightarrow> 2 ^ 39 < unat n"
  by (simp add: MAX_SYSTEM_MEMORY_def word_less_nat_alt)

lemma validate_descriptor_iff:
  "validate_descriptor_common t p n \<longleftrightarrow>
     t \<le> 15 \<and> unat p mod 4096 = 0 \<and> 0 < unat n \<and> unat p + unat n * 4096 \<le> 2 ^ 39"
proof -
  have al: "p mod 4096 = 0 \<longleftrightarrow> unat p mod 4096 = 0" by (simp add: word_unat_eq_iff unat_mod)
  have n0: "n = 0 \<longleftrightarrow> unat n = 0" by (simp add: unat_eq_0)
  have m: "unat (sat_mul n 4096) = min (unat n * 4096) (2 ^ 64 - 1)" by (simp add: unat_sat_mul)
  show ?thesis
  proof (cases "checked_add p (sat_mul n 4096)")
    case None
    then have "2 ^ 64 \<le> unat p + min (unat n * 4096) (2 ^ 64 - 1)"
      by (simp add: checked_add_def m split: if_splits)
    then have "\<not> unat p + unat n * 4096 \<le> 2 ^ 39" by simp
    with None show ?thesis by (simp add: validate_descriptor_common_def)
  next
    case (Some e)
    from unat_checked_add [OF this] have e: "unat e = unat p + min (unat n * 4096) (2 ^ 64 - 1)"
      using m by simp
    have e0: "e = 0 \<longleftrightarrow> unat e = 0" by (simp add: unat_eq_0)
    show ?thesis
      unfolding validate_descriptor_common_def Some option.case al n0 e0
        MAX_DESCRIPTOR_PAGES_unat MAX_SYSTEM_MEMORY_unat e
      by (auto simp: min_def split: if_splits)
  qed
qed

lemma desc_ok_bounds:
  assumes "desc_ok v d"
  shows "unat (get_physical_start v d + get_page_count v d * 4096) = 4096 * desc_end v d"
    and "unat (get_physical_start v d div 4096) = desc_start v d"
    and "4096 * desc_end v d \<le> 2 ^ 39"
    and "desc_start v d < desc_end v d"
proof -
  let ?p = "unat (get_physical_start v d)" and ?n = "unat (get_page_count v d)"
  have ok: "?p mod 4096 = 0" "0 < ?n" "?p + ?n * 4096 \<le> 2 ^ 39"
    using assms by (auto simp: desc_ok_def validate_descriptor_iff)
  have e: "4096 * desc_end v d = ?p + ?n * 4096"
    using ok(1) by (simp add: desc_end_def desc_start_def mult.commute mod_eq_0_iff_dvd add_mult_distrib2)
  with ok show "unat (get_physical_start v d + get_page_count v d * 4096) = 4096 * desc_end v d"
    by (simp add: unat_word_ariths)
  show "unat (get_physical_start v d div 4096) = desc_start v d"
    by (simp add: desc_start_def unat_div)
  show "4096 * desc_end v d \<le> 2 ^ 39" using e ok(3) by simp
  show "desc_start v d < desc_end v d" using ok(2) by (simp add: desc_end_def)
qed

lemma max_phys_end_bounds:
  assumes "\<forall>d \<in> set ds. desc_ok v d"
  shows "unat m \<le> unat (max_phys_end v ds m) \<and>
    (\<forall>d \<in> set ds. 4096 * desc_end v d \<le> unat (max_phys_end v ds m)) \<and>
    (unat m \<le> 2 ^ 39 \<longrightarrow> unat (max_phys_end v ds m) \<le> 2 ^ 39)"
  using assms
proof (induction ds arbitrary: m)
  case (Cons d ds)
  let ?e = "get_physical_start v d + get_page_count v d * 4096"
  let ?m = "if m < ?e then ?e else m"
  have e: "unat ?e = 4096 * desc_end v d" "4096 * desc_end v d \<le> 2 ^ 39"
    using Cons.prems desc_ok_bounds(1,3) [of v d] by (simp_all only: list.set_intros)
  have "unat ?m = max (unat m) (4096 * desc_end v d)"
    using e by (auto simp: word_less_nat_alt max_def)
  with Cons.IH [of ?m] Cons.prems e(2) show ?case by (auto simp: Let_def)
qed simp

text \<open>Releasing the conventional descriptors frees exactly the frames they cover.\<close>

lemma release_conventional_ok:
  assumes "ba_inv b" and "\<forall>d \<in> set ds. desc_ok v d"
  shows "\<exists>b'. release_conventional v ds b = Some b' \<and> ba_inv b' \<and> total_frames b' = total_frames b \<and>
     (\<forall>g. frame_free b' g \<longleftrightarrow> frame_free b g \<or>
        g < total_frames b \<and> (\<exists>d \<in> set ds. get_type v d = 7 \<and> desc_start v d \<le> g \<and> g < desc_end v d))"
  using assms
proof (induction ds arbitrary: b)
  case (Cons d ds)
  then have d: "desc_ok v d" and ds: "\<forall>d \<in> set ds. desc_ok v d" by auto
  show ?case
  proof (cases "get_type v d = 7")
    case False
    with Cons.IH [OF Cons.prems(1) ds] show ?thesis by simp
  next
    case True
    have e: "unat ((get_physical_start v d + get_page_count v d * 4096) div 4096) = desc_end v d"
      using desc_ok_bounds(1) [OF d] by (simp add: unat_div)
    from set_frames_release [OF Cons.prems(1), of "[desc_start v d..<desc_end v d]"] obtain b1 where b1:
      "set_frames [desc_start v d..<desc_end v d] False b = Some b1" "ba_inv b1"
      "total_frames b1 = total_frames b"
      "\<And>g. frame_free b1 g \<longleftrightarrow>
         g \<in> set [desc_start v d..<desc_end v d] \<and> g < total_frames b \<or> frame_free b g" by blast
    from Cons.IH [OF b1(2) ds] obtain b2 where b2: "release_conventional v ds b1 = Some b2" "ba_inv b2"
      "total_frames b2 = total_frames b1"
      "\<And>g. frame_free b2 g \<longleftrightarrow> frame_free b1 g \<or> g < total_frames b1 \<and>
         (\<exists>d \<in> set ds. get_type v d = 7 \<and> desc_start v d \<le> g \<and> g < desc_end v d)" by blast
    have "release_conventional v (d # ds) b = Some b2"
      using True b1(1) b2(1) by (simp add: set_frame_range_def e desc_ok_bounds(2) [OF d])
    with b1(3) b2(2,3) True show ?thesis
      by (intro exI [of _ b2]) (auto simp: b1(4) b2(4))
  qed
qed simp

lemma init_with_memory_map_ok:
  assumes "\<forall>d \<in> set ds. desc_ok v d"
  shows "\<exists>b. init_with_memory_map slack v ds = Some b \<and> ba_inv b \<and>
     (\<forall>g. frame_free b g \<longleftrightarrow>
        (\<exists>d \<in> set ds. get_type v d = 7 \<and> desc_start v d \<le> g \<and> g < desc_end v d))"
proof -
  define m where "m = max_phys_end v ds 0"
  define n where "n = unat ((m + 4095) div 4096)"
  have m: "unat m \<le> 2 ^ 39" "\<forall>d \<in> set ds. 4096 * desc_end v d \<le> unat m"
    using max_phys_end_bounds [OF assms, of 0] by (auto simp: m_def)
  then have n: "n = (unat m + 4095) div 4096"
    by (simp add: n_def unat_div unat_word_ariths)
  let ?b = "bm_resize (- 1) (ba_new slack n)"
  have len: "bitmap ?b = replicate ((n + 63) div 64 + slack) (- 1)" "total_frames ?b = n"
    by (simp_all add: bm_resize_def ba_new_def)
  have "n \<le> 2 ^ 52" using m(1) n by simp
  then have inv: "ba_inv ?b" unfolding ba_inv_def len by simp
  have none: "\<not> frame_free ?b g" for g
    using frame_word_exists [OF inv, of g] by (auto simp: frame_free_def len)
  have cover: "g < n" if "d \<in> set ds" "g < desc_end v d" for d g
    using m(2) that n by fastforce
  from release_conventional_ok [OF inv assms] show ?thesis
    using none cover len(2) unfolding init_with_memory_map_def Let_def m_def [symmetric] n_def [symmetric]
    by metis
qed


section \<open>Properties\<close>

text \<open>
  C12. The allocator built from a valid memory map has exactly the frames of its conventional
  memory free: building it does not panic, whatever capacity the vector gets, and a frame is free
  if and only if a descriptor of conventional memory covers it.
\<close>

theorem memory_map_free_frames:
  assumes "\<forall>d \<in> set ds. is_valid efi_validator d"
  shows "\<exists>b. init_with_memory_map slack efi_validator ds = Some b \<and> ba_inv b \<and>
     (\<forall>g. frame_free b g \<longleftrightarrow>
        (\<exists>d \<in> set ds. efi_type d = EfiConventionalMemory \<and> unat (physical_start d) \<le> g * 4096 \<and>
           g * 4096 < unat (physical_start d) + unat (number_of_pages d) * 4096))"
proof -
  have ok: "\<forall>d \<in> set ds. desc_ok efi_validator d"
    using assms by (simp add: desc_ok_def efi_validator_def)
  have "get_type efi_validator d = 7 \<longleftrightarrow> efi_type d = EfiConventionalMemory" for d
    by (cases "efi_type d") (simp_all add: efi_validator_def)
  moreover have "desc_start efi_validator d \<le> g \<and> g < desc_end efi_validator d \<longleftrightarrow>
      unat (physical_start d) \<le> g * 4096 \<and> g * 4096 < unat (physical_start d) + unat (number_of_pages d) * 4096"
    if "d \<in> set ds" for d g
  proof -
    have "unat (physical_start d) mod 4096 = 0"
      using ok that by (simp add: desc_ok_def efi_validator_def validate_descriptor_iff)
    then obtain k where "unat (physical_start d) = 4096 * k" by (auto simp: mod_eq_0_iff_dvd elim: dvdE)
    then show ?thesis by (auto simp: desc_start_def desc_end_def efi_validator_def)
  qed
  ultimately show ?thesis
    using init_with_memory_map_ok [OF ok, of slack] by (metis (no_types, lifting))
qed

definition example_map :: "EfiMemoryDescriptor list" where
  "example_map =
     [\<lparr>efi_type = EfiConventionalMemory, padding = 0, physical_start = 0x2000, virtual_start = 0,
       number_of_pages = 3, attribute = 0\<rparr>,
      \<lparr>efi_type = EfiBootServicesCode, padding = 0, physical_start = 0x5000, virtual_start = 0,
       number_of_pages = 2, attribute = 0\<rparr>]"

lemma example_map_valid: "\<forall>d \<in> set example_map. is_valid efi_validator d"
  by (simp add: example_map_def efi_validator_def validate_descriptor_iff)

theorem memory_map_free_frames_witness:
  "\<exists>b. init_with_memory_map 5 efi_validator example_map = Some b \<and>
     frame_free b 2 \<and> frame_free b 4 \<and> \<not> frame_free b 1 \<and> \<not> frame_free b 5"
  using memory_map_free_frames [OF example_map_valid, of 5]
  by (auto simp: example_map_def)

text \<open>
  The descriptor check accepts exactly the descriptors of a known type whose start is aligned,
  that have at least one page and that end at or below 512 GiB; no address computation wraps.
\<close>

theorem validate_descriptor_exact:
  "validate_descriptor_common t p n \<longleftrightarrow>
     unat t \<le> 15 \<and> 4096 dvd unat p \<and> 0 < unat n \<and> unat p + unat n * 4096 \<le> 512 * 1024 ^ 3"
  by (auto simp: validate_descriptor_iff word_le_nat_alt mod_eq_0_iff_dvd)

end
