(* ===== verification/Petroleum_Paging.thy ===== *)
theory Petroleum_Paging
  imports Petroleum_Frames
begin

text \<open>
  Page tables: addresses, entries and flags of \<open>src/petroleum/src/page_table/types.rs\<close>, the four-level
  walker of \<open>raw/walker.rs\<close>, the translation of \<open>raw/translate.rs\<close> and the mapping operations of
  \<open>raw/mapper.rs\<close>.

  The code follows an entry by turning the physical address in it into a pointer. Physical memory,
  read as page tables, is a store: a function from the address of a table and an index below 512 to
  an entry. A reference to an entry is the pair of its table and its index, so tables that alias
  are one cell of the store. \<open>None\<close> of the outer option is a failed assertion or another panic.
\<close>

section \<open>Addresses\<close>

datatype CanonicalVirtAddr = CanonicalVirtAddr (as_u64: u64)

definition cva_ZERO :: CanonicalVirtAddr where
  "cva_ZERO = CanonicalVirtAddr 0"

definition cva_new :: "u64 \<Rightarrow> CanonicalVirtAddr option" where
  "cva_new a = (let sgn = signed_drop_bit 47 a
     in if sgn = 0 \<or> sgn = - 1 then Some (CanonicalVirtAddr a) else None)"

definition new_unchecked :: "u64 \<Rightarrow> CanonicalVirtAddr" where
  "new_unchecked a = CanonicalVirtAddr a"

definition align_down :: "u64 \<Rightarrow> u64 \<Rightarrow> u64" where
  "align_down val align = val AND NOT (align - 1)"

definition align_up :: "u64 \<Rightarrow> u64 \<Rightarrow> u64" where
  "align_up val align = (val + align - 1) AND NOT (align - 1)"

definition is_aligned :: "u64 \<Rightarrow> u64 \<Rightarrow> bool" where
  "is_aligned val align \<longleftrightarrow> val AND (align - 1) = 0"

definition cva_align_down :: "CanonicalVirtAddr \<Rightarrow> u64 \<Rightarrow> CanonicalVirtAddr" where
  "cva_align_down v align = CanonicalVirtAddr (as_u64 v AND NOT (align - 1))"

definition cva_align_up :: "CanonicalVirtAddr \<Rightarrow> u64 \<Rightarrow> CanonicalVirtAddr" where
  "cva_align_up v align = CanonicalVirtAddr ((as_u64 v + align - 1) AND NOT (align - 1))"

definition cva_is_aligned :: "CanonicalVirtAddr \<Rightarrow> u64 \<Rightarrow> bool" where
  "cva_is_aligned v align \<longleftrightarrow> as_u64 v AND (align - 1) = 0"

definition try_add :: "CanonicalVirtAddr \<Rightarrow> u64 \<Rightarrow> CanonicalVirtAddr option" where
  "try_add v offset = (case checked_add (as_u64 v) offset of Some a \<Rightarrow> cva_new a | None \<Rightarrow> None)"

definition try_sub :: "CanonicalVirtAddr \<Rightarrow> u64 \<Rightarrow> CanonicalVirtAddr option" where
  "try_sub v offset = (if offset \<le> as_u64 v then cva_new (as_u64 v - offset) else None)"

definition offset_from :: "CanonicalVirtAddr \<Rightarrow> CanonicalVirtAddr \<Rightarrow> int" where
  "offset_from v w = sint (as_u64 v - as_u64 w)"

definition SIZE_2M :: u64 where
  "SIZE_2M = 512 * SIZE_4K"

definition SIZE_1G :: u64 where
  "SIZE_1G = 512 * SIZE_2M"

definition best_page_size :: "u64 \<Rightarrow> u64 \<Rightarrow> u64 \<Rightarrow> u64" where
  "best_page_size virt phys sz =
     (if SIZE_1G \<le> sz \<and> is_aligned virt SIZE_1G \<and> is_aligned phys SIZE_1G then SIZE_1G
      else if SIZE_2M \<le> sz \<and> is_aligned virt SIZE_2M \<and> is_aligned phys SIZE_2M then SIZE_2M
      else SIZE_4K)"

text \<open>The indices; the implementations for the wrapper and for the raw number have one body.\<close>

definition p4_index :: "u64 \<Rightarrow> nat" where
  "p4_index a = unat (drop_bit 39 a AND 0x1FF)"

definition p3_index :: "u64 \<Rightarrow> nat" where
  "p3_index a = unat (drop_bit 30 a AND 0x1FF)"

definition p2_index :: "u64 \<Rightarrow> nat" where
  "p2_index a = unat (drop_bit 21 a AND 0x1FF)"

definition p1_index :: "u64 \<Rightarrow> nat" where
  "p1_index a = unat (drop_bit 12 a AND 0x1FF)"

definition level_index :: "u64 \<Rightarrow> nat \<Rightarrow> nat option" where
  "level_index a level =
     (if 1 \<le> level \<and> level \<le> 4 then Some (unat (drop_bit (12 + (level - 1) * 9) a AND 0x1FF)) else None)"

definition page_offset_4k :: "u64 \<Rightarrow> u16" where
  "page_offset_4k a = ucast (a AND 0xFFF)"

definition page_offset_2m :: "u64 \<Rightarrow> u32" where
  "page_offset_2m a = ucast (a AND 0x1FFFFF)"

definition page_offset_1g :: "u64 \<Rightarrow> u32" where
  "page_offset_1g a = ucast (a AND 0x3FFFFFFF)"

definition from_start_address :: "u64 \<Rightarrow> PhysFrame option" where
  "from_start_address a = (if a mod SIZE_4K = 0 then Some (PhysFrame a) else None)"


section \<open>Entries\<close>

datatype PageTableEntry = PageTableEntry (raw: u64)

definition PRESENT :: u64 where "PRESENT = push_bit 0 1"
definition WRITABLE :: u64 where "WRITABLE = push_bit 1 1"
definition USER_ACCESSIBLE :: u64 where "USER_ACCESSIBLE = push_bit 2 1"
definition WRITE_THROUGH :: u64 where "WRITE_THROUGH = push_bit 3 1"
definition NO_CACHE :: u64 where "NO_CACHE = push_bit 4 1"
definition ACCESSED :: u64 where "ACCESSED = push_bit 5 1"
definition DIRTY :: u64 where "DIRTY = push_bit 6 1"
definition HUGE_PAGE :: u64 where "HUGE_PAGE = push_bit 7 1"
definition GLOBAL :: u64 where "GLOBAL = push_bit 8 1"
definition NO_EXECUTE :: u64 where "NO_EXECUTE = push_bit 63 1"
definition KERNEL_DATA :: u64 where "KERNEL_DATA = PRESENT OR WRITABLE OR NO_EXECUTE"
definition KERNEL_CODE :: u64 where "KERNEL_CODE = PRESENT OR NO_EXECUTE"
definition USER_DATA :: u64 where "USER_DATA = PRESENT OR WRITABLE OR USER_ACCESSIBLE OR NO_EXECUTE"
definition USER_CODE :: u64 where "USER_CODE = PRESENT OR USER_ACCESSIBLE"
definition DEVICE_MMIO :: u64 where
  "DEVICE_MMIO = PRESENT OR WRITABLE OR NO_EXECUTE OR NO_CACHE OR WRITE_THROUGH"

definition new_with_frame :: "PhysFrame \<Rightarrow> u64 \<Rightarrow> PageTableEntry" where
  "new_with_frame frame flags = PageTableEntry (start_address frame OR flags)"

definition is_unused :: "PageTableEntry \<Rightarrow> bool" where
  "is_unused e \<longleftrightarrow> raw e = 0"

definition is_present :: "PageTableEntry \<Rightarrow> bool" where
  "is_present e \<longleftrightarrow> raw e AND PRESENT \<noteq> 0"

definition is_huge :: "PageTableEntry \<Rightarrow> bool" where
  "is_huge e \<longleftrightarrow> raw e AND HUGE_PAGE \<noteq> 0"

definition ADDR_MASK :: u64 where
  "ADDR_MASK = 0x000FFFFFFFFFF000"

definition entry_addr :: "PageTableEntry \<Rightarrow> u64" where
  "entry_addr e = raw e AND ADDR_MASK"

definition entry_flags :: "PageTableEntry \<Rightarrow> u64" where
  "entry_flags e = raw e AND NOT ADDR_MASK"

definition set_flags :: "u64 \<Rightarrow> PageTableEntry \<Rightarrow> PageTableEntry" where
  "set_flags flags e = PageTableEntry ((raw e AND ADDR_MASK) OR flags)"

definition entry_clear :: "PageTableEntry \<Rightarrow> PageTableEntry" where
  "entry_clear e = PageTableEntry 0"


section \<open>Tables and memory\<close>

definition ENTRIES_PER_TABLE :: nat where
  "ENTRIES_PER_TABLE = 512"

type_synonym PageTable = "nat \<Rightarrow> PageTableEntry"
type_synonym ptmem = "u64 \<Rightarrow> PageTable"

definition pt_new :: PageTable where
  "pt_new = (\<lambda>_. PageTableEntry 0)"

definition pt_entries :: "PageTable \<Rightarrow> PageTableEntry list" where
  "pt_entries t = map t [0..<ENTRIES_PER_TABLE]"

definition pt_zero :: "PageTable \<Rightarrow> PageTable" where
  "pt_zero t = (\<lambda>i. entry_clear (t i))"

definition used_count :: "PageTable \<Rightarrow> nat" where
  "used_count t = length (filter (\<lambda>e. \<not> is_unused e) (pt_entries t))"

definition pt_is_empty :: "PageTable \<Rightarrow> bool" where
  "pt_is_empty t \<longleftrightarrow> list_all is_unused (pt_entries t)"

definition write_entry :: "u64 \<Rightarrow> nat \<Rightarrow> PageTableEntry \<Rightarrow> ptmem \<Rightarrow> ptmem" where
  "write_entry t i e m = m(t := (m t)(i := e))"


section \<open>The walker\<close>

datatype WalkError = HugePageConflict nat | WalkOutOfMemory | InvalidEntry nat

text \<open>The levels \<open>(target_level + 1..=4).rev()\<close>.\<close>

definition walk_levels :: "nat \<Rightarrow> nat list" where
  "walk_levels target = rev [target + 1..<5]"

fun walk_loop :: "ptmem \<Rightarrow> u64 \<Rightarrow> nat list \<Rightarrow> u64 \<Rightarrow> (WalkError + u64) option" where
  "walk_loop m v [] t = Some (Inr t)"
| "walk_loop m v (level # ls) t = do {
     idx \<leftarrow> level_index v level;
     let entry = m t idx in
       if is_unused entry then Some (Inl WalkOutOfMemory)
       else if is_huge entry then Some (Inl (HugePageConflict level))
       else walk_loop m v ls (entry_addr entry) }"

definition walk_to_table :: "ptmem \<Rightarrow> u64 \<Rightarrow> u64 \<Rightarrow> nat \<Rightarrow> (WalkError + u64) option" where
  "walk_to_table m root v target =
     (if 1 \<le> target \<and> target \<le> 3 then walk_loop m v (walk_levels target) root else None)"

definition walk :: "ptmem \<Rightarrow> u64 \<Rightarrow> u64 \<Rightarrow> nat \<Rightarrow> (WalkError + (u64 \<times> nat)) option" where
  "walk m root v target =
     (if 1 \<le> target \<and> target \<le> 3 then do {
        r \<leftarrow> walk_loop m v (walk_levels target) root;
        (case r of
           Inl e \<Rightarrow> Some (Inl e)
         | Inr t \<Rightarrow> do { idx \<leftarrow> level_index v target; Some (Inr (t, idx)) }) }
      else None)"

definition walk_read :: "ptmem \<Rightarrow> u64 \<Rightarrow> u64 \<Rightarrow> nat \<Rightarrow> (WalkError + PageTableEntry) option" where
  "walk_read m root v target =
     (if 1 \<le> target \<and> target \<le> 3 then do {
        r \<leftarrow> walk_loop m v (walk_levels target) root;
        (case r of
           Inl e \<Rightarrow> Some (Inl e)
         | Inr t \<Rightarrow> do { idx \<leftarrow> level_index v target; Some (Inr (m t idx)) }) }
      else None)"

text \<open>
  \<open>walk_or_create\<close> is generic in an allocator with one method, \<open>alloc_zeroed\<close>. Every caller passes
  the adapter that forwards to \<open>allocate\<close> of a \<open>FrameAllocator\<close>, which writes no memory.
\<close>

definition alloc_zeroed ::
    "('s \<Rightarrow> ((AllocError + PhysFrame) \<times> 's) option) \<Rightarrow> 's \<Rightarrow> (u64 option \<times> 's) option" where
  "alloc_zeroed al s = do {
     r \<leftarrow> al s;
     (case r of
        (Inl e, s') \<Rightarrow> Some (None, s')
      | (Inr f, s') \<Rightarrow> Some (Some (start_address f), s')) }"

fun walk_create_loop ::
    "('s \<Rightarrow> ((AllocError + PhysFrame) \<times> 's) option) \<Rightarrow> u64 \<Rightarrow> nat list \<Rightarrow> u64 \<Rightarrow> ptmem \<Rightarrow> 's
     \<Rightarrow> ((WalkError + u64) \<times> ptmem \<times> 's) option" where
  "walk_create_loop al v [] t m s = Some (Inr t, m, s)"
| "walk_create_loop al v (level # ls) t m s = do {
     idx \<leftarrow> level_index v level;
     let entry = m t idx in
       if is_unused entry then do {
         r \<leftarrow> alloc_zeroed al s;
         (case r of
            (None, s') \<Rightarrow> Some (Inl WalkOutOfMemory, m, s')
          | (Some frame_addr, s') \<Rightarrow>
              let entry' = new_with_frame (PhysFrame frame_addr) (PRESENT OR WRITABLE OR USER_ACCESSIBLE)
              in walk_create_loop al v ls (entry_addr entry') (write_entry t idx entry' m) s') }
       else if is_huge entry then Some (Inl (HugePageConflict level), m, s)
       else walk_create_loop al v ls (entry_addr entry) m s }"

definition walk_or_create ::
    "('s \<Rightarrow> ((AllocError + PhysFrame) \<times> 's) option) \<Rightarrow> u64 \<Rightarrow> u64 \<Rightarrow> nat \<Rightarrow> ptmem \<Rightarrow> 's
     \<Rightarrow> ((WalkError + (u64 \<times> nat)) \<times> ptmem \<times> 's) option" where
  "walk_or_create al root v target m s =
     (if 1 \<le> target \<and> target \<le> 3 then do {
        r \<leftarrow> walk_create_loop al v (walk_levels target) root m s;
        (case r of
           (Inl e, m', s') \<Rightarrow> Some (Inl e, m', s')
         | (Inr t, m', s') \<Rightarrow> do { idx \<leftarrow> level_index v target; Some (Inr (t, idx), m', s') }) }
      else None)"


section \<open>Translation and mapping\<close>

definition translate :: "ptmem \<Rightarrow> u64 \<Rightarrow> u64 \<Rightarrow> (WalkError + u64) option" where
  "translate m root v = do {
     r \<leftarrow> walk_read m root v 1;
     (case r of
        Inl e \<Rightarrow> Some (Inl e)
      | Inr entry \<Rightarrow>
          if \<not> is_present entry then Some (Inl WalkOutOfMemory)
          else Some (Inr (entry_addr entry + ucast (page_offset_4k v)))) }"

definition translate_frame :: "ptmem \<Rightarrow> u64 \<Rightarrow> u64 \<Rightarrow> (WalkError + (PhysFrame \<times> u16)) option" where
  "translate_frame m root v = do {
     r \<leftarrow> walk_read m root v 1;
     (case r of
        Inl e \<Rightarrow> Some (Inl e)
      | Inr entry \<Rightarrow>
          if \<not> is_present entry then Some (Inl WalkOutOfMemory)
          else do {
            frame \<leftarrow> from_start_address (entry_addr entry);
            Some (Inr (frame, page_offset_4k v)) }) }"

fun translate_pages :: "ptmem \<Rightarrow> u64 \<Rightarrow> nat \<Rightarrow> u64 \<Rightarrow> (WalkError + u64 list) option" where
  "translate_pages m root 0 a = Some (Inr [])"
| "translate_pages m root (Suc n) a = do {
     r \<leftarrow> translate m root a;
     (case r of
        Inl e \<Rightarrow> Some (Inl e)
      | Inr phys \<Rightarrow> do {
          rs \<leftarrow> translate_pages m root n (a + SIZE_4K);
          (case rs of Inl e \<Rightarrow> Some (Inl e) | Inr ps \<Rightarrow> Some (Inr (phys # ps))) }) }"

definition translate_range :: "ptmem \<Rightarrow> u64 \<Rightarrow> u64 \<Rightarrow> u64 \<Rightarrow> (WalkError + u64 list) option" where
  "translate_range m root v sz = translate_pages m root (unat (min (sz div SIZE_4K) 64)) v"

definition map_entry ::
    "('s \<Rightarrow> ((AllocError + PhysFrame) \<times> 's) option) \<Rightarrow> u64 \<Rightarrow> u64 \<Rightarrow> nat \<Rightarrow> PageTableEntry \<Rightarrow> ptmem \<Rightarrow> 's
     \<Rightarrow> ((WalkError + unit) \<times> ptmem \<times> 's) option" where
  "map_entry al root v level e m s = do {
     r \<leftarrow> walk_or_create al root v level m s;
     (case r of
        (Inl err, m', s') \<Rightarrow> Some (Inl err, m', s')
      | (Inr (t, idx), m', s') \<Rightarrow> Some (Inr (), write_entry t idx e m', s')) }"

definition map_page ::
    "('s \<Rightarrow> ((AllocError + PhysFrame) \<times> 's) option) \<Rightarrow> u64 \<Rightarrow> u64 \<Rightarrow> PhysFrame \<Rightarrow> u64 \<Rightarrow> ptmem \<Rightarrow> 's
     \<Rightarrow> ((WalkError + unit) \<times> ptmem \<times> 's) option" where
  "map_page al root v frame flags m s = map_entry al root v 1 (new_with_frame frame flags) m s"

definition map_huge_2m ::
    "('s \<Rightarrow> ((AllocError + PhysFrame) \<times> 's) option) \<Rightarrow> u64 \<Rightarrow> u64 \<Rightarrow> u64 \<Rightarrow> u64 \<Rightarrow> ptmem \<Rightarrow> 's
     \<Rightarrow> ((WalkError + unit) \<times> ptmem \<times> 's) option" where
  "map_huge_2m al root v phys flags m s =
     map_entry al root v 2 (PageTableEntry (phys OR flags OR HUGE_PAGE)) m s"

definition map_huge_1g ::
    "('s \<Rightarrow> ((AllocError + PhysFrame) \<times> 's) option) \<Rightarrow> u64 \<Rightarrow> u64 \<Rightarrow> u64 \<Rightarrow> u64 \<Rightarrow> ptmem \<Rightarrow> 's
     \<Rightarrow> ((WalkError + unit) \<times> ptmem \<times> 's) option" where
  "map_huge_1g al root v phys flags m s =
     map_entry al root v 3 (PageTableEntry (phys OR flags OR HUGE_PAGE)) m s"

definition unmap_page ::
    "(PhysFrame \<Rightarrow> 's \<Rightarrow> 's option) \<Rightarrow> u64 \<Rightarrow> u64 \<Rightarrow> ptmem \<Rightarrow> 's
     \<Rightarrow> ((WalkError + PhysFrame option) \<times> ptmem \<times> 's) option" where
  "unmap_page de root v m s = do {
     r \<leftarrow> walk m root v 1;
     (case r of
        Inl e \<Rightarrow> Some (Inl e, m, s)
      | Inr (t, idx) \<Rightarrow>
          let entry = m t idx in
          if \<not> is_present entry then Some (Inr None, m, s)
          else do {
            frame \<leftarrow> from_start_address (entry_addr entry);
            s' \<leftarrow> de frame s;
            Some (Inr (Some frame), write_entry t idx (entry_clear entry) m, s') }) }"

fun unmap_pages ::
    "(PhysFrame \<Rightarrow> 's \<Rightarrow> 's option) \<Rightarrow> u64 \<Rightarrow> nat \<Rightarrow> u64 \<Rightarrow> u64 \<Rightarrow> ptmem \<Rightarrow> 's
     \<Rightarrow> ((WalkError + u64) \<times> ptmem \<times> 's) option" where
  "unmap_pages de root 0 a unmapped m s = Some (Inr unmapped, m, s)"
| "unmap_pages de root (Suc n) a unmapped m s = do {
     r \<leftarrow> unmap_page de root a m s;
     (case r of
        (Inl e, m', s') \<Rightarrow> Some (Inl e, m', s')
      | (Inr fr, m', s') \<Rightarrow>
          unmap_pages de root n (a + SIZE_4K) (if fr = None then unmapped else unmapped + 1) m' s') }"

definition unmap_range ::
    "(PhysFrame \<Rightarrow> 's \<Rightarrow> 's option) \<Rightarrow> u64 \<Rightarrow> u64 \<Rightarrow> u64 \<Rightarrow> ptmem \<Rightarrow> 's
     \<Rightarrow> ((WalkError + u64) \<times> ptmem \<times> 's) option" where
  "unmap_range de root v sz m s = unmap_pages de root (unat (sz div SIZE_4K)) v 0 m s"



section \<open>Paths through the tables\<close>

definition vidx :: "u64 \<Rightarrow> nat \<Rightarrow> nat" where
  "vidx v l = unat (drop_bit (12 + (l - 1) * 9) v AND 0x1FF)"

lemma level_index_vidx: "1 \<le> l \<Longrightarrow> l \<le> 4 \<Longrightarrow> level_index v l = Some (vidx v l)"
  by (simp add: level_index_def vidx_def)

lemma vidx_bound: "vidx v l < 512"
proof -
  have "(drop_bit (12 + (l - 1) * 9) v AND 0x1FF :: u64) \<le> 0x1FF" by (rule word_and_le1)
  then show ?thesis by (simp add: vidx_def word_le_nat_alt)
qed

lemma walk_levels_1: "walk_levels 1 = [4, 3, 2]"
  by (simp add: walk_levels_def upt_rec)

text \<open>The table reached from a table along a list of indices.\<close>

fun tbl :: "ptmem \<Rightarrow> u64 \<Rightarrow> nat list \<Rightarrow> u64 option" where
  "tbl m t [] = Some t"
| "tbl m t (i # is) =
     (if is_unused (m t i) \<or> is_huge (m t i) then None else tbl m (entry_addr (m t i)) is)"

lemma tbl_append: "tbl m t (p @ q) = Option.bind (tbl m t p) (\<lambda>a. tbl m a q)"
  by (induction p arbitrary: t) auto

text \<open>The walk as a function of levels and indices, and the leaf entry it ends in.\<close>

fun lookup_entry :: "ptmem \<Rightarrow> nat list \<Rightarrow> nat list \<Rightarrow> nat \<Rightarrow> u64 \<Rightarrow> WalkError + PageTableEntry" where
  "lookup_entry m (l # ls) (j # js) i t =
     (if is_unused (m t j) then Inl WalkOutOfMemory
      else if is_huge (m t j) then Inl (HugePageConflict l)
      else lookup_entry m ls js i (entry_addr (m t j)))"
| "lookup_entry m _ _ i t = (if is_present (m t i) then Inr (m t i) else Inl WalkOutOfMemory)"

definition vpath :: "u64 \<Rightarrow> nat list" where
  "vpath v = [vidx v 4, vidx v 3, vidx v 2]"

definition leaf :: "ptmem \<Rightarrow> u64 \<Rightarrow> u64 \<Rightarrow> WalkError + PageTableEntry" where
  "leaf m root v = lookup_entry m [4, 3, 2] (vpath v) (vidx v 1) root"

lemma translate_leaf:
  "translate m root v =
   Some (map_sum id (\<lambda>e. entry_addr e + ucast (page_offset_4k v)) (leaf m root v))"
  by (simp add: translate_def walk_read_def walk_levels_1 [simplified] level_index_vidx leaf_def vpath_def Let_def)

lemma lookup_entry_append:
  "length ls = length p \<Longrightarrow> tbl m t p = Some a \<Longrightarrow>
   lookup_entry m (ls @ ks) (p @ q) i t = lookup_entry m ks q i a"
  by (induction ls p arbitrary: t rule: list_induct2) (auto split: if_splits)

lemma lookup_entry_same:
  assumes "\<And>k a. k \<le> length js \<Longrightarrow> tbl m t (take k js) = Some a \<Longrightarrow>
      m' a ((js @ [i]) ! k) = m a ((js @ [i]) ! k)"
    and "length ls = length js"
  shows "lookup_entry m' ls js i t = lookup_entry m ls js i t"
  using assms
proof (induction js arbitrary: t ls)
  case Nil
  then show ?case by force
next
  case (Cons j js)
  then obtain l ls' where ls: "ls = l # ls'" "length ls' = length js" by (cases ls) auto
  have head: "m' t j = m t j" using Cons.prems(1) [of 0 t] by simp
  show ?case
  proof (cases "is_unused (m t j) \<or> is_huge (m t j)")
    case True
    then show ?thesis by (auto simp: ls head)
  next
    case False
    have "lookup_entry m' ls' js i (entry_addr (m t j)) = lookup_entry m ls' js i (entry_addr (m t j))"
      using Cons.prems(1) [of "Suc _"] False ls(2) by (intro Cons.IH) auto
    with False show ?thesis by (simp add: ls head)
  qed
qed

lemma tbl_same:
  assumes "\<And>k a. k < length js \<Longrightarrow> tbl m t (take k js) = Some a \<Longrightarrow> m' a (js ! k) = m a (js ! k)"
  shows "tbl m' t js = tbl m t js"
  using assms
proof (induction js arbitrary: t)
  case (Cons j js)
  have head: "m' t j = m t j" using Cons.prems [of 0 t] by simp
  show ?case
  proof (cases "is_unused (m t j) \<or> is_huge (m t j)")
    case False
    have "tbl m' (entry_addr (m t j)) js = tbl m (entry_addr (m t j)) js"
      using Cons.prems [of "Suc _"] False by (intro Cons.IH) auto
    with False show ?thesis by (simp add: head)
  qed (auto simp: head)
qed simp


section \<open>Tree-shaped tables\<close>

definition ipath :: "nat list \<Rightarrow> bool" where
  "ipath p \<longleftrightarrow> length p \<le> 3 \<and> (\<forall>j \<in> set p. j < 512)"

text \<open>No table is reached along two different paths; in particular no table contains itself.\<close>

definition pt_tree :: "ptmem \<Rightarrow> u64 \<Rightarrow> bool" where
  "pt_tree m root \<longleftrightarrow> (\<forall>p q a. ipath p \<longrightarrow> ipath q \<longrightarrow> tbl m root p = Some a \<longrightarrow> tbl m root q = Some a \<longrightarrow> p = q)"

lemma pt_treeD: "pt_tree m root \<Longrightarrow> ipath p \<Longrightarrow> ipath q \<Longrightarrow> tbl m root p = Some a \<Longrightarrow> tbl m root q = Some a \<Longrightarrow> p = q"
  unfolding pt_tree_def by blast

lemma ipath_take: "ipath p \<Longrightarrow> ipath (take k p)"
  by (auto simp: ipath_def dest: in_set_takeD)

lemma ipath_vpath: "ipath (vpath v)"
  by (simp add: ipath_def vpath_def vidx_bound)

lemma length_vpath [simp]: "length (vpath v) = 3"
  by (simp add: vpath_def)

lemma write_entry_simps [simp]:
  "write_entry t i e m a j = (if a = t \<and> j = i then e else m a j)"
  by (simp add: write_entry_def)

text \<open>Writing a leaf entry changes the translation of one page and no path.\<close>

lemma tbl_write_leaf:
  assumes "pt_tree m root" "ipath p" "length p = 3" "tbl m root p = Some t" "ipath q"
  shows "tbl (write_entry t i e m) root q = tbl m root q"
proof (rule tbl_same)
  fix k a
  assume k: "k < length q" "tbl m root (take k q) = Some a"
  have "a \<noteq> t"
  proof
    assume "a = t"
    with k assms have "take k q = p" by (blast intro: pt_treeD ipath_take)
    then have "length p \<le> k" by auto
    with k assms(3,5) show False by (simp add: ipath_def)
  qed
  then show "write_entry t i e m a (q ! k) = m a (q ! k)" by simp
qed

lemma leaf_write:
  assumes "pt_tree m root" "ipath p" "length p = 3" "tbl m root p = Some t"
  shows "leaf (write_entry t i e m) root v =
    (if vpath v = p \<and> vidx v 1 = i then (if is_present e then Inr e else Inl WalkOutOfMemory)
     else leaf m root v)"
proof (cases "vpath v = p \<and> vidx v 1 = i")
  case True
  have "tbl (write_entry t i e m) root p = Some t"
    using tbl_write_leaf [OF assms assms(2)] assms(4) by simp
  with True lookup_entry_append [of "[4, 3, 2]" p "write_entry t i e m" root t "[]" "[]" i] assms(3)
  show ?thesis by (simp add: leaf_def)
next
  case False
  have "leaf (write_entry t i e m) root v = leaf m root v"
    unfolding leaf_def
  proof (rule lookup_entry_same)
    fix k a
    assume k: "k \<le> length (vpath v)" "tbl m root (take k (vpath v)) = Some a"
    show "write_entry t i e m a ((vpath v @ [vidx v 1]) ! k) = m a ((vpath v @ [vidx v 1]) ! k)"
    proof (cases "a = t")
      case True
      with k assms have "take k (vpath v) = p" by (blast intro: pt_treeD ipath_take ipath_vpath)
      with assms(3) k(1) have "k = 3" "vpath v = p" by auto
      with False show ?thesis by (auto simp: nth_append)
    qed simp
  qed simp
  with False show ?thesis by auto
qed

text \<open>Hanging a fresh zeroed table into an unused slot changes no translation.\<close>

definition strictly_below :: "nat list \<Rightarrow> nat list \<Rightarrow> bool" where
  "strictly_below p q \<longleftrightarrow> length p < length q \<and> take (length p) q = p"

lemma tbl_write_create:
  assumes tree: "pt_tree m root" and p: "ipath p" "length p < 3" "tbl m root p = Some t"
    and i: "is_unused (m t i)" "i < 512"
    and f: "\<forall>q. ipath q \<longrightarrow> tbl m root q \<noteq> Some f" "\<forall>j < 512. is_unused (m f j)"
    and e: "entry_addr e = f" "\<not> is_unused e" "\<not> is_huge e"
    and q: "ipath q"
  shows "tbl (write_entry t i e m) root q =
    (if q = p @ [i] then Some f else if strictly_below (p @ [i]) q then None else tbl m root q)"
proof -
  let ?m = "write_entry t i e m"
  have away: "tbl ?m root r = tbl m root r" if r: "ipath r" "take (Suc (length p)) r \<noteq> p @ [i]" for r
  proof (rule tbl_same)
    fix k a
    assume k: "k < length r" "tbl m root (take k r) = Some a"
    have "\<not> (a = t \<and> r ! k = i)"
    proof
      assume a: "a = t \<and> r ! k = i"
      with k p tree r(1) have "take k r = p" by (blast intro: pt_treeD ipath_take)
      with k a have "take (Suc (length p)) r = p @ [i]" by (auto simp: take_Suc_conv_app_nth)
      with r(2) show False by simp
    qed
    then show "?m a (r ! k) = m a (r ! k)" by auto
  qed
  have "take (Suc (length p)) p \<noteq> p @ [i]" by simp
  with away p have root: "tbl ?m root (p @ [i]) = Some f" by (simp add: tbl_append e)
  have ft: "f \<noteq> t" using f(1) p by blast
  consider (same) "q = p @ [i]" | (below) "strictly_below (p @ [i]) q"
    | (other) "take (Suc (length p)) q \<noteq> p @ [i]"
    unfolding strictly_below_def
    by (metis length_append_singleton linorder_neqE_nat nat_less_le take_all_iff not_less)
  then show ?thesis
  proof cases
    case below
    then obtain j r where q': "q = (p @ [i]) @ j # r"
      unfolding strictly_below_def
      by (metis append_take_drop_id drop_eq_Nil list.exhaust not_less)
    with q have "j < 512" by (simp add: ipath_def)
    with f(2) ft have "tbl ?m f (j # r) = None" by simp
    with root below show ?thesis
      unfolding q' by (simp only: tbl_append [of _ _ "p @ [i]"]) (auto simp: strictly_below_def)
  next
    case other
    then have "q \<noteq> p @ [i]" "\<not> strictly_below (p @ [i]) q"
      by (auto simp: strictly_below_def)
    with other away q show ?thesis by simp
  qed (use root in simp)
qed

lemma leaf_split:
  assumes "vpath v = p @ q" and "tbl m root p = Some a"
  shows "leaf m root v = lookup_entry m (drop (length p) [4, 3, 2]) q (vidx v 1) a"
proof -
  have "length p \<le> 3" using arg_cong [OF assms(1), of length] by simp
  then have "length (take (length p) [4, 3, 2 :: nat]) = length p" by simp
  from lookup_entry_append [OF this assms(2), of "drop (length p) [4, 3, 2]" q "vidx v 1"]
  show ?thesis by (simp only: leaf_def assms(1) append_take_drop_id)
qed

lemma lookup_entry_unused_table:
  assumes "\<forall>j < 512. is_unused (m f j)" and "\<forall>j \<in> set q. j < 512" and "i < 512"
  shows "lookup_entry m ls q i f = Inl WalkOutOfMemory"
proof (cases "ls = [] \<or> q = []")
  case True
  with assms show ?thesis by (cases ls; cases q) (auto simp: is_unused_def is_present_def)
next
  case False
  with assms show ?thesis by (cases ls; cases q) auto
qed

lemma leaf_write_create:
  assumes tree: "pt_tree m root" and p: "ipath p" "length p < 3" "tbl m root p = Some t"
    and i: "is_unused (m t i)" "i < 512"
    and f: "\<forall>q. ipath q \<longrightarrow> tbl m root q \<noteq> Some f" "\<forall>j < 512. is_unused (m f j)"
    and e: "entry_addr e = f" "\<not> is_unused e" "\<not> is_huge e"
  shows "leaf (write_entry t i e m) root v = leaf m root v"
proof (cases "take (Suc (length p)) (vpath v) = p @ [i]")
  case True
  define r where "r = drop (Suc (length p)) (vpath v)"
  have v: "vpath v = (p @ [i]) @ r" using True by (metis append_take_drop_id r_def)
  have ip: "ipath (p @ [i])" using p i(2) by (simp add: ipath_def)
  have "tbl (write_entry t i e m) root (p @ [i]) = Some f"
    using tbl_write_create [OF tree p i f e ip] by simp
  from leaf_split [OF v this]
  have "leaf (write_entry t i e m) root v =
      lookup_entry (write_entry t i e m) (drop (length (p @ [i])) [4, 3, 2]) r (vidx v 1) f" .
  also have "\<dots> = Inl WalkOutOfMemory"
  proof (rule lookup_entry_unused_table)
    have "f \<noteq> t" using f(1) p by blast
    with f(2) show "\<forall>j < 512. is_unused (write_entry t i e m f j)" by simp
    show "\<forall>j \<in> set r. j < 512" using ipath_vpath [of v] v by (simp add: ipath_def)
  qed (rule vidx_bound)
  also have "\<dots> = leaf m root v"
  proof -
    have "leaf m root v = lookup_entry m (drop (length p) [4, 3, 2]) (i # r) (vidx v 1) t"
      using v p(3) by (intro leaf_split) simp_all
    moreover obtain l ls where "drop (length p) [4, 3, 2 :: nat] = l # ls"
      using p(2) by (cases "drop (length p) [4, 3, 2 :: nat]") auto
    ultimately show ?thesis using i(1) by simp
  qed
  finally show ?thesis .
next
  case False
  show ?thesis
    unfolding leaf_def
  proof (rule lookup_entry_same)
    fix k a
    assume k: "k \<le> length (vpath v)" "tbl m root (take k (vpath v)) = Some a"
    have "\<not> (a = t \<and> (vpath v @ [vidx v 1]) ! k = i)"
    proof
      assume a: "a = t \<and> (vpath v @ [vidx v 1]) ! k = i"
      with k p tree have "take k (vpath v) = p" by (blast intro: pt_treeD ipath_take ipath_vpath)
      with k p(2) a have "k = length p" "vpath v ! k = i" by (auto simp: nth_append)
      with \<open>take k (vpath v) = p\<close> p(2) have "take (Suc (length p)) (vpath v) = p @ [i]"
        by (simp add: take_Suc_conv_app_nth)
      with False show False by simp
    qed
    then show "write_entry t i e m a ((vpath v @ [vidx v 1]) ! k) = m a ((vpath v @ [vidx v 1]) ! k)"
      by auto
  qed simp
qed

lemma pt_tree_create:
  assumes tree: "pt_tree m root" and p: "ipath p" "length p < 3" "tbl m root p = Some t"
    and i: "is_unused (m t i)" "i < 512"
    and f: "\<forall>q. ipath q \<longrightarrow> tbl m root q \<noteq> Some f" "\<forall>j < 512. is_unused (m f j)"
    and e: "entry_addr e = f" "\<not> is_unused e" "\<not> is_huge e"
  shows "pt_tree (write_entry t i e m) root"
proof -
  note w = tbl_write_create [OF tree p i f e]
  show ?thesis
    unfolding pt_tree_def using f(1) tree
    by (auto simp: w split: if_splits dest: pt_treeD)
qed


section \<open>Entries that point to tables\<close>

lemma table_entry:
  assumes "a AND ADDR_MASK = a"
  shows "entry_addr (new_with_frame (PhysFrame a) (PRESENT OR WRITABLE OR USER_ACCESSIBLE)) = a"
    and "\<not> is_unused (new_with_frame (PhysFrame a) (PRESENT OR WRITABLE OR USER_ACCESSIBLE))"
    and "\<not> is_huge (new_with_frame (PhysFrame a) (PRESENT OR WRITABLE OR USER_ACCESSIBLE))"
proof -
  have flags: "(PRESENT OR WRITABLE OR USER_ACCESSIBLE :: u64) = 7"
    by (simp add: PRESENT_def WRITABLE_def USER_ACCESSIBLE_def)
  have "(7 :: u64) AND ADDR_MASK = 0" by (simp add: ADDR_MASK_def)
  then show "entry_addr (new_with_frame (PhysFrame a) (PRESENT OR WRITABLE OR USER_ACCESSIBLE)) = a"
    using assms by (simp add: entry_addr_def new_with_frame_def flags bit.conj_disj_distrib2)
  have "bit (a OR 7 :: u64) 0" by (simp add: bit_or_iff)
  then have "a OR 7 \<noteq> (0 :: u64)" by auto
  then show "\<not> is_unused (new_with_frame (PhysFrame a) (PRESENT OR WRITABLE OR USER_ACCESSIBLE))"
    by (simp add: is_unused_def new_with_frame_def flags)
  have "a AND HUGE_PAGE = (a AND ADDR_MASK) AND HUGE_PAGE" by (simp only: assms)
  also have "\<dots> = 0" by (simp add: ADDR_MASK_def HUGE_PAGE_def and.assoc)
  finally show "\<not> is_huge (new_with_frame (PhysFrame a) (PRESENT OR WRITABLE OR USER_ACCESSIBLE))"
    by (simp add: is_huge_def new_with_frame_def flags bit.conj_disj_distrib2 HUGE_PAGE_def)
qed



section \<open>Walking with a pool of frames\<close>

text \<open>
  A frame that becomes a table must fit the address field of an entry. This contract extends the
  one of a frame pool.
\<close>

locale table_frames = frame_pool +
  assumes frame_fits: "pool_inv s \<Longrightarrow> a \<in> free s \<Longrightarrow> a AND ADDR_MASK = a"
begin

text \<open>
  The state in which the walker works: the tables form a tree, no table of the tree lies in a free
  frame, and free frames are zeroed, which the walker relies on and the allocator does not ensure.
\<close>

definition walk_inv :: "u64 \<Rightarrow> ptmem \<Rightarrow> 'a \<Rightarrow> bool" where
  "walk_inv root m s \<longleftrightarrow> pool_inv s \<and> pt_tree m root \<and>
     (\<forall>q a. ipath q \<longrightarrow> tbl m root q = Some a \<longrightarrow> a \<notin> free s) \<and>
     (\<forall>a \<in> free s. \<forall>j < 512. is_unused (m a j))"

lemma walk_inv_create:
  assumes inv: "walk_inv root m s" and al: "alloc s = Some (Inr f, s')"
    and p: "ipath p" "length p < 3" "tbl m root p = Some t"
    and i: "is_unused (m t i)" "i < 512"
  defines "e \<equiv> new_with_frame f (PRESENT OR WRITABLE OR USER_ACCESSIBLE)"
  shows "walk_inv root (write_entry t i e m) s'"
    and "leaf (write_entry t i e m) root v = leaf m root v"
    and "tbl (write_entry t i e m) root (p @ [i]) = Some (entry_addr e)"
proof -
  let ?f = "start_address f"
  have s: "pool_inv s" "pt_tree m root" using inv by (auto simp: walk_inv_def)
  note took = alloc_took [OF s(1) al]
  have f1: "\<forall>q. ipath q \<longrightarrow> tbl m root q \<noteq> Some ?f" and f2: "\<forall>j < 512. is_unused (m ?f j)"
    using inv took by (auto simp: walk_inv_def)
  have "?f AND ADDR_MASK = ?f" using frame_fits [OF s(1)] took by blast
  from table_entry [OF this] have e: "entry_addr e = ?f" "\<not> is_unused e" "\<not> is_huge e"
    by (auto simp: e_def)
  have ip: "ipath (p @ [i])" using p i(2) by (simp add: ipath_def)
  note w = tbl_write_create [OF s(2) p i f1 f2 e]
  show "tbl (write_entry t i e m) root (p @ [i]) = Some (entry_addr e)"
    using w [OF ip] e(1) by simp
  show "leaf (write_entry t i e m) root v = leaf m root v"
    by (rule leaf_write_create [OF s(2) p i f1 f2 e])
  have "t \<notin> free s" using inv p by (auto simp: walk_inv_def)
  with took inv show "walk_inv root (write_entry t i e m) s'"
    unfolding walk_inv_def
    using pt_tree_create [OF s(2) p i f1 f2 e] alloc_inv [OF s(1) al]
    by (auto simp: w split: if_splits)
qed

lemma walk_create_loop_ok:
  assumes "walk_inv root m s" and "ipath p" "length p + length ls \<le> 3" "tbl m root p = Some t"
    and "set ls \<subseteq> {1..4}"
  shows "\<exists>r m' s'. walk_create_loop alloc v ls t m s = Some (r, m', s') \<and> walk_inv root m' s' \<and>
     (\<forall>v'. leaf m' root v' = leaf m root v') \<and>
     (\<forall>t'. r = Inr t' \<longrightarrow> tbl m' root (p @ map (vidx v) ls) = Some t')"
  using assms
proof (induction ls arbitrary: p t m s)
  case Nil
  then show ?case by simp
next
  case (Cons l ls)
  let ?i = "vidx v l"
  have l: "level_index v l = Some ?i" using Cons.prems(5) by (simp add: level_index_vidx)
  have ip: "ipath (p @ [?i])" using Cons.prems(2,3) by (simp add: ipath_def vidx_bound)
  have ls: "length (p @ [?i]) + length ls \<le> 3" "set ls \<subseteq> {1..4}" using Cons.prems(3,5) by auto
  consider (unused) "is_unused (m t ?i)" | (huge) "\<not> is_unused (m t ?i)" "is_huge (m t ?i)"
    | (table) "\<not> is_unused (m t ?i)" "\<not> is_huge (m t ?i)" by blast
  then show ?case
  proof cases
    case unused
    have pinv: "pool_inv s" using Cons.prems(1) by (simp add: walk_inv_def)
    from alloc_returns [OF this] obtain r s1 where a: "alloc s = Some (r, s1)" by blast
    show ?thesis
    proof (cases r)
      case (Inl err)
      with alloc_failed [OF pinv] a have "s1 = s" by blast
      with Inl a unused Cons.prems(1) show ?thesis by (simp add: l Let_def alloc_zeroed_def)
    next
      case (Inr f)
      let ?e = "new_with_frame f (PRESENT OR WRITABLE OR USER_ACCESSIBLE)"
      let ?m = "write_entry t ?i ?e m"
      have "length p < 3" using Cons.prems(3) by simp
      note c = walk_inv_create [OF Cons.prems(1) a [unfolded Inr] Cons.prems(2) this Cons.prems(4) unused vidx_bound]
      have step: "walk_create_loop alloc v (l # ls) t m s = walk_create_loop alloc v ls (entry_addr ?e) ?m s1"
        using unused a Inr by (simp add: l Let_def alloc_zeroed_def)
      from Cons.IH [OF c(1) ip ls(1) c(3) ls(2)] show ?thesis
        unfolding step by (simp only: c(2) list.map append.simps append_assoc)
    qed
  next
    case huge
    with Cons.prems(1) show ?thesis by (simp add: l Let_def)
  next
    case table
    then have "tbl m root (p @ [?i]) = Some (entry_addr (m t ?i))"
      using Cons.prems(4) by (simp add: tbl_append)
    from Cons.IH [OF Cons.prems(1) ip ls(1) this ls(2)] table show ?thesis by (simp add: l Let_def)
  qed
qed

text \<open>Mapping a page, with every outcome; a failed mapping leaves all translations as they were.\<close>

lemma map_page_ok:
  assumes "walk_inv root m s"
  shows "\<exists>r m' s'. map_page alloc root v frame flags m s = Some (r, m', s') \<and> walk_inv root m' s' \<and>
     (case r of
        Inl err \<Rightarrow> (\<forall>v'. leaf m' root v' = leaf m root v')
      | Inr _ \<Rightarrow> (\<forall>v'. leaf m' root v' =
          (if vpath v' = vpath v \<and> vidx v' 1 = vidx v 1
           then (if is_present (new_with_frame frame flags) then Inr (new_with_frame frame flags)
                 else Inl WalkOutOfMemory)
           else leaf m root v')))"
proof -
  have "ipath []" "length [] + length [4, 3, 2 :: nat] \<le> 3" "set [4, 3, 2 :: nat] \<subseteq> {1..4}"
    by (simp_all add: ipath_def)
  note loop = walk_create_loop_ok [OF assms this(1,2) tbl.simps(1) this(3), of v]
  have "[] @ map (vidx v) [4, 3, 2] = vpath v" by (simp add: vpath_def)
  with loop obtain r m1 s1 where
    w: "walk_create_loop alloc v [4, 3, 2] root m s = Some (r, m1, s1)" "walk_inv root m1 s1"
    "\<forall>v'. leaf m1 root v' = leaf m root v'"
    "\<forall>t. r = Inr t \<longrightarrow> tbl m1 root (vpath v) = Some t" by metis
  have walk: "walk_or_create alloc root v 1 m s = (case r of
      Inl e \<Rightarrow> Some (Inl e, m1, s1) | Inr t \<Rightarrow> Some (Inr (t, vidx v 1), m1, s1))"
    using w(1)
    by (simp add: walk_or_create_def walk_levels_1 [simplified] level_index_vidx del: walk_create_loop.simps
        split: sum.splits)
  show ?thesis
  proof (cases r)
    case (Inl e)
    with walk w show ?thesis by (simp add: map_page_def map_entry_def)
  next
    case (Inr t)
    let ?m = "write_entry t (vidx v 1) (new_with_frame frame flags) m1"
    have t: "tbl m1 root (vpath v) = Some t" and tree: "pt_tree m1 root" "t \<notin> free s1"
      using w(2,4) Inr ipath_vpath [of v] by (auto simp: walk_inv_def)
    note same = tbl_write_leaf [OF tree(1) ipath_vpath length_vpath t]
    have "walk_inv root ?m s1"
      using w(2) tree(2) unfolding walk_inv_def pt_tree_def by (auto simp: same)
    moreover have "map_page alloc root v frame flags m s = Some (Inr (), ?m, s1)"
      using walk Inr by (simp add: map_page_def map_entry_def)
    ultimately show ?thesis
      using leaf_write [OF tree(1) ipath_vpath length_vpath t, of "vidx v 1"] w(3)
      by (intro exI [of _ "Inr ()"] exI [of _ ?m] exI [of _ s1]) simp
  qed
qed

end



section \<open>The bitmap allocator as the source of tables\<close>

text \<open>Physical addresses of the processor have at most 52 bits.\<close>

definition page_pool_inv :: "BitmapFrameAllocator \<Rightarrow> bool" where
  "page_pool_inv b \<longleftrightarrow> ba_inv b \<and> total_frames b \<le> 2 ^ 40"

lemma ADDR_MASK_mask: "ADDR_MASK = push_bit 12 (mask 40)"
  by (simp add: ADDR_MASK_def mask_eq_exp_minus_1)

lemma frame_addr_fits:
  assumes "f < 2 ^ 40"
  shows "(of_nat f * 4096 :: u64) AND ADDR_MASK = of_nat f * 4096"
proof -
  have "take_bit 40 (of_nat f :: u64) = of_nat f"
    using assms by (simp add: word_unat_eq_iff unsigned_take_bit_eq unat_of_nat take_bit_nat_eq_self)
  moreover have "(of_nat f * 4096 :: u64) = push_bit 12 (of_nat f)"
    by (simp add: push_bit_eq_mult)
  ultimately show ?thesis
    by (simp add: ADDR_MASK_mask flip: push_bit_and) (simp add: take_bit_eq_mask)
qed

interpretation pb: table_frames allocate free_addrs page_pool_inv
proof unfold_locales
  fix s s' r f e a
  assume "page_pool_inv s"
  then have inv: "ba_inv s" and tot: "total_frames s \<le> 2 ^ 40" by (auto simp: page_pool_inv_def)
  show "\<exists>r s'. allocate s = Some (r, s')" using inv by (rule bp.alloc_returns)
  show "allocate s = Some (Inr f, s') \<Longrightarrow>
      start_address f \<in> free_addrs s \<and> free_addrs s' = free_addrs s - {start_address f}"
    using inv by (rule bp.alloc_took)
  show "allocate s = Some (Inl e, s') \<Longrightarrow> s' = s \<and> free_addrs s = {}"
    using inv by (rule bp.alloc_failed)
  show "finite (free_addrs s)" using inv by (rule bp.free_finite)
  show "allocate s = Some (r, s') \<Longrightarrow> page_pool_inv s'"
    by (rule allocate_cases [OF inv]) (use inv tot in \<open>auto simp: page_pool_inv_def\<close>)
  show "a \<in> free_addrs s \<Longrightarrow> a AND ADDR_MASK = a"
    using tot by (auto simp: free_addrs_def frame_free_def intro!: frame_addr_fits)
qed

definition paging_inv :: "u64 \<Rightarrow> ptmem \<Rightarrow> BitmapFrameAllocator \<Rightarrow> bool" where
  "paging_inv root m b \<longleftrightarrow> page_pool_inv b \<and> pt_tree m root \<and>
     (\<forall>q a. ipath q \<longrightarrow> tbl m root q = Some a \<longrightarrow> a \<notin> free_addrs b) \<and>
     (\<forall>a \<in> free_addrs b. \<forall>j < 512. is_unused (m a j))"

lemma paging_inv_walk_inv: "paging_inv root m b = pb.walk_inv root m b"
  by (simp add: paging_inv_def pb.walk_inv_def)


section \<open>Pages and indices\<close>

definition page_number :: "u64 \<Rightarrow> u64" where
  "page_number v = drop_bit 12 (take_bit 48 v)"

lemma vidx_take_bit: "vidx v l = unat (take_bit 9 (drop_bit (12 + (l - 1) * 9) v))"
proof -
  have "(0x1FF :: u64) = mask 9" by (simp add: mask_eq_exp_minus_1)
  then show ?thesis by (simp add: vidx_def take_bit_eq_mask)
qed

lemma vidx_eq_iff:
  "vidx v l = vidx w l \<longleftrightarrow> (\<forall>n < 9. bit v (12 + (l - 1) * 9 + n) \<longleftrightarrow> bit w (12 + (l - 1) * 9 + n))"
proof -
  have "vidx v l = vidx w l \<longleftrightarrow>
      take_bit 9 (drop_bit (12 + (l - 1) * 9) v) = take_bit 9 (drop_bit (12 + (l - 1) * 9) w)"
    by (simp only: vidx_take_bit word_unat_eq_iff)
  also have "\<dots> \<longleftrightarrow> (\<forall>n < 64. n < 9 \<longrightarrow> (bit v (12 + (l - 1) * 9 + n) \<longleftrightarrow> bit w (12 + (l - 1) * 9 + n)))"
    unfolding bit_eq_iff by (auto simp: bit_take_bit_iff bit_drop_bit_eq)
  finally show ?thesis by auto
qed

lemma page_number_eq_iff:
  "page_number v = page_number w \<longleftrightarrow> (\<forall>n. 12 \<le> n \<and> n < 48 \<longrightarrow> (bit v n \<longleftrightarrow> bit w n))"
proof -
  have "page_number v = page_number w \<longleftrightarrow>
      (\<forall>n < 64. n < 36 \<longrightarrow> (bit v (12 + n) \<longleftrightarrow> bit w (12 + n)))"
    unfolding page_number_def bit_eq_iff by (auto simp: bit_drop_bit_eq bit_take_bit_iff)
  also have "\<dots> \<longleftrightarrow> (\<forall>n. 12 + n < 48 \<longrightarrow> (bit v (12 + n) \<longleftrightarrow> bit w (12 + n)))"
    by auto
  also have "\<dots> \<longleftrightarrow> (\<forall>n. 12 \<le> n \<and> n < 48 \<longrightarrow> (bit v n \<longleftrightarrow> bit w n))"
    by (auto simp: le_iff_add)
  finally show ?thesis .
qed

lemma same_page_iff:
  "vpath v = vpath w \<and> vidx v 1 = vidx w 1 \<longleftrightarrow> page_number v = page_number w"
proof
  assume "page_number v = page_number w"
  then show "vpath v = vpath w \<and> vidx v 1 = vidx w 1"
    unfolding page_number_eq_iff vpath_def by (auto simp: vidx_eq_iff)
next
  assume "vpath v = vpath w \<and> vidx v 1 = vidx w 1"
  then have l: "vidx v 4 = vidx w 4" "vidx v 3 = vidx w 3" "vidx v 2 = vidx w 2" "vidx v 1 = vidx w 1"
    by (auto simp: vpath_def)
  show "page_number v = page_number w"
    unfolding page_number_eq_iff
  proof (intro allI impI)
    fix n :: nat
    assume n: "12 \<le> n \<and> n < 48"
    then consider "n = 39 + (n - 39) \<and> n - 39 < 9" | "n = 30 + (n - 30) \<and> n - 30 < 9"
      | "n = 21 + (n - 21) \<and> n - 21 < 9" | "n = 12 + (n - 12) \<and> n - 12 < 9" by linarith
    then show "bit v n \<longleftrightarrow> bit w n"
    proof cases
      case 1
      with l(1) show ?thesis unfolding vidx_eq_iff by (auto dest: spec [of _ "n - 39"])
    next
      case 2
      with l(2) show ?thesis unfolding vidx_eq_iff by (auto dest: spec [of _ "n - 30"])
    next
      case 3
      with l(3) show ?thesis unfolding vidx_eq_iff by (auto dest: spec [of _ "n - 21"])
    next
      case 4
      with l(4) show ?thesis unfolding vidx_eq_iff by (auto dest: spec [of _ "n - 12"])
    qed
  qed
qed



section \<open>Canonical addresses\<close>

lemma drop_47_zero: "drop_bit 47 (a :: u64) = 0 \<longleftrightarrow> unat a < 2 ^ 47"
  by (simp add: word_unat_eq_iff drop_bit_eq_div unat_div div_eq_0_iff)

lemma signed_drop_47_zero: "signed_drop_bit 47 a = 0 \<longleftrightarrow> drop_bit 47 (a :: u64) = 0"
proof -
  have "signed_drop_bit 47 a = 0 \<longleftrightarrow> (\<forall>n < 64. \<not> bit a (if 17 \<le> n then 63 else 47 + n))"
    by (auto simp: bit_eq_iff bit_signed_drop_bit_iff)
  also have "\<dots> \<longleftrightarrow> (\<forall>n < 64. \<not> bit a (47 + n))"
  proof
    assume *: "\<forall>n < 64. \<not> bit a (if 17 \<le> n then 63 else 47 + n)"
    show "\<forall>n < 64. \<not> bit a (47 + n)"
    proof (intro allI impI)
      fix n :: nat assume "n < 64"
      with * show "\<not> bit a (47 + n)"
        by (cases "n < 17") (auto dest: bit_imp_le_length spec [of _ n])
    qed
  next
    assume *: "\<forall>n < 64. \<not> bit a (47 + n)"
    then show "\<forall>n < 64. \<not> bit a (if 17 \<le> n then 63 else 47 + n)"
      using spec [OF *, of 16] by auto
  qed
  also have "\<dots> \<longleftrightarrow> drop_bit 47 a = 0" by (simp add: bit_eq_iff bit_drop_bit_eq)
  finally show ?thesis .
qed

lemma signed_drop_47_ones: "signed_drop_bit 47 a = - 1 \<longleftrightarrow> signed_drop_bit 47 (NOT a :: u64) = 0"
proof -
  have "signed_drop_bit 47 (NOT a) = NOT (signed_drop_bit 47 a)"
    by (rule bit_word_eqI) (auto simp: bit_signed_drop_bit_iff bit_not_iff)
  then show ?thesis by (metis bit.double_compl bit.compl_zero)
qed

lemma unat_NOT: "unat (NOT a :: u64) = 2 ^ 64 - 1 - unat a"
proof -
  have "NOT a = - 1 - a" by (simp add: not_eq_complement)
  moreover have "a \<le> - 1" by simp
  ultimately show ?thesis using unat_sub [of a "- 1"] unat_neg_one [where 'a = 64] by simp
qed


section \<open>Properties\<close>

lemma leaf_entry:
  assumes "start_address fr AND ADDR_MASK = start_address fr" and "fl AND ADDR_MASK = 0"
    and "fl AND PRESENT \<noteq> 0"
  shows "entry_addr (new_with_frame fr fl) = start_address fr" and "is_present (new_with_frame fr fl)"
proof -
  show "entry_addr (new_with_frame fr fl) = start_address fr"
    using assms(1,2) by (simp add: entry_addr_def new_with_frame_def bit.conj_disj_distrib2)
  have "bit fl 0" using assms(3) and_exp_eq_0_iff_not_bit [of fl 0] by (simp add: PRESENT_def)
  then have "bit (start_address fr OR fl) 0" by (simp only: bit_or_iff simp_thms)
  then show "is_present (new_with_frame fr fl)"
    using and_exp_eq_0_iff_not_bit [of "start_address fr OR fl" 0]
    by (simp add: is_present_def new_with_frame_def PRESENT_def)
qed

text \<open>
  C3. Mapping a page makes exactly that page translate to the frame. With tables that form a tree,
  outside the free frames, and free frames that are zeroed, \<open>map_page\<close> on the bitmap allocator never
  panics and keeps that invariant. On success every address of the page translates to the frame
  plus its offset and every other address translates as before; on failure, out of frames or a
  huge page in the way, every address translates as before, whatever tables were created.
\<close>

theorem map_page_translates:
  assumes "paging_inv root m b" and "start_address fr AND ADDR_MASK = start_address fr"
    and "fl AND ADDR_MASK = 0" and "fl AND PRESENT \<noteq> 0"
  shows "\<exists>r m' b'. map_page allocate root v fr fl m b = Some (r, m', b') \<and> paging_inv root m' b' \<and>
     (case r of
        Inl err \<Rightarrow> (\<forall>w. translate m' root w = translate m root w)
      | Inr _ \<Rightarrow> (\<forall>w. translate m' root w =
          (if page_number w = page_number v
           then Some (Inr (start_address fr + ucast (page_offset_4k w)))
           else translate m root w)))"
proof -
  note e = leaf_entry [OF assms(2-4)]
  from pb.map_page_ok [OF assms(1) [unfolded paging_inv_walk_inv], of v fr fl] obtain r m' b' where
    r: "map_page allocate root v fr fl m b = Some (r, m', b')" "pb.walk_inv root m' b'"
    "case r of
        Inl err \<Rightarrow> (\<forall>v'. leaf m' root v' = leaf m root v')
      | Inr _ \<Rightarrow> (\<forall>v'. leaf m' root v' =
          (if vpath v' = vpath v \<and> vidx v' 1 = vidx v 1
           then (if is_present (new_with_frame fr fl) then Inr (new_with_frame fr fl)
                 else Inl WalkOutOfMemory)
           else leaf m root v'))" by blast
  have "case r of
        Inl err \<Rightarrow> (\<forall>w. translate m' root w = translate m root w)
      | Inr _ \<Rightarrow> (\<forall>w. translate m' root w =
          (if page_number w = page_number v
           then Some (Inr (start_address fr + ucast (page_offset_4k w)))
           else translate m root w))"
    using r(3) e unfolding translate_leaf same_page_iff by (cases r) simp_all
  with r(1,2) show ?thesis unfolding paging_inv_walk_inv by blast
qed

text \<open>A concrete state: no table entry is set, and the allocator has frames 1 to 9.\<close>

definition zero_mem :: ptmem where
  "zero_mem = (\<lambda>_. pt_new)"

lemma paging_inv_zero:
  "paging_inv 0 zero_mem \<lparr>bitmap = [1], bm_capacity = 2, total_frames = 10\<rparr>"
proof -
  let ?b = "\<lparr>bitmap = [1], bm_capacity = 2, total_frames = 10\<rparr>"
  have unused: "is_unused (zero_mem a j)" for a j
    by (simp add: zero_mem_def pt_new_def is_unused_def)
  then have t: "tbl zero_mem 0 q = Some a \<longleftrightarrow> q = [] \<and> a = 0" for q a
    by (cases q) auto
  have "of_nat f * 4096 \<noteq> (0 :: u64)" if "f \<noteq> 0" "f < 10" for f
  proof
    assume "of_nat f * 4096 = (0 :: u64)"
    then have "f * 4096 = 0" using frame_addr_unat [of f] that(2) by simp
    with that(1) show False by simp
  qed
  then have "0 \<notin> free_addrs ?b"
    by (auto simp: free_addrs_def frame_free_def)
  with unused show ?thesis
    by (auto simp: paging_inv_def page_pool_inv_def ba_inv_def pt_tree_def t)
qed

theorem map_page_translates_witness:
  "\<exists>m' b'. map_page allocate 0 0x5123 (PhysFrame 0x8000) 3 zero_mem
      \<lparr>bitmap = [1], bm_capacity = 2, total_frames = 10\<rparr> = Some (Inr (), m', b') \<and>
    translate m' 0 0x5678 = Some (Inr 0x8678)"
proof -
  let ?b = "\<lambda>w. \<lparr>bitmap = [w], bm_capacity = 2, total_frames = 10\<rparr>"
  have a: "allocate (?b 1) = Some (Inr (PhysFrame 0x1000), ?b 3)"
    "allocate (?b 3) = Some (Inr (PhysFrame 0x2000), ?b 7)"
    "allocate (?b 7) = Some (Inr (PhysFrame 0x3000), ?b 15)"
    by (simp_all add: allocate_eval)
  have "\<exists>m' b'. map_page allocate 0 0x5123 (PhysFrame 0x8000) 3 zero_mem (?b 1) = Some (Inr (), m', b')"
    by (simp add: map_page_def map_entry_def walk_or_create_def walk_levels_1 [simplified] level_index_def
        alloc_zeroed_def a zero_mem_def pt_new_def is_unused_def Let_def new_with_frame_def entry_addr_def
        ADDR_MASK_def PRESENT_def WRITABLE_def USER_ACCESSIBLE_def)
  then obtain m' b' where m: "map_page allocate 0 0x5123 (PhysFrame 0x8000) 3 zero_mem (?b 1) = Some (Inr (), m', b')"
    by blast
  have "page_number 0x5678 = page_number 0x5123" by (simp add: page_number_def)
  with map_page_translates [OF paging_inv_zero, of "PhysFrame 0x8000" 3 "0x5123"] m
  have "translate m' 0 0x5678 = Some (Inr (0x8000 + ucast (page_offset_4k 0x5678)))"
    by (simp add: ADDR_MASK_def PRESENT_def)
  then show ?thesis using m by (simp add: page_offset_4k_def)
qed

lemma walk_of_leaf:
  assumes "leaf m root v = Inr e"
  shows "\<exists>t. tbl m root (vpath v) = Some t \<and> m t (vidx v 1) = e \<and> is_present e \<and>
     walk m root v 1 = Some (Inr (t, vidx v 1))"
  using assms unfolding leaf_def vpath_def walk_def walk_levels_1
  by (auto simp: level_index_vidx Let_def split: if_splits)

lemma entry_addr_aligned: "from_start_address (entry_addr e) = Some (PhysFrame (entry_addr e))"
proof -
  have "take_bit 12 (entry_addr e) = 0"
    by (simp add: entry_addr_def ADDR_MASK_mask) (simp add: take_bit_push_bit)
  then have "entry_addr e mod 4096 = 0" by (simp add: take_bit_eq_mod)
  then show ?thesis by (simp add: from_start_address_def SIZE_4K_def)
qed

text \<open>
  C14. Unmapping a mapped page returns its frame to the allocator and removes exactly that page: its
  addresses no longer translate, and every other address translates as before.
\<close>

theorem unmap_page_removes:
  assumes "pt_tree m root" and "ba_inv b" and "translate m root v = Some (Inr pa)"
  shows "\<exists>fr m' b'. unmap_page deallocate root v m b = Some (Inr (Some fr), m', b') \<and>
     start_address fr + ucast (page_offset_4k v) = pa \<and> deallocate fr b = Some b' \<and>
     (\<forall>w. translate m' root w =
        (if page_number w = page_number v then Some (Inl WalkOutOfMemory) else translate m root w))"
proof -
  from assms(3) obtain e where e: "leaf m root v = Inr e" "entry_addr e + ucast (page_offset_4k v) = pa"
    by (cases "leaf m root v") (auto simp: translate_leaf)
  from walk_of_leaf [OF e(1)] obtain t where t: "tbl m root (vpath v) = Some t" "m t (vidx v 1) = e"
    "is_present e" "walk m root v 1 = Some (Inr (t, vidx v 1))" by blast
  let ?fr = "PhysFrame (entry_addr e)" and ?m = "write_entry t (vidx v 1) (entry_clear e) m"
  obtain b' where b': "deallocate ?fr b = Some b'"
    using set_frame_used_ok [OF assms(2)] unfolding deallocate_def Let_def by (metis option.simps(3))
  have "\<not> is_present (entry_clear e)" by (simp add: is_present_def entry_clear_def)
  then have "translate ?m root w =
      (if page_number w = page_number v then Some (Inl WalkOutOfMemory) else translate m root w)" for w
    using leaf_write [OF assms(1) ipath_vpath length_vpath t(1), of "vidx v 1" "entry_clear e" w]
    unfolding translate_leaf same_page_iff by simp
  moreover have "unmap_page deallocate root v m b = Some (Inr (Some ?fr), ?m, b')"
    using t b' by (simp add: unmap_page_def entry_addr_aligned)
  ultimately show ?thesis using e(2) b' by (intro exI [of _ ?fr] exI [of _ ?m] exI [of _ b']) simp
qed

theorem unmap_page_removes_witness:
  "let m = write_entry 0x3000 5 (PageTableEntry 0x8003) (write_entry 0x2000 0 (PageTableEntry 0x3007)
        (write_entry 0x1000 0 (PageTableEntry 0x2007) (write_entry 0 0 (PageTableEntry 0x1007) zero_mem)));
       b = \<lparr>bitmap = [0xFFFF], bm_capacity = 2, total_frames = 10\<rparr>
   in translate m 0 0x5678 = Some (Inr 0x8678) \<and>
      (\<exists>fr m' b'. unmap_page deallocate 0 0x5678 m b = Some (Inr (Some fr), m', b') \<and>
         translate m' 0 0x5FFF = Some (Inl WalkOutOfMemory))"
proof -
  define m where "m = write_entry 0x3000 5 (PageTableEntry 0x8003) (write_entry 0x2000 0 (PageTableEntry 0x3007)
        (write_entry 0x1000 0 (PageTableEntry 0x2007) (write_entry 0 0 (PageTableEntry 0x1007) zero_mem)))"
  let ?b = "\<lparr>bitmap = [0xFFFF], bm_capacity = 2, total_frames = 10\<rparr>"
  note mem = m_def zero_mem_def pt_new_def is_unused_def is_huge_def HUGE_PAGE_def entry_addr_def ADDR_MASK_def
  have t: "translate m 0 0x5678 = Some (Inr 0x8678)"
    by (simp add: translate_def walk_read_def walk_levels_1 [simplified] level_index_def Let_def mem
        is_present_def PRESENT_def page_offset_4k_def)
  have inv: "ba_inv ?b" by (simp add: ba_inv_def)
  have "tbl m 0 q = Some a \<longleftrightarrow> (q, a) \<in> {([], 0), ([0], 0x1000), ([0, 0], 0x2000), ([0, 0, 0], 0x3000)}"
    if "length q \<le> 3" for q a
    using that
    by (cases q; cases "tl q"; cases "tl (tl q)"; cases "tl (tl (tl q))") (auto simp: mem split: if_splits)
  then have tree: "pt_tree m 0" by (auto simp: pt_tree_def ipath_def)
  have "page_number 0x5FFF = page_number 0x5678" by (simp add: page_number_def)
  with unmap_page_removes [OF tree inv t] t show ?thesis
    unfolding Let_def m_def [symmetric] by metis
qed

text \<open>
  \<open>CanonicalVirtAddr::new\<close> accepts exactly the addresses of the two canonical halves, the
  lowest and the highest \<open>2 ^ 47\<close> addresses.
\<close>

theorem canonical_halves:
  "cva_new a = (if unat a < 2 ^ 47 \<or> 2 ^ 64 - 2 ^ 47 \<le> unat a then Some (CanonicalVirtAddr a) else None)"
proof -
  have "unat (NOT a) < 2 ^ 47 \<longleftrightarrow> 2 ^ 64 - 2 ^ 47 \<le> unat a"
    using u64_bound [of a] by (simp add: unat_NOT) arith
  then show ?thesis
    by (simp add: cva_new_def Let_def signed_drop_47_zero signed_drop_47_ones drop_47_zero)
qed


end
