(* ===== verification/Genome_Paths.thy ===== *)
theory Genome_Paths
  imports Fullerene_Prelude "HOL-Library.Sublist"
begin

text \<open>
  The path functions at the end of \<open>src/genome/src/vfs.rs\<close> (\<open>relative_to_mount\<close>, \<open>normalize_path\<close>) and
  the operations of Rust's \<open>str\<close> they use. A \<open>str\<close> is its sequence of bytes, an Isabelle \<open>string\<close>.

  A normalised path is the rendering of a list of components. The lemmas carry the two functions
  over to component lists: normalising is a round trip, and the path relative to a mount point is
  what remains after its components.
\<close>

section \<open>Operations of str\<close>

fun split_on :: "'a \<Rightarrow> 'a list \<Rightarrow> 'a list list" where
  "split_on c [] = [[]]"
| "split_on c (x # xs) =
     (if x = c then [] # split_on c xs
      else (case split_on c xs of [] \<Rightarrow> [[x]] | w # ws \<Rightarrow> (x # w) # ws))"

definition strip_prefix :: "'a list \<Rightarrow> 'a list \<Rightarrow> 'a list option" where
  "strip_prefix p s = (if prefix p s then Some (drop (length p) s) else None)"

definition trim_start_matches :: "'a \<Rightarrow> 'a list \<Rightarrow> 'a list" where
  "trim_start_matches c s = dropWhile (\<lambda>x. x = c) s"

definition trim_end_matches :: "'a \<Rightarrow> 'a list \<Rightarrow> 'a list" where
  "trim_end_matches c s = rev (dropWhile (\<lambda>x. x = c) (rev s))"

fun rfind :: "'a \<Rightarrow> 'a list \<Rightarrow> nat option" where
  "rfind c [] = None"
| "rfind c (x # xs) = (case rfind c xs of Some i \<Rightarrow> Some (Suc i) | None \<Rightarrow> if x = c then Some 0 else None)"

abbreviation SLASH :: char where
  "SLASH \<equiv> CHR ''/''"


section \<open>The two functions\<close>

definition relative_to_mount :: "string \<Rightarrow> string \<Rightarrow> string option" where
  "relative_to_mount path mount_point =
     (if \<not> prefix [SLASH] path then None
      else if mount_point = [SLASH] then strip_prefix [SLASH] path
      else if path = mount_point then Some []
      else case strip_prefix mount_point path of
        None \<Rightarrow> None
      | Some rest \<Rightarrow> strip_prefix [SLASH] rest)"

fun normalize_components :: "string list \<Rightarrow> string list \<Rightarrow> string list" where
  "normalize_components components [] = components"
| "normalize_components components (cmp # comps) =
     (if cmp = [] \<or> cmp = ''.'' then normalize_components components comps
      else if cmp = ''..'' then normalize_components (butlast components) comps
      else normalize_components (components @ [cmp]) comps)"

fun push_components :: "string list \<Rightarrow> string" where
  "push_components [] = []"
| "push_components [c] = c"
| "push_components (c # d # cs) = c @ SLASH # push_components (d # cs)"

definition normalize_path :: "string \<Rightarrow> string" where
  "normalize_path path =
     (let components = normalize_components [] (split_on SLASH path) in
      if components = [] then [SLASH] else SLASH # push_components components)"


section \<open>Paths as lists of components\<close>

definition clean_comp :: "string \<Rightarrow> bool" where
  "clean_comp c \<longleftrightarrow> c \<noteq> [] \<and> c \<noteq> ''.'' \<and> c \<noteq> ''..'' \<and> SLASH \<notin> set c"

definition abs_path :: "string list \<Rightarrow> string" where
  "abs_path cs = SLASH # push_components cs"

lemma normalize_path_abs: "normalize_path p = abs_path (normalize_components [] (split_on SLASH p))"
  by (simp add: normalize_path_def abs_path_def Let_def)

lemma split_on_not_Nil [simp]: "split_on c s \<noteq> []"
  by (cases s) (auto split: list.splits)

lemma split_on_no_sep: "c \<notin> set s \<Longrightarrow> split_on c s = [s]"
  by (induction s) auto

lemma split_on_append: "c \<notin> set s \<Longrightarrow> split_on c (s @ c # t) = s # split_on c t"
  by (induction s) auto

lemma split_on_pieces: "w \<in> set (split_on c s) \<Longrightarrow> c \<notin> set w"
  by (induction s arbitrary: w) (auto split: if_splits list.splits)

lemma split_push_components:
  "cs \<noteq> [] \<Longrightarrow> \<forall>c \<in> set cs. SLASH \<notin> set c \<Longrightarrow> split_on SLASH (push_components cs) = cs"
  by (induction cs rule: push_components.induct) (auto simp: split_on_no_sep split_on_append)

lemma normalize_components_clean:
  assumes "\<forall>c \<in> set cs. clean_comp c" and "\<forall>c \<in> set comps. SLASH \<notin> set c"
  shows "\<forall>c \<in> set (normalize_components cs comps). clean_comp c"
  using assms
proof (induction comps arbitrary: cs)
  case (Cons x comps)
  have bl: "\<forall>c \<in> set (butlast cs). clean_comp c"
    using Cons.prems(1) by (meson in_set_butlastD)
  have rest: "\<forall>c \<in> set comps. SLASH \<notin> set c" using Cons.prems(2) by simp
  consider "x = [] \<or> x = ''.''" | "x = ''..''" | "clean_comp x"
    using Cons.prems(2) by (auto simp: clean_comp_def)
  then show ?case
  proof cases
    case 1
    with Cons.IH [OF Cons.prems(1) rest] show ?thesis by auto
  next
    case 2
    with Cons.IH [OF bl rest] show ?thesis by simp
  next
    case 3
    then have "\<forall>c \<in> set (cs @ [x]). clean_comp c" using Cons.prems(1) by simp
    from Cons.IH [OF this rest] 3 show ?thesis by (simp add: clean_comp_def)
  qed
qed simp

lemma normalize_components_id:
  "\<forall>c \<in> set comps. clean_comp c \<Longrightarrow> normalize_components cs comps = cs @ comps"
  by (induction cs comps rule: normalize_components.induct) (auto simp: clean_comp_def)

text \<open>Normalisation reads back what was rendered.\<close>

lemma normalize_abs_path:
  assumes "\<forall>c \<in> set cs. clean_comp c"
  shows "normalize_path (abs_path cs) = abs_path cs"
proof (cases "cs = []")
  case True
  then show ?thesis by (simp add: normalize_path_abs abs_path_def)
next
  case False
  then have "split_on SLASH (abs_path cs) = [] # cs"
    using assms by (simp add: abs_path_def split_push_components clean_comp_def)
  with assms show ?thesis by (simp add: normalize_path_abs normalize_components_id)
qed

definition path_comps :: "string \<Rightarrow> string list" where
  "path_comps p = normalize_components [] (split_on SLASH p)"

lemma path_comps_clean: "c \<in> set (path_comps p) \<Longrightarrow> clean_comp c"
  unfolding path_comps_def
  using normalize_components_clean [of "[]" "split_on SLASH p"] split_on_pieces by fastforce

lemma normalize_path_comps: "normalize_path p = abs_path (path_comps p)"
  by (simp add: normalize_path_abs path_comps_def)

lemma push_components_Nil_iff: "\<forall>c \<in> set cs. clean_comp c \<Longrightarrow> push_components cs = [] \<longleftrightarrow> cs = []"
  by (cases cs rule: push_components.cases) (auto simp: clean_comp_def)

lemma abs_path_inject:
  assumes "\<forall>c \<in> set cs. clean_comp c" and "\<forall>c \<in> set ds. clean_comp c"
  shows "abs_path cs = abs_path ds \<longleftrightarrow> cs = ds"
proof
  assume "abs_path cs = abs_path ds"
  then have eq: "push_components cs = push_components ds" by (simp add: abs_path_def)
  show "cs = ds"
  proof (cases "cs = [] \<or> ds = []")
    case True
    with eq push_components_Nil_iff assms show ?thesis by (metis push_components.simps(1))
  next
    case False
    with eq assms show ?thesis by (metis split_push_components clean_comp_def)
  qed
qed simp

text \<open>A component list is followed by a separator exactly when it is a proper prefix.\<close>

lemma prefix_first_sep:
  "SLASH \<notin> set c \<Longrightarrow> SLASH \<notin> set d \<Longrightarrow> prefix (c @ SLASH # s) (d @ SLASH # t) \<longleftrightarrow> c = d \<and> prefix s t"
proof (induction c arbitrary: d)
  case Nil
  then show ?case by (cases d) auto
next
  case (Cons x c)
  then show ?case by (cases d) auto
qed

lemma not_prefix_sep: "SLASH \<notin> set d \<Longrightarrow> \<not> prefix (c @ SLASH # s) d"
  by (auto dest: set_mono_prefix)

lemma prefix_push_components:
  assumes "ms \<noteq> []" and "\<forall>c \<in> set ms. clean_comp c" and "\<forall>c \<in> set cs. clean_comp c"
  shows "prefix (push_components ms @ [SLASH]) (push_components cs) \<longleftrightarrow> strict_prefix ms cs"
  using assms
proof (induction ms arbitrary: cs rule: push_components.induct)
  case 1
  then show ?case by simp
next
  case (2 c)
  then show ?case
    by (cases cs rule: push_components.cases)
       (auto simp: clean_comp_def not_prefix_sep prefix_first_sep strict_prefix_def)
next
  case (3 c d ms)
  show ?case
  proof (cases cs rule: push_components.cases)
    case 1
    then show ?thesis by simp
  next
    case (2 e)
    with 3 show ?thesis
      using not_prefix_sep [of e c "push_components (d # ms) @ [SLASH]"]
      by (simp add: clean_comp_def strict_prefix_def)
  next
    case (3 e f es)
    have "prefix (push_components (d # ms) @ [SLASH]) (push_components (f # es)) \<longleftrightarrow>
        strict_prefix (d # ms) (f # es)"
      using "3.prems" 3 by (intro "3.IH") auto
    with "3.prems" 3 show ?thesis
      by (auto simp: prefix_first_sep clean_comp_def strict_prefix_def)
  qed
qed

lemma push_components_append:
  "ms \<noteq> [] \<Longrightarrow> rs \<noteq> [] \<Longrightarrow> push_components (ms @ rs) = push_components ms @ SLASH # push_components rs"
  by (induction ms rule: push_components.induct) (auto simp: neq_Nil_conv)

text \<open>The path below a mount point is the rendering of the remaining components.\<close>

lemma relative_to_mount_comps:
  assumes cs: "\<forall>c \<in> set cs. clean_comp c" and ms: "\<forall>c \<in> set ms. clean_comp c"
  shows "relative_to_mount (abs_path cs) (abs_path ms) =
    (if prefix ms cs then Some (push_components (drop (length ms) cs)) else None)"
proof (cases "ms = []")
  case True
  then show ?thesis by (simp add: relative_to_mount_def abs_path_def strip_prefix_def)
next
  case False
  then have m: "abs_path ms \<noteq> [SLASH]" using ms by (simp add: abs_path_def push_components_Nil_iff)
  show ?thesis
  proof (cases "cs = ms")
    case True
    with m show ?thesis by (simp add: relative_to_mount_def abs_path_def)
  next
    case neq: False
    then have eq: "abs_path cs \<noteq> abs_path ms" using abs_path_inject [OF cs ms] by simp
    show ?thesis
    proof (cases "strict_prefix ms cs")
      case True
      then obtain rs where rs: "cs = ms @ rs" "rs \<noteq> []" by (auto simp: strict_prefix_def prefix_def)
      with False m eq show ?thesis
        by (simp add: relative_to_mount_def abs_path_def strip_prefix_def push_components_append)
    next
      case nsp: False
      then have np: "\<not> prefix ms cs" using neq by (simp add: strict_prefix_def)
      have "\<not> prefix (push_components ms @ [SLASH]) (push_components cs)"
        using prefix_push_components [OF False ms cs] nsp by simp
      then have "relative_to_mount (abs_path cs) (abs_path ms) = None"
        using m eq
        by (auto simp: relative_to_mount_def abs_path_def strip_prefix_def prefix_def)
      with np show ?thesis by simp
    qed
  qed
qed



section \<open>Properties\<close>


text \<open>
  C32. A mount point matches at component boundaries only. For a normalised path and a normalised
  mount point, the path lies below the mount exactly when the components of the mount begin the
  components of the path, and the relative path is the rest of the components.
\<close>

theorem mount_matches_components:
  "relative_to_mount (normalize_path p) (normalize_path mp) =
     (if prefix (path_comps mp) (path_comps p)
      then Some (push_components (drop (length (path_comps mp)) (path_comps p))) else None)"
  unfolding normalize_path_comps using path_comps_clean by (intro relative_to_mount_comps) blast+

end
