(* ===== verification/Genome_MemFs.thy ===== *)
theory Genome_MemFs
  imports Genome_Paths "HOL-Library.Monad_Syntax"
begin

text \<open>
  The in-memory file system of \<open>src/genome/src/vfs.rs\<close> with the error type of \<open>src/genome/src/fs.rs\<close>.
  A \<open>BTreeMap\<close> is a map; its order is not observable in the operations. A method with a
  \<open>&mut self\<close> returns the new state beside its result. A read into a buffer takes the length of the
  buffer and returns the bytes that were copied. \<open>usize\<close> has 64 bits, so \<open>usize::try_from\<close> of a
  \<open>u64\<close> succeeds. Growing a vector beyond the memory of the machine is not modelled.
\<close>

section \<open>Data\<close>

datatype FsError = FileNotFound | FileExists | PermissionDenied | InvalidFileDescriptor | InvalidSeek
  | DiskFull | NotADirectory | DirectoryNotEmpty | IsADirectory | InvalidPath | NotSupported
  | InvalidInput | UnexpectedEof | Io

datatype InodeType = File | Directory | Symlink

record Inode =
  iname :: string
  kind :: InodeType
  idata :: bytes
  children :: "u64 list"
  parent :: u64
  target :: "string option"
  isize :: u64

definition inode_new :: "string \<Rightarrow> InodeType \<Rightarrow> u64 \<Rightarrow> Inode" where
  "inode_new n k p = \<lparr>iname = n, kind = k, idata = [], children = [], parent = p, target = None, isize = 0\<rparr>"

record FileDescriptor =
  fd_no :: u32
  fd_ino :: u64
  fd_offset :: u64
  fd_flags :: u32

record VNode =
  vname :: string
  vsize :: u64
  is_dir :: bool

record FileSystemCapabilities =
  read_only :: bool
  cap_mkdir :: bool
  cap_unlink :: bool
  cap_symlink :: bool
  large_file :: bool

definition conservative :: FileSystemCapabilities where
  "conservative = \<lparr>read_only = True, cap_mkdir = False, cap_unlink = False, cap_symlink = False,
     large_file = False\<rparr>"

record MemFileSystem =
  inodes :: "u64 \<rightharpoonup> Inode"
  next_ino :: u64
  fds :: "u32 \<rightharpoonup> FileDescriptor"
  next_fd :: u32

definition MAX_SYMLINK_DEPTH :: nat where
  "MAX_SYMLINK_DEPTH = 8"

definition mem_new :: MemFileSystem where
  "mem_new = \<lparr>inodes = [1 \<mapsto> inode_new [] Directory 0], next_ino = 2, fds = Map.empty, next_fd = 0\<rparr>"


section \<open>Lookup\<close>

definition lookup_child :: "MemFileSystem \<Rightarrow> u64 \<Rightarrow> string \<Rightarrow> u64 option" where
  "lookup_child fs parent_ino nm = do {
     p \<leftarrow> inodes fs parent_ino;
     find (\<lambda>c. case inodes fs c of None \<Rightarrow> False | Some i \<Rightarrow> iname i = nm) (children p) }"

text \<open>
  The loop over the components ends in an inode, in a symbolic link to follow from a directory, or
  nowhere.
\<close>

datatype comp_walk = Reached u64 | Follow string u64 | Missing

fun walk_components :: "MemFileSystem \<Rightarrow> u64 \<Rightarrow> string list \<Rightarrow> comp_walk" where
  "walk_components fs current [] = Reached current"
| "walk_components fs current (c # cs) =
     (let next_ino =
            (if c = ''.'' then Some current
             else if c = ''..'' then
               (case inodes fs current of
                  None \<Rightarrow> None
                | Some ino \<Rightarrow> Some (if parent ino = 0 then 1 else parent ino))
             else lookup_child fs current c)
      in case next_ino of
        None \<Rightarrow> Missing
      | Some n \<Rightarrow>
          (case inodes fs n of
             None \<Rightarrow> Missing
           | Some i \<Rightarrow>
               (case target i of
                  Some tgt \<Rightarrow>
                    Follow (tgt @ concat (map (\<lambda>t. SLASH # t) cs)) (if prefix [SLASH] tgt then 1 else current)
                | None \<Rightarrow> walk_components fs n cs)))"

function lookup_from :: "MemFileSystem \<Rightarrow> string \<Rightarrow> u64 \<Rightarrow> nat \<Rightarrow> u64 option" where
  "lookup_from fs path start_ino depth =
     (if MAX_SYMLINK_DEPTH < depth \<or> path = []
      then (if depth \<le> MAX_SYMLINK_DEPTH then Some start_ino else None)
      else
        let (effective_start, trimmed) =
              (if prefix [SLASH] path then (1, trim_start_matches SLASH path) else (start_ino, path));
            components = filter (\<lambda>c. c \<noteq> []) (split_on SLASH trimmed)
        in if components = [] then Some effective_start
           else (case walk_components fs effective_start components of
                   Reached ino \<Rightarrow> Some ino
                 | Missing \<Rightarrow> None
                 | Follow new_path resolve_start \<Rightarrow> lookup_from fs new_path resolve_start (depth + 1)))"
  by pat_completeness auto
termination
  by (relation "measure (\<lambda>(fs, path, start_ino, depth). Suc MAX_SYMLINK_DEPTH - depth)") auto

declare lookup_from.simps [simp del]

definition lookup :: "MemFileSystem \<Rightarrow> string \<Rightarrow> u64 option" where
  "lookup fs path = lookup_from fs path 1 0"

definition lookup_parent :: "MemFileSystem \<Rightarrow> string \<Rightarrow> (u64 \<times> string) option" where
  "lookup_parent fs path =
     (let path = trim_end_matches SLASH path in
      if path = [] \<or> path = [SLASH] then None
      else case rfind SLASH path of
        Some last_slash \<Rightarrow>
          let parent_path = (if last_slash = 0 then [SLASH] else take last_slash path);
              name = drop (last_slash + 1) path
          in do { parent_ino \<leftarrow> lookup fs parent_path; Some (parent_ino, name) }
      | None \<Rightarrow> Some (1, path))"


section \<open>Operations\<close>

definition mem_capabilities :: FileSystemCapabilities where
  "mem_capabilities = \<lparr>read_only = False, cap_mkdir = True, cap_unlink = True, cap_symlink = True,
     large_file = True\<rparr>"

definition mem_open :: "string \<Rightarrow> u32 \<Rightarrow> MemFileSystem \<Rightarrow> FileDescriptor option \<times> MemFileSystem" where
  "mem_open path flags fs = (case lookup fs path of
     None \<Rightarrow> (None, fs)
   | Some ino \<Rightarrow>
       let fd = next_fd fs;
           desc = \<lparr>fd_no = fd, fd_ino = ino, fd_offset = 0, fd_flags = flags\<rparr>
       in (Some desc, fs\<lparr>next_fd := next_fd fs + 1, fds := (fds fs)(fd \<mapsto> desc)\<rparr>))"

definition mem_read :: "u32 \<Rightarrow> nat \<Rightarrow> MemFileSystem \<Rightarrow> (FsError + bytes) \<times> MemFileSystem" where
  "mem_read fd buf_len fs = (case fds fs fd of
     None \<Rightarrow> (Inl InvalidFileDescriptor, fs)
   | Some desc \<Rightarrow> (case inodes fs (fd_ino desc) of
       None \<Rightarrow> (Inl FileNotFound, fs)
     | Some ino \<Rightarrow>
         if kind ino \<noteq> File then (Inl IsADirectory, fs)
         else let offset = unat (fd_offset desc) in
           if length (idata ino) \<le> offset then (Inr [], fs)
           else let data = drop offset (idata ino);
                    n = min (length data) buf_len
                in (case checked_add (fd_offset desc) (of_nat n) of
                      None \<Rightarrow> (Inl InvalidSeek, fs)
                    | Some off \<Rightarrow> (Inr (take n data), fs\<lparr>fds := (fds fs)(fd \<mapsto> desc\<lparr>fd_offset := off\<rparr>)\<rparr>))))"

text \<open>\<open>Vec::resize\<close> with zeros to at least the new length, then \<open>copy_from_slice\<close> at the offset.\<close>

definition overwrite_at :: "nat \<Rightarrow> bytes \<Rightarrow> bytes \<Rightarrow> bytes" where
  "overwrite_at off data old =
     (let resized = old @ replicate (off + length data - length old) 0
      in take off resized @ data @ drop (off + length data) resized)"

definition mem_write :: "u32 \<Rightarrow> bytes \<Rightarrow> MemFileSystem \<Rightarrow> (FsError + nat) \<times> MemFileSystem" where
  "mem_write fd data fs = (case fds fs fd of
     None \<Rightarrow> (Inl InvalidFileDescriptor, fs)
   | Some desc \<Rightarrow> (case inodes fs (fd_ino desc) of
       None \<Rightarrow> (Inl FileNotFound, fs)
     | Some ino \<Rightarrow>
         if kind ino \<noteq> File then (Inl IsADirectory, fs)
         else let off = unat (fd_offset desc) in
           if 2 ^ 64 \<le> off + length data then (Inl InvalidInput, fs)
           else let data' = overwrite_at off data (idata ino);
                    fs' = fs\<lparr>inodes := (inodes fs)(fd_ino desc \<mapsto>
                            ino\<lparr>idata := data', isize := of_nat (length data')\<rparr>)\<rparr>
                in (case checked_add (fd_offset desc) (of_nat (length data)) of
                      None \<Rightarrow> (Inl InvalidSeek, fs')
                    | Some o' \<Rightarrow>
                        (Inr (length data), fs'\<lparr>fds := (fds fs)(fd \<mapsto> desc\<lparr>fd_offset := o'\<rparr>)\<rparr>))))"

definition mem_close :: "u32 \<Rightarrow> MemFileSystem \<Rightarrow> (FsError + unit) \<times> MemFileSystem" where
  "mem_close fd fs = (case fds fs fd of
     None \<Rightarrow> (Inl InvalidFileDescriptor, fs)
   | Some _ \<Rightarrow> (Inr (), fs\<lparr>fds := (fds fs)(fd := None)\<rparr>))"

definition mem_seek :: "u32 \<Rightarrow> u64 \<Rightarrow> MemFileSystem \<Rightarrow> (FsError + unit) \<times> MemFileSystem" where
  "mem_seek fd pos fs = (case fds fs fd of
     None \<Rightarrow> (Inl InvalidFileDescriptor, fs)
   | Some desc \<Rightarrow> (Inr (), fs\<lparr>fds := (fds fs)(fd \<mapsto> desc\<lparr>fd_offset := pos\<rparr>)\<rparr>))"

definition mem_position :: "u32 \<Rightarrow> MemFileSystem \<Rightarrow> (FsError + u64) \<times> MemFileSystem" where
  "mem_position fd fs = (case fds fs fd of
     None \<Rightarrow> (Inl InvalidFileDescriptor, fs)
   | Some desc \<Rightarrow> (Inr (fd_offset desc), fs))"

definition mem_size :: "u32 \<Rightarrow> MemFileSystem \<Rightarrow> (FsError + u64) \<times> MemFileSystem" where
  "mem_size fd fs = (case fds fs fd of
     None \<Rightarrow> (Inl InvalidFileDescriptor, fs)
   | Some desc \<Rightarrow> (case inodes fs (fd_ino desc) of
       None \<Rightarrow> (Inl FileNotFound, fs)
     | Some ino \<Rightarrow> (Inr (isize ino), fs)))"

definition mem_create :: "string \<Rightarrow> InodeType \<Rightarrow> MemFileSystem \<Rightarrow> u64 option \<times> MemFileSystem" where
  "mem_create path knd fs =
     (if lookup fs path \<noteq> None then (None, fs)
      else case lookup_parent fs path of
        None \<Rightarrow> (None, fs)
      | Some (parent_ino, name) \<Rightarrow> (case inodes fs parent_ino of
          None \<Rightarrow> (None, fs)
        | Some p \<Rightarrow>
            if kind p \<noteq> Directory then (None, fs)
            else let ino = next_ino fs;
                     inodes' = (inodes fs)(ino \<mapsto> inode_new name knd parent_ino)
                 in (Some ino, fs\<lparr>next_ino := ino + 1,
                      inodes := (case inodes' parent_ino of
                        None \<Rightarrow> inodes'
                      | Some p' \<Rightarrow> inodes'(parent_ino \<mapsto> p'\<lparr>children := children p' @ [ino]\<rparr>))\<rparr>)))"

definition mem_mkdir :: "string \<Rightarrow> MemFileSystem \<Rightarrow> (FsError + unit) \<times> MemFileSystem" where
  "mem_mkdir path fs =
     (if path = [SLASH] then (Inr (), fs)
      else case lookup_parent fs path of
        None \<Rightarrow> (Inl InvalidPath, fs)
      | Some _ \<Rightarrow> (case mem_create path Directory fs of
          (None, fs') \<Rightarrow> (Inl PermissionDenied, fs')
        | (Some _, fs') \<Rightarrow> (Inr (), fs')))"

definition mem_unlink :: "string \<Rightarrow> MemFileSystem \<Rightarrow> (FsError + unit) \<times> MemFileSystem" where
  "mem_unlink path fs = (case lookup_parent fs path of
     None \<Rightarrow> (Inl FileNotFound, fs)
   | Some (parent_ino, name) \<Rightarrow> (case lookup_child fs parent_ino name of
       None \<Rightarrow> (Inl FileNotFound, fs)
     | Some child_ino \<Rightarrow> (case inodes fs child_ino of
         None \<Rightarrow> (Inl FileNotFound, fs)
       | Some child \<Rightarrow>
           if kind child = Directory \<and> children child \<noteq> [] then (Inl DirectoryNotEmpty, fs)
           else let inodes' = (case inodes fs parent_ino of
                        None \<Rightarrow> inodes fs
                      | Some p \<Rightarrow> (inodes fs)(parent_ino \<mapsto> p\<lparr>children := filter (\<lambda>c. c \<noteq> child_ino) (children p)\<rparr>))
                in (Inr (), fs\<lparr>inodes := inodes'(child_ino := None)\<rparr>))))"

definition mem_readdir :: "string \<Rightarrow> MemFileSystem \<Rightarrow> (FsError + VNode list) \<times> MemFileSystem" where
  "mem_readdir path fs = (case lookup fs path of
     None \<Rightarrow> (Inl FileNotFound, fs)
   | Some ino \<Rightarrow> (case inodes fs ino of
       None \<Rightarrow> (Inl FileNotFound, fs)
     | Some inode \<Rightarrow>
         if kind inode \<noteq> Directory then (Inl NotADirectory, fs)
         else (Inr (map (\<lambda>c. \<lparr>vname = iname c, vsize = isize c, is_dir = (kind c = Directory)\<rparr>)
                 (List.map_filter (inodes fs) (children inode))), fs)))"

definition mem_exists :: "string \<Rightarrow> MemFileSystem \<Rightarrow> bool \<times> MemFileSystem" where
  "mem_exists path fs = (lookup fs path \<noteq> None, fs)"



section \<open>The tree of inodes\<close>

definition names_of :: "MemFileSystem \<Rightarrow> u64 \<Rightarrow> string option" where
  "names_of fs i = map_option iname (inodes fs i)"

text \<open>
  The inodes form a tree below inode 1: children and parents agree, only directories have children,
  siblings have different names, and the recorded size is the length of the data. Numbers grow
  from parent to child, so there is no cycle. No operation creates the target of a symbolic link.
\<close>

definition inode_ok :: "MemFileSystem \<Rightarrow> u64 \<Rightarrow> Inode \<Rightarrow> bool" where
  "inode_ok fs i n \<longleftrightarrow> i \<noteq> 0 \<and> i < next_ino fs \<and> target n = None \<and>
     isize n = of_nat (length (idata n)) \<and>
     distinct (children n) \<and> (children n \<noteq> [] \<longrightarrow> kind n = Directory) \<and>
     (\<forall>c \<in> set (children n). \<exists>m. inodes fs c = Some m \<and> parent m = i) \<and>
     (\<forall>c \<in> set (children n). \<forall>d \<in> set (children n). names_of fs c = names_of fs d \<longrightarrow> c = d) \<and>
     (if i = 1 then kind n = Directory \<and> parent n = 0
      else parent n < i \<and>
        (\<exists>p. inodes fs (parent n) = Some p \<and> kind p = Directory \<and> i \<in> set (children p)))"

definition memfs_inv :: "MemFileSystem \<Rightarrow> bool" where
  "memfs_inv fs \<longleftrightarrow> 1 \<in> dom (inodes fs) \<and> (\<forall>i n. inodes fs i = Some n \<longrightarrow> inode_ok fs i n)"

lemma memfs_invD: "memfs_inv fs \<Longrightarrow> inodes fs i = Some n \<Longrightarrow> inode_ok fs i n"
  by (simp add: memfs_inv_def)

lemma memfs_inv_new: "memfs_inv mem_new"
  by (simp add: memfs_inv_def mem_new_def inode_ok_def inode_new_def)


section \<open>Resolution of component lists\<close>

definition resolve_step :: "MemFileSystem \<Rightarrow> u64 \<Rightarrow> string \<Rightarrow> u64 option" where
  "resolve_step fs cur c =
     (if c = ''.'' then Some cur
      else if c = ''..'' then map_option (\<lambda>ino. if parent ino = 0 then 1 else parent ino) (inodes fs cur)
      else lookup_child fs cur c)"

fun resolve :: "MemFileSystem \<Rightarrow> u64 \<Rightarrow> string list \<Rightarrow> u64 option" where
  "resolve fs cur [] = Some cur"
| "resolve fs cur (c # cs) = (case resolve_step fs cur c of
     None \<Rightarrow> None
   | Some n \<Rightarrow> if inodes fs n = None then None else resolve fs n cs)"

lemma resolve_append:
  "resolve fs cur (cs @ ds) = Option.bind (resolve fs cur cs) (\<lambda>n. resolve fs n ds)"
  by (induction cs arbitrary: cur) (auto split: option.splits)

lemma walk_components_resolve:
  assumes "memfs_inv fs"
  shows "walk_components fs cur cs = (case resolve fs cur cs of None \<Rightarrow> Missing | Some i \<Rightarrow> Reached i)"
proof (induction cs arbitrary: cur)
  case (Cons c cs)
  let ?n = "if c = ''.'' then Some cur
             else if c = ''..'' then
               (case inodes fs cur of
                  None \<Rightarrow> None
                | Some ino \<Rightarrow> Some (if parent ino = 0 then 1 else parent ino))
             else lookup_child fs cur c"
  have step: "?n = resolve_step fs cur c"
    by (simp add: resolve_step_def split: option.splits)
  show ?case
    unfolding walk_components.simps Let_def step
    using Cons assms by (auto simp: memfs_inv_def inode_ok_def split: option.splits)
qed simp

definition fcomps :: "string \<Rightarrow> string list" where
  "fcomps path = filter (\<lambda>c. c \<noteq> []) (split_on SLASH path)"

lemma split_on_append_sep: "split_on c (s @ c # t) = split_on c s @ split_on c t"
proof (induction s)
  case (Cons x s)
  then show ?case
    by (cases "split_on c s") (auto simp: split_on_not_Nil)
qed simp

lemma fcomps_append: "fcomps (s @ SLASH # t) = fcomps s @ fcomps t"
  by (simp add: fcomps_def split_on_append_sep)

lemma fcomps_Nil [simp]: "fcomps [] = []"
  by (simp add: fcomps_def)

lemma fcomps_single: "SLASH \<notin> set s \<Longrightarrow> s \<noteq> [] \<Longrightarrow> fcomps s = [s]"
  by (simp add: fcomps_def split_on_no_sep)

lemma fcomps_trim_start: "fcomps (trim_start_matches SLASH path) = fcomps path"
  unfolding trim_start_matches_def
  by (induction path) (auto simp: fcomps_def)

lemma fcomps_snoc_sep: "fcomps (s @ [SLASH]) = fcomps s"
  using fcomps_append [of s "[]"] by simp

lemma fcomps_trim_end: "fcomps (trim_end_matches SLASH path) = fcomps path"
  unfolding trim_end_matches_def
  by (induction path rule: rev_induct) (auto simp: fcomps_snoc_sep)

lemma trim_end_last: "trim_end_matches SLASH path \<noteq> [] \<Longrightarrow> last (trim_end_matches SLASH path) \<noteq> SLASH"
  unfolding trim_end_matches_def
  using hd_dropWhile [of "\<lambda>x. x = SLASH" "rev path"] by (simp add: last_rev)

lemma rfind_None: "rfind c s = None \<longleftrightarrow> c \<notin> set s"
  by (induction s) (auto split: option.splits)

lemma rfind_Some:
  "rfind c s = Some k \<Longrightarrow> k < length s \<and> s ! k = c \<and> c \<notin> set (drop (Suc k) s)"
  by (induction s arbitrary: k) (auto simp: rfind_None split: option.splits if_splits)

lemma lookup_resolve:
  assumes "memfs_inv fs"
  shows "lookup fs path = resolve fs 1 (fcomps path)"
proof (cases "path = []")
  case True
  then show ?thesis by (simp add: lookup_def lookup_from.simps [of fs] MAX_SYMLINK_DEPTH_def)
next
  case False
  have "filter (\<lambda>c. c \<noteq> []) (split_on SLASH (trim_start_matches SLASH path)) = fcomps path"
    using fcomps_trim_start [of path] by (simp add: fcomps_def)
  moreover have "filter (\<lambda>c. c \<noteq> []) (split_on SLASH path) = fcomps path" by (simp add: fcomps_def)
  ultimately show ?thesis
    using False
    by (simp add: lookup_def lookup_from.simps [of fs path] MAX_SYMLINK_DEPTH_def Let_def
        walk_components_resolve [OF assms] split: option.splits)
qed

text \<open>The parent path and the name are the components without the last, and the last.\<close>

lemma lookup_parent_resolve:
  assumes "memfs_inv fs"
  shows "lookup_parent fs path =
    (if fcomps path = [] then None
     else map_option (\<lambda>p. (p, last (fcomps path))) (resolve fs 1 (butlast (fcomps path))))"
proof -
  define q where "q = trim_end_matches SLASH path"
  have fq: "fcomps path = fcomps q" by (simp add: q_def fcomps_trim_end)
  have lq: "q \<noteq> [] \<Longrightarrow> last q \<noteq> SLASH" using trim_end_last by (simp add: q_def)
  consider (empty) "q = []" | (none) "q \<noteq> []" "rfind SLASH q = None"
    | (some) k where "q \<noteq> []" "rfind SLASH q = Some k" by (cases "rfind SLASH q") auto
  then show ?thesis
  proof cases
    case empty
    then show ?thesis by (simp add: lookup_parent_def fq flip: q_def)
  next
    case none
    then have "fcomps q = [q]" by (simp add: rfind_None fcomps_single)
    moreover have "q \<noteq> [SLASH]" using none(1) lq by auto
    ultimately show ?thesis using none by (simp add: lookup_parent_def fq Let_def flip: q_def)
  next
    case some
    note k = rfind_Some [OF some(2)]
    then have split: "q = take k q @ SLASH # drop (Suc k) q" by (metis id_take_nth_drop)
    have ne: "drop (Suc k) q \<noteq> []"
      using lq some(1) k by (metis append.right_neutral drop_eq_Nil last_snoc split)
    then have "fcomps q = fcomps (take k q) @ [drop (Suc k) q]"
      using k by (subst split) (simp add: fcomps_append fcomps_single)
    moreover have "q \<noteq> [SLASH]" using some(1) lq by auto
    moreover have "fcomps (if k = 0 then [SLASH] else take k q) = fcomps (take k q)"
      by (simp add: fcomps_def)
    ultimately show ?thesis
      using some
      by (simp add: lookup_parent_def fq Let_def lookup_resolve [OF assms] map_option_case
          split: option.splits flip: q_def)
  qed
qed



section \<open>Creating an inode\<close>

text \<open>The state after hanging a new inode below a directory.\<close>

definition add_inode :: "u64 \<Rightarrow> Inode \<Rightarrow> string \<Rightarrow> InodeType \<Rightarrow> MemFileSystem \<Rightarrow> MemFileSystem" where
  "add_inode p pn nm k fs =
     fs\<lparr>next_ino := next_ino fs + 1,
        inodes := (inodes fs)(next_ino fs \<mapsto> inode_new nm k p,
                              p \<mapsto> pn\<lparr>children := children pn @ [next_ino fs]\<rparr>)\<rparr>"

lemma memfs_fresh: "memfs_inv fs \<Longrightarrow> inodes fs i = Some n \<Longrightarrow> i \<noteq> next_ino fs"
  by (auto simp: memfs_inv_def inode_ok_def)

lemma mem_create_cases:
  assumes inv: "memfs_inv fs" and cr: "mem_create path k fs = (r, fs')"
  obtains (failed) "r = None" "fs' = fs"
  | (created) p pn where "r = Some (next_ino fs)" "fs' = add_inode p pn (last (fcomps path)) k fs"
      "inodes fs p = Some pn" "kind pn = Directory" "fcomps path \<noteq> []"
      "resolve fs 1 (butlast (fcomps path)) = Some p" "resolve fs 1 (fcomps path) = None"
proof (cases "resolve fs 1 (fcomps path)")
  case (Some i)
  with cr show ?thesis by (intro failed) (simp_all add: mem_create_def lookup_resolve [OF inv])
next
  case None
  then have ne: "fcomps path \<noteq> []" by auto
  note create = mem_create_def [of path k fs, unfolded lookup_resolve [OF inv] lookup_parent_resolve [OF inv]]
  show ?thesis
  proof (cases "\<exists>p pn. resolve fs 1 (butlast (fcomps path)) = Some p \<and> inodes fs p = Some pn \<and> kind pn = Directory")
    case True
    then obtain p pn where p: "resolve fs 1 (butlast (fcomps path)) = Some p" "inodes fs p = Some pn"
      "kind pn = Directory" by blast
    have "p \<noteq> next_ino fs" using inv p(2) by (rule memfs_fresh)
    with cr None ne p show ?thesis by (intro created [of p pn]) (simp_all add: create Let_def add_inode_def)
  next
    case False
    with cr None ne show ?thesis
      by (cases "resolve fs 1 (butlast (fcomps path))"; cases "inodes fs (the (resolve fs 1 (butlast (fcomps path))))")
         (intro failed; simp add: create)+
  qed
qed

lemma lookup_child_names:
  "lookup_child fs x c = Option.bind (inodes fs x) (\<lambda>p. find (\<lambda>i. names_of fs i = Some c) (children p))"
proof -
  have "(\<lambda>i. case inodes fs i of None \<Rightarrow> False | Some n \<Rightarrow> iname n = c) = (\<lambda>i. names_of fs i = Some c)"
    by (auto simp: names_of_def split: option.splits)
  then show ?thesis by (simp add: lookup_child_def)
qed

lemma find_append: "find P (xs @ ys) = (case find P xs of None \<Rightarrow> find P ys | Some x \<Rightarrow> Some x)"
  by (induction xs) auto

text \<open>What a lookup sees after the creation.\<close>

lemma names_add_inode:
  assumes "inodes fs p = Some pn" and "p \<noteq> next_ino fs"
  shows "names_of (add_inode p pn nm k fs) i = (if i = next_ino fs then Some nm else names_of fs i)"
  using assms by (auto simp: names_of_def add_inode_def inode_new_def)

lemma add_inode_child:
  assumes inv: "memfs_inv fs" and p: "inodes fs p = Some pn"
  shows "lookup_child (add_inode p pn nm k fs) x c =
    (if x = next_ino fs then None
     else if x = p then (case lookup_child fs p c of
                           Some i \<Rightarrow> Some i
                         | None \<Rightarrow> if c = nm then Some (next_ino fs) else None)
     else lookup_child fs x c)"
proof -
  let ?fs = "add_inode p pn nm k fs" and ?new = "next_ino fs"
  have pnew: "p \<noteq> ?new" using memfs_fresh [OF inv p] .
  have find_old: "find (\<lambda>i. names_of ?fs i = Some c) (children n) = find (\<lambda>i. names_of fs i = Some c) (children n)"
    if "inodes fs y = Some n" for y n
  proof (rule find_cong [OF refl])
    fix i assume "i \<in> set (children n)"
    then have "i \<noteq> ?new"
      using memfs_invD [OF inv that] memfs_fresh [OF inv] by (fastforce simp: inode_ok_def)
    then show "names_of ?fs i = Some c \<longleftrightarrow> names_of fs i = Some c"
      by (simp add: names_add_inode [OF p pnew])
  qed
  consider (new) "x = ?new" | (par) "x = p" | (other) "x \<noteq> p" "x \<noteq> ?new" by blast
  then show ?thesis
  proof cases
    case new
    then have "inodes ?fs x = Some (inode_new nm k p)" using pnew by (auto simp: add_inode_def)
    with new show ?thesis by (simp add: lookup_child_names inode_new_def)
  next
    case par
    have "inodes ?fs p = Some (pn\<lparr>children := children pn @ [?new]\<rparr>)" by (simp add: add_inode_def)
    moreover have "children (pn\<lparr>children := children pn @ [?new]\<rparr>) = children pn @ [?new]" by simp
    ultimately have "lookup_child ?fs p c = (case find (\<lambda>i. names_of ?fs i = Some c) (children pn) of
        None \<Rightarrow> find (\<lambda>i. names_of ?fs i = Some c) [?new] | Some i \<Rightarrow> Some i)"
      by (simp only: lookup_child_names Option.bind.bind_lunit find_append)
    also have "find (\<lambda>i. names_of ?fs i = Some c) (children pn) = lookup_child fs p c"
      by (simp only: find_old [OF p] lookup_child_names p Option.bind.bind_lunit)
    also have "find (\<lambda>i. names_of ?fs i = Some c) [?new] = (if c = nm then Some ?new else None)"
      by (auto simp: names_add_inode [OF p pnew])
    finally show ?thesis
      using par pnew by (simp split: option.splits)
  next
    case other
    then have "inodes ?fs x = inodes fs x" by (simp add: add_inode_def)
    with other find_old show ?thesis by (cases "inodes fs x") (simp_all add: lookup_child_names)
  qed
qed

lemma add_inode_dom: "inodes fs p = Some pn \<Longrightarrow>
   inodes (add_inode p pn nm k fs) x = None \<longleftrightarrow> inodes fs x = None \<and> x \<noteq> next_ino fs"
  by (auto simp: add_inode_def)

lemma resolve_add_inode:
  assumes inv: "memfs_inv fs" and p: "inodes fs p = Some pn"
    and "resolve fs cur cs = Some i" and "cur \<noteq> next_ino fs"
  shows "resolve (add_inode p pn nm k fs) cur cs = Some i"
  using assms(3,4)
proof (induction cs arbitrary: cur)
  case (Cons c cs)
  let ?fs = "add_inode p pn nm k fs"
  from Cons.prems obtain n where n: "resolve_step fs cur c = Some n" "inodes fs n \<noteq> None" "resolve fs n cs = Some i"
    by (auto split: option.splits if_splits)
  have fresh: "n \<noteq> next_ino fs"
    using n(2) inv by (auto simp: memfs_inv_def inode_ok_def)
  have "resolve_step ?fs cur c = Some n"
  proof (cases "c = ''.'' \<or> c = ''..''")
    case True
    have "map_option parent (inodes ?fs cur) = map_option parent (inodes fs cur)"
      using p Cons.prems(2) by (auto simp: add_inode_def)
    with True n(1) show ?thesis
      by (cases "inodes fs cur"; cases "inodes ?fs cur") (auto simp: resolve_step_def)
  next
    case False
    with n(1) have "lookup_child fs cur c = Some n" by (simp add: resolve_step_def)
    with False Cons.prems(2) show ?thesis by (auto simp: resolve_step_def add_inode_child [OF inv p])
  qed
  moreover have "inodes ?fs n \<noteq> None" using n(2) p by (auto simp: add_inode_def)
  ultimately show ?case using Cons.IH [OF n(3) fresh] by auto
qed simp

lemma lookup_child_props:
  assumes "memfs_inv fs" and "lookup_child fs x c = Some i"
  shows "\<exists>pn n. inodes fs x = Some pn \<and> i \<in> set (children pn) \<and> inodes fs i = Some n \<and> iname n = c \<and>
    parent n = x \<and> i \<noteq> x \<and> i \<noteq> 1"
proof -
  from assms(2) obtain pn where pn: "inodes fs x = Some pn" "find (\<lambda>i. names_of fs i = Some c) (children pn) = Some i"
    by (auto simp: lookup_child_names bind_eq_Some_conv)
  then have i: "i \<in> set (children pn)" "names_of fs i = Some c" by (auto simp: find_Some_iff)
  note ok = memfs_invD [OF assms(1) pn(1)]
  from ok i(1) obtain n where n: "inodes fs i = Some n" "parent n = x" unfolding inode_ok_def by blast
  note okn = memfs_invD [OF assms(1) n(1)]
  have "x \<noteq> 0" using ok by (simp add: inode_ok_def)
  with okn n(2) have i1: "i \<noteq> 1" by (auto simp: inode_ok_def)
  with okn n(2) have "i \<noteq> x" by (auto simp: inode_ok_def)
  with pn(1) i n i1 show ?thesis by (auto simp: names_of_def)
qed

text \<open>Creation keeps the tree, as long as the inode counter does not wrap.\<close>

lemma memfs_inv_add_inode:
  assumes inv: "memfs_inv fs" and p: "inodes fs p = Some pn" "kind pn = Directory"
    and nm: "lookup_child fs p nm = None" and wrap: "next_ino fs < - 1"
  shows "memfs_inv (add_inode p pn nm k fs)"
proof -
  let ?fs = "add_inode p pn nm k fs" and ?new = "next_ino fs"
  have pnew: "p \<noteq> ?new" using memfs_fresh [OF inv p(1)] .
  have succ: "?new < ?new + 1" using wrap by (simp add: word_less_nat_alt unat_word_ariths unat_neg_one)
  note okp = memfs_invD [OF inv p(1)]
  have new0: "?new \<noteq> 0" "?new \<noteq> 1" "p < ?new"
    using okp inv by (auto simp: memfs_inv_def inode_ok_def)
  have names: "names_of ?fs i = (if i = ?new then Some nm else names_of fs i)" for i
    by (rule names_add_inode [OF p(1) pnew])
  have old: "i \<noteq> ?new \<Longrightarrow> i \<noteq> p \<Longrightarrow> inodes ?fs i = inodes fs i" for i by (simp add: add_inode_def)
  have ip: "inodes ?fs p = Some (pn\<lparr>children := children pn @ [?new]\<rparr>)"
    and inew: "inodes ?fs ?new = Some (inode_new nm k p)"
    using pnew by (simp_all add: add_inode_def)
  have nx: "next_ino ?fs = ?new + 1" by (simp add: add_inode_def)
  have chold: "c \<noteq> ?new" if "inodes fs i = Some n" "c \<in> set (children n)" for i n c
    using memfs_invD [OF inv that(1)] that(2) memfs_fresh [OF inv] by (fastforce simp: inode_ok_def)
  have keep: "\<exists>m. inodes ?fs c = Some m \<and> parent m = i" if "inodes fs c = Some m" "parent m = i" for c m i
    using that p(1) ip old [of c] memfs_fresh [OF inv that(1)] by (cases "c = p") auto
  have keepp: "\<exists>q. inodes ?fs j = Some q \<and> kind q = Directory \<and> i \<in> set (children q)"
    if "inodes fs j = Some q" "kind q = Directory" "i \<in> set (children q)" for i j q
    using that p(1) ip old [of j] memfs_fresh [OF inv that(1)] by (cases "j = p") auto
  have nmnew: "names_of fs c \<noteq> Some nm" if "c \<in> set (children pn)" for c
    using nm p(1) that by (auto simp: lookup_child_names find_None_iff)
  have uniq: "c = d" if "inodes fs i = Some n" "c \<in> set (children n)" "d \<in> set (children n)"
      "names_of fs c = names_of fs d" for i n c d
    using memfs_invD [OF inv that(1)] that(2-) unfolding inode_ok_def by blast
  have up: "if i = 1 then kind n = Directory \<and> parent n = 0
      else parent n < i \<and> (\<exists>q. inodes ?fs (parent n) = Some q \<and> kind q = Directory \<and> i \<in> set (children q))"
    if "inodes fs i = Some n" for i n
    using memfs_invD [OF inv that] keepp unfolding inode_ok_def by (auto split: if_splits)
  have down: "\<forall>c \<in> set (children n). \<exists>m. inodes ?fs c = Some m \<and> parent m = i"
    if "inodes fs i = Some n" for i n
    using memfs_invD [OF inv that] keep unfolding inode_ok_def by blast
  have basic: "i \<noteq> 0 \<and> i < ?new + 1 \<and> target n = None \<and> isize n = of_nat (length (idata n)) \<and>
      distinct (children n) \<and> (children n \<noteq> [] \<longrightarrow> kind n = Directory)" if "inodes fs i = Some n" for i n
    using memfs_invD [OF inv that] succ unfolding inode_ok_def by (auto dest: less_trans)
  have "inode_ok ?fs i n" if i: "inodes ?fs i = Some n" for i n
  proof -
    consider (new) "i = ?new" | (par) "i = p" | (other) "inodes fs i = Some n" "i \<noteq> p"
      using i old by fastforce
    then show ?thesis
    proof cases
      case new
      with i inew have n: "n = inode_new nm k p" by simp
      show ?thesis
        unfolding inode_ok_def n nx new using new0 succ ip p(2) by (simp add: inode_new_def)
    next
      case par
      with i ip have n: "n = pn\<lparr>children := children pn @ [?new]\<rparr>" by simp
      have "?new \<notin> set (children pn)" using chold [OF p(1)] by blast
      moreover have "\<exists>m. inodes ?fs ?new = Some m \<and> parent m = p" using inew by (simp add: inode_new_def)
      moreover have "\<forall>c \<in> set (children pn). names_of ?fs c \<noteq> Some nm"
        using nmnew chold [OF p(1)] by (simp add: names)
      ultimately show ?thesis
        unfolding inode_ok_def n nx par using basic [OF p(1)] up [OF p(1)] down [OF p(1)] p(2) chold [OF p(1)]
        by (auto simp: names intro: uniq [OF p(1)])
    next
      case other
      show ?thesis
        unfolding inode_ok_def nx
        using basic [OF other(1)] up [OF other(1)] down [OF other(1)] chold [OF other(1)]
        by (auto simp: names intro: uniq [OF other(1)])
    qed
  qed
  moreover have "1 \<in> dom (inodes ?fs)" using inv by (auto simp: memfs_inv_def add_inode_def)
  ultimately show ?thesis by (simp add: memfs_inv_def)
qed



section \<open>Removing an inode\<close>

definition del_inode :: "u64 \<Rightarrow> Inode \<Rightarrow> u64 \<Rightarrow> MemFileSystem \<Rightarrow> MemFileSystem" where
  "del_inode p pn c fs =
     fs\<lparr>inodes := (inodes fs)(p \<mapsto> pn\<lparr>children := filter (\<lambda>x. x \<noteq> c) (children pn)\<rparr>, c := None)\<rparr>"

lemma mem_unlink_cases:
  assumes inv: "memfs_inv fs" and un: "mem_unlink path fs = (r, fs')"
  obtains (failed) e where "r = Inl e" "fs' = fs"
  | (removed) p pn c cn where "r = Inr ()" "fs' = del_inode p pn c fs" "fcomps path \<noteq> []"
      "resolve fs 1 (butlast (fcomps path)) = Some p" "lookup_child fs p (last (fcomps path)) = Some c"
      "inodes fs p = Some pn" "inodes fs c = Some cn" "children cn = []"
proof -
  have fin: thesis if "mem_unlink path fs = (Inl e, fs)" for e
  proof (rule failed)
    from that un have "(r, fs') = (Inl e, fs)" by (rule trans [OF sym, rotated])
    then show "r = Inl e" "fs' = fs" by simp_all
  qed
  show thesis
  proof (cases "lookup_parent fs path")
    case None
    then have "mem_unlink path fs = (Inl FileNotFound, fs)" by (simp add: mem_unlink_def)
    then show ?thesis by (rule fin)
  next
    case (Some pnm)
    then obtain p where p: "pnm = (p, last (fcomps path))" "fcomps path \<noteq> []"
      "resolve fs 1 (butlast (fcomps path)) = Some p"
      by (auto simp: lookup_parent_resolve [OF inv] split: if_splits)
    show ?thesis
    proof (cases "lookup_child fs p (last (fcomps path))")
      case None
      with Some p(1) have "mem_unlink path fs = (Inl FileNotFound, fs)" by (simp add: mem_unlink_def)
      then show ?thesis by (rule fin)
    next
      case c: (Some c)
      from lookup_child_props [OF inv c] obtain pn cn where pc: "inodes fs p = Some pn" "inodes fs c = Some cn"
        "c \<in> set (children pn)" by blast
      show ?thesis
      proof (cases "kind cn = Directory \<and> children cn \<noteq> []")
        case True
        then have "mem_unlink path fs = (Inl DirectoryNotEmpty, fs)"
          using Some p(1) c pc by (simp add: mem_unlink_def)
        then show ?thesis by (rule fin)
      next
        case False
        then have ch: "children cn = []" using memfs_invD [OF inv pc(2)] unfolding inode_ok_def by blast
        have "mem_unlink path fs = (Inr (), del_inode p pn c fs)"
          using Some p(1) c pc ch by (simp add: mem_unlink_def del_inode_def)
        with un have "r = Inr ()" "fs' = del_inode p pn c fs" by simp_all
        then show ?thesis using p(2,3) c pc(1,2) ch by (rule removed)
      qed
    qed
  qed
qed

lemma memfs_inv_del_inode:
  assumes inv: "memfs_inv fs" and p: "inodes fs p = Some pn" and c: "inodes fs c = Some cn" "children cn = []"
    and child: "c \<in> set (children pn)"
  shows "memfs_inv (del_inode p pn c fs)"
proof -
  let ?fs = "del_inode p pn c fs"
  have pc: "parent cn = p" using memfs_invD [OF inv p] child c by (auto simp: inode_ok_def)
  have p0: "p \<noteq> 0" using memfs_invD [OF inv p] by (simp add: inode_ok_def)
  then have c1: "c \<noteq> 1" "p \<noteq> c"
    using memfs_invD [OF inv c(1)] pc by (auto simp: inode_ok_def split: if_splits)
  have ip: "inodes ?fs p = Some (pn\<lparr>children := filter (\<lambda>x. x \<noteq> c) (children pn)\<rparr>)"
    and ic: "inodes ?fs c = None" and other: "i \<noteq> p \<Longrightarrow> i \<noteq> c \<Longrightarrow> inodes ?fs i = inodes fs i" for i
    using c1 by (simp_all add: del_inode_def)
  have nx: "next_ino ?fs = next_ino fs" by (simp add: del_inode_def)
  have names: "i \<noteq> c \<Longrightarrow> names_of ?fs i = names_of fs i" for i
    using p ip other by (cases "i = p") (auto simp: names_of_def)
  have keep: "\<exists>m. inodes ?fs x = Some m \<and> parent m = i" if "inodes fs x = Some m" "parent m = i" "x \<noteq> c" for x m i
    using that p ip other [of x] by (cases "x = p") auto
  have keepp: "\<exists>q. inodes ?fs j = Some q \<and> kind q = Directory \<and> i \<in> set (children q)"
    if "inodes fs j = Some q" "kind q = Directory" "i \<in> set (children q)" "i \<noteq> c" for i j q
    using that p ip other [of j] c by (cases "j = p"; cases "j = c") auto
  have notc: "c \<notin> set (children n)" if "inodes fs i = Some n" "i \<noteq> p" for i n
    using memfs_invD [OF inv that(1)] that(2) c pc by (auto simp: inode_ok_def)
  have up: "if i = 1 then kind n = Directory \<and> parent n = 0
      else parent n < i \<and> (\<exists>q. inodes ?fs (parent n) = Some q \<and> kind q = Directory \<and> i \<in> set (children q))"
    if "inodes fs i = Some n" "i \<noteq> c" for i n
    using memfs_invD [OF inv that(1)] that(2) keepp unfolding inode_ok_def by (auto split: if_splits)
  have down: "\<forall>x \<in> set (children n) - {c}. \<exists>m. inodes ?fs x = Some m \<and> parent m = i"
    if "inodes fs i = Some n" for i n
    using memfs_invD [OF inv that] keep unfolding inode_ok_def by blast
  have uniq: "x = d" if "inodes fs i = Some n" "x \<in> set (children n)" "d \<in> set (children n)"
      "names_of fs x = names_of fs d" for i n x d
    using memfs_invD [OF inv that(1)] that(2-) unfolding inode_ok_def by blast
  have ok: "inode_ok ?fs i m" if i: "inodes fs i = Some n" "i \<noteq> c"
    and m: "m = n\<lparr>children := filter (\<lambda>x. x \<noteq> c) (children n)\<rparr>" for i n m
  proof -
    have "i \<noteq> 0 \<and> i < next_ino fs \<and> target n = None \<and> isize n = of_nat (length (idata n)) \<and>
      distinct (children n) \<and> (children n \<noteq> [] \<longrightarrow> kind n = Directory)"
      using memfs_invD [OF inv i(1)] unfolding inode_ok_def by blast
    moreover have "\<forall>x \<in> set (children m). \<forall>d \<in> set (children m). names_of ?fs x = names_of ?fs d \<longrightarrow> x = d"
      using uniq [OF i(1)] by (simp add: m names)
    moreover have "\<forall>x \<in> set (children m). \<exists>k. inodes ?fs x = Some k \<and> parent k = i"
      using down [OF i(1)] by (simp add: m)
    moreover have "distinct (children m)" if "distinct (children n)" using that by (simp add: m)
    moreover have "children m \<noteq> [] \<longrightarrow> children n \<noteq> []" by (auto simp: m)
    moreover have "target m = target n" "isize m = isize n" "idata m = idata n" "kind m = kind n" "parent m = parent n"
      by (simp_all add: m)
    ultimately show ?thesis
      unfolding inode_ok_def nx using up [OF i] by (simp only: simp_thms) blast
  qed
  have same: "n\<lparr>children := filter (\<lambda>x. x \<noteq> c) (children n)\<rparr> = n" if "c \<notin> set (children n)" for n
  proof -
    have "filter (\<lambda>x. x \<noteq> c) (children n) = children n" using that by (intro filter_True) auto
    then show ?thesis by simp
  qed
  have "inode_ok ?fs i m" if "inodes ?fs i = Some m" for i m
  proof (cases "i = p")
    case True
    with that ip have m: "m = pn\<lparr>children := filter (\<lambda>x. x \<noteq> c) (children pn)\<rparr>" by simp
    have "inode_ok ?fs p m" by (rule ok [OF p c1(2) m])
    with True show ?thesis by simp
  next
    case False
    with that ic other have i: "inodes fs i = Some m" "i \<noteq> c" by (cases "i = c"; simp)+
    from ok [OF i refl] same [OF notc [OF i(1) False]] show ?thesis by simp
  qed
  moreover have "1 \<in> dom (inodes ?fs)"
    using inv ip c1(1) other [of 1] by (cases "p = 1") (auto simp: memfs_inv_def)
  ultimately show ?thesis by (simp add: memfs_inv_def)
qed

lemma find_filter_neq:
  "find P xs \<noteq> Some c \<Longrightarrow> find P (filter (\<lambda>i. i \<noteq> c) xs) = find P xs"
  by (induction xs) auto

lemma del_inode_child:
  assumes inv: "memfs_inv fs" and p: "inodes fs p = Some pn" and c: "inodes fs c = Some cn" "children cn = []"
    and child: "c \<in> set (children pn)"
  shows "lookup_child (del_inode p pn c fs) x nm =
    (if lookup_child fs x nm = Some c then None else lookup_child fs x nm)"
proof -
  let ?fs = "del_inode p pn c fs" and ?P = "\<lambda>i. names_of fs i = Some nm"
  from memfs_invD [OF inv p] child c have pc: "parent cn = p" by (auto simp: inode_ok_def)
  have p0: "p \<noteq> 0" using memfs_invD [OF inv p] by (simp add: inode_ok_def)
  then have neq: "p \<noteq> c"
    using memfs_invD [OF inv c(1)] pc by (auto simp: inode_ok_def split: if_splits)
  have names: "i \<noteq> c \<Longrightarrow> names_of ?fs i = names_of fs i" for i
    using p by (auto simp: names_of_def del_inode_def)
  have find_del: "find (\<lambda>i. names_of ?fs i = Some nm) cs = find ?P cs" if "c \<notin> set cs" for cs
    using that by (intro find_cong refl) (metis names)
  consider (c) "x = c" | (p) "x = p" | (other) "x \<noteq> c" "x \<noteq> p" by blast
  then show ?thesis
  proof cases
    case c
    with assms(3,4) show ?thesis by (simp add: lookup_child_names del_inode_def)
  next
    case p
    have "inodes ?fs p = Some (pn\<lparr>children := filter (\<lambda>i. i \<noteq> c) (children pn)\<rparr>)"
      using neq by (simp add: del_inode_def)
    then have "lookup_child ?fs p nm = find ?P (filter (\<lambda>i. i \<noteq> c) (children pn))"
      by (simp add: lookup_child_names find_del)
    moreover have "d = c" if "find ?P (children pn) = Some c" "d \<in> set (children pn)" "?P d" for d
      using memfs_invD [OF inv assms(2)] child that by (auto simp: inode_ok_def find_Some_iff)
    ultimately show ?thesis
      using p assms(2) by (auto simp: lookup_child_names find_filter_neq find_None_iff)
  next
    case other
    then have eq: "inodes ?fs x = inodes fs x" by (simp add: del_inode_def)
    have "c \<notin> set (children n)" if "inodes fs x = Some n" for n
      using memfs_invD [OF inv that] other(2) c pc by (auto simp: inode_ok_def)
    then show ?thesis
      by (cases "inodes fs x") (auto simp: lookup_child_names eq find_del find_Some_iff)
  qed
qed

text \<open>
  A path of ordinary names leads where it led before, unless it led to the removed inode, which
  had no children.
\<close>

lemma resolve_del_inode:
  assumes inv: "memfs_inv fs" and p: "inodes fs p = Some pn" and c: "inodes fs c = Some cn" "children cn = []"
    and child: "c \<in> set (children pn)" and clean: "\<forall>x \<in> set cs. x \<noteq> ''.'' \<and> x \<noteq> ''..''" and "cur \<noteq> c"
  shows "resolve (del_inode p pn c fs) cur cs = (if resolve fs cur cs = Some c then None else resolve fs cur cs)"
  using clean \<open>cur \<noteq> c\<close>
proof (induction cs arbitrary: cur)
  case Nil
  then show ?case by simp
next
  case (Cons x cs)
  let ?fs = "del_inode p pn c fs"
  note del = del_inode_child [OF inv p c child, of cur x]
  have step: "resolve_step f cur x = lookup_child f cur x" for f
    using Cons.prems(1) by (simp add: resolve_step_def)
  have nodes: "inodes ?fs i = None \<longleftrightarrow> inodes fs i = None \<or> i = c" for i
    using p by (auto simp: del_inode_def)
  consider (none) "lookup_child fs cur x = None" | (c) "lookup_child fs cur x = Some c"
    | (other) n where "lookup_child fs cur x = Some n" "n \<noteq> c" by (cases "lookup_child fs cur x") auto
  then show ?case
  proof cases
    case none
    then show ?thesis using del by (simp add: step)
  next
    case c
    then have "resolve fs c cs \<noteq> None \<Longrightarrow> cs = []"
      using assms(3,4) Cons.prems(1)
      by (cases cs) (auto simp: resolve_step_def lookup_child_names)
    moreover have "resolve fs cur (x # cs) = resolve fs c cs" using c assms(3) by (simp add: step)
    ultimately have "resolve fs cur (x # cs) = None \<or> resolve fs cur (x # cs) = Some c"
      by (cases "resolve fs c cs = None") simp_all
    with c del show ?thesis by (auto simp: step)
  next
    case other
    with del Cons.IH [of n] Cons.prems(1) nodes show ?thesis by (simp add: step)
  qed
qed


section \<open>Histories\<close>

lemma memfs_inv_same:
  "memfs_inv fs \<Longrightarrow> inodes fs' = inodes fs \<Longrightarrow> next_ino fs' = next_ino fs \<Longrightarrow> memfs_inv fs'"
  by (simp add: memfs_inv_def inode_ok_def names_of_def)

lemma memfs_inv_write:
  assumes inv: "memfs_inv fs" and i: "inodes fs i = Some n"
    and fs': "inodes fs' = (inodes fs)(i \<mapsto> n\<lparr>idata := d, isize := of_nat (length d)\<rparr>)" "next_ino fs' = next_ino fs"
  shows "memfs_inv fs'"
proof -
  have names: "names_of fs' j = names_of fs j" for j using i fs' by (simp add: names_of_def)
  have keep: "\<exists>m. inodes fs' x = Some m \<and> parent m = j" if "inodes fs x = Some m" "parent m = j" for x m j
    using that i fs' by (cases "x = i") auto
  have keepp: "\<exists>q. inodes fs' j = Some q \<and> kind q = Directory \<and> k \<in> set (children q)"
    if "inodes fs j = Some q" "kind q = Directory" "k \<in> set (children q)" for j k q
    using that i fs' by (cases "j = i") auto
  have ok: "inode_ok fs' j m" if j: "inodes fs j = Some m0" and m: "children m = children m0" "kind m = kind m0"
      "parent m = parent m0" "target m = target m0" "isize m = of_nat (length (idata m))" for j m m0
  proof -
    note o = memfs_invD [OF inv j, unfolded inode_ok_def]
    have "\<forall>c \<in> set (children m). \<exists>k. inodes fs' c = Some k \<and> parent k = j" using o keep m(1) by metis
    moreover have "if j = 1 then kind m = Directory \<and> parent m = 0
      else parent m < j \<and> (\<exists>p. inodes fs' (parent m) = Some p \<and> kind p = Directory \<and> j \<in> set (children p))"
      using o keepp m(2,3) by (auto split: if_splits)
    ultimately show ?thesis
      using o m unfolding inode_ok_def names fs'(2) by simp
  qed
  have "inode_ok fs' j m" if "inodes fs' j = Some m" for j m
  proof (cases "j = i")
    case True
    with that fs' have m: "m = n\<lparr>idata := d, isize := of_nat (length d)\<rparr>" by simp
    show ?thesis unfolding True by (rule ok [OF i]) (simp_all add: m)
  next
    case False
    with that fs' have "inodes fs j = Some m" by simp
    then show ?thesis using memfs_invD [OF inv] by (intro ok) (auto simp: inode_ok_def)
  qed
  moreover have "1 \<in> dom (inodes fs')" using inv fs' by (auto simp: memfs_inv_def)
  ultimately show ?thesis by (simp add: memfs_inv_def)
qed

inductive memfs_step :: "MemFileSystem \<Rightarrow> MemFileSystem \<Rightarrow> bool" where
  opened: "memfs_step fs (snd (mem_open path flags fs))"
| read: "memfs_step fs (snd (mem_read fd n fs))"
| wrote: "memfs_step fs (snd (mem_write fd data fs))"
| close: "memfs_step fs (snd (mem_close fd fs))"
| seek: "memfs_step fs (snd (mem_seek fd pos fs))"
| create: "next_ino fs < - 1 \<Longrightarrow> memfs_step fs (snd (mem_create path k fs))"
| mkdir: "next_ino fs < - 1 \<Longrightarrow> memfs_step fs (snd (mem_mkdir path fs))"
| unlink: "memfs_step fs (snd (mem_unlink path fs))"

inductive memfs_reachable :: "MemFileSystem \<Rightarrow> bool" where
  new: "memfs_reachable mem_new"
| step: "memfs_reachable fs \<Longrightarrow> memfs_step fs fs' \<Longrightarrow> memfs_reachable fs'"

lemma create_name_free:
  assumes inv: "memfs_inv fs" and ne: "fcomps path \<noteq> []"
    and par: "resolve fs 1 (butlast (fcomps path)) = Some p" "inodes fs p = Some pn"
    and none: "resolve fs 1 (fcomps path) = None"
  shows "lookup_child fs p (last (fcomps path)) = None \<and> last (fcomps path) \<noteq> ''.'' \<and> last (fcomps path) \<noteq> ''..''"
proof -
  have "resolve fs 1 (fcomps path) = resolve fs p [last (fcomps path)]"
    using resolve_append [of fs 1 "butlast (fcomps path)" "[last (fcomps path)]"] ne par(1) by simp
  with none have n: "resolve fs p [last (fcomps path)] = None" by simp
  note o = memfs_invD [OF inv par(2)]
  have "last (fcomps path) \<noteq> ''..''"
  proof
    assume dd: "last (fcomps path) = ''..''"
    have "\<exists>q. inodes fs (if parent pn = 0 then 1 else parent pn) = Some q"
      using o inv by (auto simp: inode_ok_def memfs_inv_def split: if_splits)
    with n dd par(2) show False by (auto simp: resolve_step_def)
  qed
  moreover have "last (fcomps path) \<noteq> ''.''" using n par(2) by (auto simp: resolve_step_def)
  moreover have "lookup_child fs p (last (fcomps path)) = None"
  proof (cases "lookup_child fs p (last (fcomps path))")
    case (Some i)
    with lookup_child_props [OF inv Some] n calculation show ?thesis by (auto simp: resolve_step_def)
  qed
  ultimately show ?thesis by blast
qed

lemma memfs_inv_create:
  assumes "memfs_inv fs" and "next_ino fs < - 1"
  shows "memfs_inv (snd (mem_create path k fs))"
proof -
  obtain r fs' where cr: "mem_create path k fs = (r, fs')" by (cases "mem_create path k fs")
  from assms(1) cr show ?thesis
  proof (cases rule: mem_create_cases)
    case failed
    with assms(1) cr show ?thesis by simp
  next
    case (created p pn)
    then have "lookup_child fs p (last (fcomps path)) = None" using create_name_free assms(1) by blast
    with created cr assms show ?thesis by (simp add: memfs_inv_add_inode)
  qed
qed

lemma memfs_step_inv: "memfs_step fs fs' \<Longrightarrow> memfs_inv fs \<Longrightarrow> memfs_inv fs'"
proof (induction rule: memfs_step.induct)
  case (opened fs path flags)
  then show ?case by (auto simp: mem_open_def Let_def elim!: memfs_inv_same split: option.splits)
next
  case (read fs fd n)
  then show ?case
    by (auto simp: mem_read_def Let_def elim!: memfs_inv_same split: option.splits)
next
  case (wrote fs fd data)
  then show ?case
    by (auto simp: mem_write_def Let_def split: option.splits elim!: memfs_inv_write)
next
  case (close fs fd)
  then show ?case by (auto simp: mem_close_def elim!: memfs_inv_same split: option.splits)
next
  case (seek fs fd pos)
  then show ?case by (auto simp: mem_seek_def elim!: memfs_inv_same split: option.splits)
next
  case (create fs path k)
  then show ?case by (rule_tac memfs_inv_create)
next
  case (mkdir fs path)
  then show ?case
    using memfs_inv_create [of fs path Directory]
    by (auto simp: mem_mkdir_def split: option.splits prod.splits)
next
  case (unlink fs path)
  obtain r fs' where un: "mem_unlink path fs = (r, fs')" by (cases "mem_unlink path fs")
  from unlink un show ?case
  proof (cases rule: mem_unlink_cases)
    case (removed p pn c cn)
    from lookup_child_props [OF unlink removed(5)] removed(6) have "c \<in> set (children pn)" by auto
    with removed unlink un show ?thesis by (simp add: memfs_inv_del_inode)
  qed (use unlink un in simp)
qed

lemma memfs_reachable_inv: "memfs_reachable fs \<Longrightarrow> memfs_inv fs"
  by (induction rule: memfs_reachable.induct) (auto intro: memfs_inv_new memfs_step_inv)



section \<open>Properties\<close>

text \<open>
  C6. After any history of calls the inodes form a tree rooted at inode 1: every child names its
  parent and every inode is listed by its parent, only directories have children, siblings have
  different names, and each size is the length of the data. The inode counter must not wrap, which
  takes \<open>2 ^ 64\<close> creations.
\<close>

theorem memfs_tree:
  assumes "memfs_reachable fs"
  shows "memfs_inv fs"
  using assms by (rule memfs_reachable_inv)

theorem memfs_tree_witness:
  "memfs_inv (snd (mem_create ''/d/f'' File (snd (mem_mkdir ''/d'' mem_new))))"
proof (rule memfs_tree)
  have "memfs_reachable (snd (mem_mkdir ''/d'' mem_new))"
    by (rule memfs_reachable.step [OF memfs_reachable.new memfs_step.mkdir])
       (simp add: mem_new_def word_less_nat_alt unat_neg_one)
  moreover have "next_ino (snd (mem_mkdir ''/d'' mem_new)) = 3 \<or> next_ino (snd (mem_mkdir ''/d'' mem_new)) = 2"
    by (simp add: mem_mkdir_def mem_create_def mem_new_def Let_def split: option.splits)
  then have "next_ino (snd (mem_mkdir ''/d'' mem_new)) < - 1"
    by (auto simp: word_less_nat_alt unat_neg_one)
  ultimately show "memfs_reachable (snd (mem_create ''/d/f'' File (snd (mem_mkdir ''/d'' mem_new))))"
    by (rule memfs_reachable.step [OF _ memfs_step.create])
qed

text \<open>
  C20. A created path resolves to the new inode, which is empty and of the requested kind, and every
  path that resolved before resolves to the same inode; when creation fails nothing changes.
\<close>

theorem create_then_lookup:
  assumes "memfs_reachable fs" and "next_ino fs < - 1" and "mem_create path k fs = (r, fs')"
  shows "case r of
      None \<Rightarrow> fs' = fs
    | Some ino \<Rightarrow> lookup fs path = None \<and> lookup fs' path = Some ino \<and>
        map_option (\<lambda>n. (kind n, idata n)) (inodes fs' ino) = Some (k, []) \<and>
        (\<forall>q i. lookup fs q = Some i \<longrightarrow> lookup fs' q = Some i)"
proof -
  have inv: "memfs_inv fs" using assms(1) by (rule memfs_reachable_inv)
  then have inv': "memfs_inv fs'" using memfs_inv_create [OF inv assms(2), of path k] assms(3) by simp
  obtain rn where "inodes fs 1 = Some rn" using inv by (auto simp: memfs_inv_def)
  then have root: "1 \<noteq> next_ino fs" by (rule memfs_fresh [OF inv])
  from inv assms(3) show ?thesis
  proof (cases rule: mem_create_cases)
    case failed
    then show ?thesis by simp
  next
    case (created p pn)
    note free = create_name_free [OF inv created(5,6,3,7)]
    have pnew: "p \<noteq> next_ino fs" using memfs_fresh [OF inv created(3)] .
    have keep: "resolve fs 1 cs = Some i \<Longrightarrow> resolve fs' 1 cs = Some i" for cs i
      using resolve_add_inode [OF inv created(3)] root created(2) by blast
    have new: "inodes fs' (next_ino fs) = Some (inode_new (last (fcomps path)) k p)"
      using pnew by (simp add: created(2) add_inode_def)
    have "resolve fs' 1 (fcomps path) = resolve fs' p [last (fcomps path)]"
      using resolve_append [of fs' 1 "butlast (fcomps path)" "[last (fcomps path)]"] created(5) keep [OF created(6)]
      by simp
    also have "\<dots> = Some (next_ino fs)"
      using free pnew new by (simp add: resolve_step_def created(2) add_inode_child [OF inv created(3)])
    finally show ?thesis
      using created(1,7) new keep by (simp add: lookup_resolve [OF inv] lookup_resolve [OF inv'] inode_new_def)
  qed
qed

lemma mem_new_wrap: "next_ino mem_new < - 1"
  by (simp add: mem_new_def word_less_nat_alt unat_neg_one)

lemma create_f:
  "mem_create ''f'' File mem_new =
     (Some 2, add_inode 1 (inode_new [] Directory 0) ''f'' File mem_new)"
proof -
  have c: "fcomps ''f'' = [''f'']" by (simp add: fcomps_def)
  have "lookup_child mem_new 1 ''f'' = None" by (simp add: lookup_child_def mem_new_def inode_new_def)
  then have "lookup mem_new ''f'' = None" "lookup_parent mem_new ''f'' = Some (1, ''f'')"
    by (simp_all add: lookup_resolve [OF memfs_inv_new] lookup_parent_resolve [OF memfs_inv_new] c resolve_step_def)
  then show ?thesis by (simp add: mem_create_def Let_def mem_new_def add_inode_def inode_new_def)
qed

theorem create_then_lookup_witness:
  "\<exists>fs'. mem_create ''f'' File mem_new = (Some 2, fs') \<and> lookup fs' ''f'' = Some 2"
  using create_then_lookup [OF memfs_reachable.new mem_new_wrap create_f] create_f by simp

definition plain :: "string \<Rightarrow> bool" where
  "plain q \<longleftrightarrow> list_all (\<lambda>c. c \<noteq> ''.'' \<and> c \<noteq> ''..'') (fcomps q)"


lemma mem_f_reachable:
  "memfs_reachable (add_inode 1 (inode_new [] Directory 0) ''f'' File mem_new)"
  using memfs_reachable.step [OF memfs_reachable.new memfs_step.create [OF mem_new_wrap, of "''f''" File]]
  by (simp add: create_f)


lemma length_overwrite_at: "length (overwrite_at off data old) = max (length old) (off + length data)"
  by (auto simp: overwrite_at_def Let_def max_def)

lemma overwrite_at_read: "take (length data) (drop off (overwrite_at off data old)) = data"
  by (auto simp: overwrite_at_def Let_def)

lemma overwrite_at_outside:
  "j < length old \<Longrightarrow> j < off \<or> off + length data \<le> j \<Longrightarrow> overwrite_at off data old ! j = old ! j"
  by (auto simp: overwrite_at_def Let_def nth_append min_def)

text \<open>
  C22. What is written is read back. Writing through a descriptor of a file succeeds as long as the
  end offset fits 64 bits; seeking back to the old offset and reading the same number of bytes
  returns the data; the other bytes of the file keep their values; and the file has the length the
  write reaches, or its old length if that is greater.
\<close>

theorem write_seek_read:
  assumes "fds fs fd = Some desc" and "inodes fs (fd_ino desc) = Some n" and "kind n = File"
    and "unat (fd_offset desc) + length data < 2 ^ 64"
  shows "\<exists>fs1 fs2 n1. mem_write fd data fs = (Inr (length data), fs1) \<and>
     mem_seek fd (fd_offset desc) fs1 = (Inr (), fs2) \<and>
     fst (mem_read fd (length data) fs2) = Inr data \<and>
     inodes fs1 (fd_ino desc) = Some n1 \<and>
     length (idata n1) = max (length (idata n)) (unat (fd_offset desc) + length data) \<and>
     (\<forall>j < length (idata n). j < unat (fd_offset desc) \<or> unat (fd_offset desc) + length data \<le> j \<longrightarrow>
        idata n1 ! j = idata n ! j)"
proof -
  let ?off = "unat (fd_offset desc)" and ?d = "overwrite_at (unat (fd_offset desc)) data (idata n)"
  let ?n1 = "n\<lparr>idata := ?d, isize := of_nat (length ?d)\<rparr>"
  have "unat (of_nat (length data) :: u64) = length data" using assms(4) by (simp add: unat_of_nat)
  then obtain o' where o': "checked_add (fd_offset desc) (of_nat (length data)) = Some o'"
    using assms(4) by (simp add: checked_add_def)
  define fs1 where "fs1 = fs\<lparr>inodes := (inodes fs)(fd_ino desc \<mapsto> ?n1), fds := (fds fs)(fd \<mapsto> desc\<lparr>fd_offset := o'\<rparr>)\<rparr>"
  define fs2 where "fs2 = fs1\<lparr>fds := (fds fs1)(fd \<mapsto> desc)\<rparr>"
  have w: "mem_write fd data fs = (Inr (length data), fs1)"
    using assms o' by (simp add: mem_write_def Let_def fs1_def)
  have sk: "mem_seek fd (fd_offset desc) fs1 = (Inr (), fs2)"
    by (simp add: mem_seek_def fs1_def fs2_def)
  have n1: "inodes fs1 (fd_ino desc) = Some ?n1" by (simp add: fs1_def)
  have rd: "fst (mem_read fd (length data) fs2) = Inr data"
  proof (cases "data = []")
    case True
    with assms(3,4) show ?thesis
      by (simp add: mem_read_def fs2_def fs1_def Let_def checked_add_def)
  next
    case False
    then have "\<not> length ?d \<le> ?off" and m: "min (length ?d - ?off) (length data) = length data"
      by (auto simp: length_overwrite_at)
    with assms(3) o' show ?thesis
      by (simp add: mem_read_def fs2_def fs1_def Let_def overwrite_at_read)
  qed
  have "\<forall>j < length (idata n). j < ?off \<or> ?off + length data \<le> j \<longrightarrow> idata ?n1 ! j = idata n ! j"
    using overwrite_at_outside by simp
  moreover have "length (idata ?n1) = max (length (idata n)) (?off + length data)" by (simp add: length_overwrite_at)
  ultimately show ?thesis using w sk n1 rd by blast
qed

theorem write_seek_read_witness:
  "let desc = \<lparr>fd_no = 0, fd_ino = 2, fd_offset = 1, fd_flags = 0\<rparr>;
       n = \<lparr>iname = ''f'', kind = File, idata = [7, 8, 9], children = [], parent = 1, target = None, isize = 3\<rparr>;
       fs = \<lparr>inodes = [2 \<mapsto> n], next_ino = 3, fds = [0 \<mapsto> desc], next_fd = 1\<rparr>
   in \<exists>fs1 fs2. mem_write 0 [5] fs = (Inr 1, fs1) \<and> mem_seek 0 1 fs1 = (Inr (), fs2) \<and>
        fst (mem_read 0 1 fs2) = Inr [5]"
proof -
  let ?desc = "\<lparr>fd_no = 0, fd_ino = 2, fd_offset = 1, fd_flags = 0\<rparr>"
  let ?n = "\<lparr>iname = ''f'', kind = File, idata = [7, 8, 9], children = [], parent = 1, target = None, isize = 3\<rparr>"
  let ?fs = "\<lparr>inodes = [2 \<mapsto> ?n], next_ino = 3, fds = [0 \<mapsto> ?desc], next_fd = 1\<rparr>"
  show ?thesis
    using write_seek_read [of ?fs 0 ?desc ?n "[5]"] by (auto simp: Let_def)
qed

end
