(* ===== verification/Kernel_Abi.thy ===== *)
theory Kernel_Abi
  imports Genome_MemFs
begin

unbundle bit_operations_syntax

text \<open>
  The native system call interface: the numbers, error codes and records of
  \<open>src/fullerene-kernel/abi/src/lib.rs\<close>, and the error conversions and the versioned copy length of
  \<open>src/fullerene-kernel/src/syscall/interface.rs\<close>. \<open>to_ne_bytes\<close> is little endian, as on x86-64.
  A \<open>match\<close> on named constants is the first constant of the list that is equal.
\<close>

section \<open>System call numbers\<close>

datatype SyscallNumber =
    AbiQuery | Exit | Fork | Read | Write | Open | Close | Wait | GetPid | GetProcessName | Yield | Spawn |
    MapMemory | UnmapMemory | ProtectMemory | QueryMemory | CreateEvent | WaitEvent | SignalEvent |
    SubscribeEvent | CreateThread | JoinThread | DetachThread | ExitThread | CreateWindow | DestroyWindow |
    ResizeWindow | PresentWindow | GetWindowEvent | EnumerateDevices | OpenDevice | DeviceIoctl |
    ChannelCreate | ChannelSend | ChannelRecv | PipeCreate | HandleTransfer | HandleDuplicate |
    HandleRevoke | ClockGetTime | TimerCreate | Sleep | Uptime

primrec syscall_as_u64 :: "SyscallNumber \<Rightarrow> u64" where
  "syscall_as_u64 AbiQuery = 0"
| "syscall_as_u64 Exit = 1"
| "syscall_as_u64 Fork = 2"
| "syscall_as_u64 Read = 3"
| "syscall_as_u64 Write = 4"
| "syscall_as_u64 Open = 5"
| "syscall_as_u64 Close = 6"
| "syscall_as_u64 Wait = 7"
| "syscall_as_u64 GetPid = 20"
| "syscall_as_u64 GetProcessName = 21"
| "syscall_as_u64 Yield = 22"
| "syscall_as_u64 Spawn = 23"
| "syscall_as_u64 MapMemory = 30"
| "syscall_as_u64 UnmapMemory = 31"
| "syscall_as_u64 ProtectMemory = 32"
| "syscall_as_u64 QueryMemory = 33"
| "syscall_as_u64 CreateEvent = 40"
| "syscall_as_u64 WaitEvent = 41"
| "syscall_as_u64 SignalEvent = 42"
| "syscall_as_u64 SubscribeEvent = 43"
| "syscall_as_u64 CreateThread = 50"
| "syscall_as_u64 JoinThread = 51"
| "syscall_as_u64 DetachThread = 52"
| "syscall_as_u64 ExitThread = 53"
| "syscall_as_u64 CreateWindow = 60"
| "syscall_as_u64 DestroyWindow = 61"
| "syscall_as_u64 ResizeWindow = 62"
| "syscall_as_u64 PresentWindow = 63"
| "syscall_as_u64 GetWindowEvent = 64"
| "syscall_as_u64 EnumerateDevices = 70"
| "syscall_as_u64 OpenDevice = 71"
| "syscall_as_u64 DeviceIoctl = 72"
| "syscall_as_u64 ChannelCreate = 80"
| "syscall_as_u64 ChannelSend = 81"
| "syscall_as_u64 ChannelRecv = 82"
| "syscall_as_u64 PipeCreate = 83"
| "syscall_as_u64 HandleTransfer = 90"
| "syscall_as_u64 HandleDuplicate = 91"
| "syscall_as_u64 HandleRevoke = 92"
| "syscall_as_u64 ClockGetTime = 100"
| "syscall_as_u64 TimerCreate = 101"
| "syscall_as_u64 Sleep = 102"
| "syscall_as_u64 Uptime = 103"

definition SYSCALL_ALL :: "SyscallNumber list" where
  "SYSCALL_ALL = [
    AbiQuery, Exit, Fork, Read, Write, Open, Close, Wait, GetPid, GetProcessName, Yield, Spawn, MapMemory,
    UnmapMemory, ProtectMemory, QueryMemory, CreateEvent, WaitEvent, SignalEvent, SubscribeEvent,
    CreateThread, JoinThread, DetachThread, ExitThread, CreateWindow, DestroyWindow, ResizeWindow,
    PresentWindow, GetWindowEvent, EnumerateDevices, OpenDevice, DeviceIoctl, ChannelCreate, ChannelSend,
    ChannelRecv, PipeCreate, HandleTransfer, HandleDuplicate, HandleRevoke, ClockGetTime, TimerCreate,
    Sleep, Uptime]"

definition syscall_try_from :: "u64 \<Rightarrow> SyscallNumber option" where
  "syscall_try_from value = find (\<lambda>v. syscall_as_u64 v = value) [
    AbiQuery, Exit, Fork, Read, Write, Open, Close, Wait, GetPid, GetProcessName, Yield, Spawn, MapMemory,
    UnmapMemory, ProtectMemory, QueryMemory, CreateEvent, WaitEvent, SignalEvent, SubscribeEvent,
    CreateThread, JoinThread, DetachThread, ExitThread, CreateWindow, DestroyWindow, ResizeWindow,
    PresentWindow, GetWindowEvent, EnumerateDevices, OpenDevice, DeviceIoctl, ChannelCreate, ChannelSend,
    ChannelRecv, PipeCreate, HandleTransfer, HandleDuplicate, HandleRevoke, ClockGetTime, TimerCreate,
    Sleep, Uptime]"


section \<open>Error codes\<close>

datatype SyscallError =
    InvalidSyscall | FileNotFound | NoSuchProcess | Io | BadFileDescriptor | Again | OutOfMemory |
    PermissionDenied | AddressFault | Busy | AlreadyExists | NoSuchDevice | NotADirectory | IsADirectory |
    InvalidArgument | NoSpace | DirectoryNotEmpty | Overflow | NotSupported | BadHandle | TimedOut |
    WouldBlock

primrec error_as_i64 :: "SyscallError \<Rightarrow> int" where
  "error_as_i64 InvalidSyscall = 1"
| "error_as_i64 SyscallError.FileNotFound = 2"
| "error_as_i64 NoSuchProcess = 3"
| "error_as_i64 SyscallError.Io = 5"
| "error_as_i64 BadFileDescriptor = 9"
| "error_as_i64 Again = 11"
| "error_as_i64 OutOfMemory = 12"
| "error_as_i64 SyscallError.PermissionDenied = 13"
| "error_as_i64 AddressFault = 14"
| "error_as_i64 Busy = 16"
| "error_as_i64 AlreadyExists = 17"
| "error_as_i64 NoSuchDevice = 19"
| "error_as_i64 SyscallError.NotADirectory = 20"
| "error_as_i64 SyscallError.IsADirectory = 21"
| "error_as_i64 InvalidArgument = 22"
| "error_as_i64 NoSpace = 28"
| "error_as_i64 SyscallError.DirectoryNotEmpty = 39"
| "error_as_i64 Overflow = 75"
| "error_as_i64 SyscallError.NotSupported = 95"
| "error_as_i64 BadHandle = 104"
| "error_as_i64 TimedOut = 110"
| "error_as_i64 WouldBlock = 140"

definition error_try_from :: "int \<Rightarrow> SyscallError option" where
  "error_try_from value = find (\<lambda>v. error_as_i64 v = value) [
    InvalidSyscall, SyscallError.FileNotFound, NoSuchProcess, SyscallError.Io, BadFileDescriptor, Again,
    OutOfMemory, SyscallError.PermissionDenied, AddressFault, Busy, AlreadyExists, NoSuchDevice,
    SyscallError.NotADirectory, SyscallError.IsADirectory, InvalidArgument, NoSpace,
    SyscallError.DirectoryNotEmpty, Overflow, SyscallError.NotSupported, BadHandle, TimedOut, WouldBlock]"

text \<open>The value a system call returns, and the sign by which the caller tells an error.\<close>

definition syscall_return :: "SyscallError + u64 \<Rightarrow> u64" where
  "syscall_return r = (case r of Inr value \<Rightarrow> value | Inl error \<Rightarrow> of_int (- error_as_i64 error))"


section \<open>Errors of the other layers\<close>

datatype SystemError =
    SysInvalidSyscall | SysBadFileDescriptor | SysPermissionDenied | SysFileNotFound | SysNoSuchProcess
  | SysInvalidArgument | SyscallOutOfMemory | SysFileExists | SysInvalidSeek | SysDiskFull | MappingFailed
  | UnmappingFailed | SysFrameAllocationFailed | MemOutOfMemory | InvalidFormat | LoadFailed | DeviceNotFound
  | DeviceError | PortError | NotImplemented | SysNotSupported | InternalError | UnknownError
  | FsInvalidFileDescriptor | TooManyProcesses | OperationAgain | OperationTimedOut | SysNoSuchDevice
  | SysBadHandle | SysWouldBlock

definition from_system_error :: "SystemError \<Rightarrow> SyscallError" where
  "from_system_error e = (case e of
     SysInvalidSyscall \<Rightarrow> InvalidSyscall
   | SysBadFileDescriptor \<Rightarrow> BadFileDescriptor | FsInvalidFileDescriptor \<Rightarrow> BadFileDescriptor
   | SysPermissionDenied \<Rightarrow> SyscallError.PermissionDenied
   | SysFileNotFound \<Rightarrow> SyscallError.FileNotFound
   | SysNoSuchProcess \<Rightarrow> NoSuchProcess
   | SysInvalidArgument \<Rightarrow> InvalidArgument | SysInvalidSeek \<Rightarrow> InvalidArgument
   | UnmappingFailed \<Rightarrow> InvalidArgument | InvalidFormat \<Rightarrow> InvalidArgument | LoadFailed \<Rightarrow> InvalidArgument
   | InternalError \<Rightarrow> InvalidArgument | UnknownError \<Rightarrow> InvalidArgument
   | SyscallOutOfMemory \<Rightarrow> OutOfMemory | SysFrameAllocationFailed \<Rightarrow> OutOfMemory | MemOutOfMemory \<Rightarrow> OutOfMemory
   | SysFileExists \<Rightarrow> AlreadyExists
   | SysDiskFull \<Rightarrow> NoSpace
   | MappingFailed \<Rightarrow> AddressFault
   | DeviceNotFound \<Rightarrow> NoSuchDevice | SysNoSuchDevice \<Rightarrow> NoSuchDevice
   | DeviceError \<Rightarrow> SyscallError.Io | PortError \<Rightarrow> SyscallError.Io
   | NotImplemented \<Rightarrow> SyscallError.NotSupported | SysNotSupported \<Rightarrow> SyscallError.NotSupported
   | TooManyProcesses \<Rightarrow> Again | OperationAgain \<Rightarrow> Again
   | OperationTimedOut \<Rightarrow> TimedOut
   | SysBadHandle \<Rightarrow> BadHandle
   | SysWouldBlock \<Rightarrow> WouldBlock)"

definition to_system_error :: "SyscallError \<Rightarrow> SystemError" where
  "to_system_error e = (case e of
     InvalidSyscall \<Rightarrow> SysInvalidSyscall
   | BadFileDescriptor \<Rightarrow> SysBadFileDescriptor
   | SyscallError.PermissionDenied \<Rightarrow> SysPermissionDenied
   | SyscallError.FileNotFound \<Rightarrow> SysFileNotFound
   | NoSuchProcess \<Rightarrow> SysNoSuchProcess
   | SyscallError.Io \<Rightarrow> DeviceError
   | InvalidArgument \<Rightarrow> SysInvalidArgument
   | OutOfMemory \<Rightarrow> SyscallOutOfMemory
   | AddressFault \<Rightarrow> MappingFailed
   | Busy \<Rightarrow> OperationAgain
   | Again \<Rightarrow> OperationAgain
   | TimedOut \<Rightarrow> OperationTimedOut
   | SyscallError.NotSupported \<Rightarrow> SysNotSupported
   | AlreadyExists \<Rightarrow> SysFileExists
   | NoSuchDevice \<Rightarrow> SysNoSuchDevice
   | SyscallError.NotADirectory \<Rightarrow> SysInvalidArgument
   | SyscallError.IsADirectory \<Rightarrow> SysInvalidArgument
   | NoSpace \<Rightarrow> SysDiskFull
   | SyscallError.DirectoryNotEmpty \<Rightarrow> SysInvalidArgument
   | Overflow \<Rightarrow> SysInvalidArgument
   | BadHandle \<Rightarrow> SysBadHandle
   | WouldBlock \<Rightarrow> SysWouldBlock)"

definition from_fs_error :: "FsError \<Rightarrow> SyscallError" where
  "from_fs_error e = (case e of
     FsError.FileNotFound \<Rightarrow> SyscallError.FileNotFound
   | FileExists \<Rightarrow> AlreadyExists
   | FsError.PermissionDenied \<Rightarrow> SyscallError.PermissionDenied
   | InvalidFileDescriptor \<Rightarrow> BadFileDescriptor
   | InvalidSeek \<Rightarrow> InvalidArgument | InvalidPath \<Rightarrow> InvalidArgument | InvalidInput \<Rightarrow> InvalidArgument
   | DiskFull \<Rightarrow> NoSpace
   | FsError.NotADirectory \<Rightarrow> SyscallError.NotADirectory
   | FsError.DirectoryNotEmpty \<Rightarrow> SyscallError.DirectoryNotEmpty
   | FsError.IsADirectory \<Rightarrow> SyscallError.IsADirectory
   | FsError.NotSupported \<Rightarrow> SyscallError.NotSupported
   | UnexpectedEof \<Rightarrow> SyscallError.Io
   | FsError.Io \<Rightarrow> SyscallError.Io)"

datatype BlockError = BlockDeviceError | BufferTooSmall nat nat | LbaOverflow | SectorNotFound

definition from_block_error :: "BlockError \<Rightarrow> SyscallError" where
  "from_block_error e = (case e of
     BlockDeviceError \<Rightarrow> SyscallError.Io
   | BufferTooSmall _ _ \<Rightarrow> InvalidArgument
   | LbaOverflow \<Rightarrow> Overflow
   | SectorNotFound \<Rightarrow> SyscallError.FileNotFound)"

definition fs_from_block_error :: "BlockError \<Rightarrow> FsError" where
  "fs_from_block_error e = (case e of
     BufferTooSmall _ _ \<Rightarrow> InvalidInput | LbaOverflow \<Rightarrow> InvalidInput
   | SectorNotFound \<Rightarrow> FsError.FileNotFound
   | BlockDeviceError \<Rightarrow> FsError.Io)"

datatype DriverError = DrvDeviceNotFound | NotReady | DrvInvalidArgument | DrvOutOfMemory | MmioMappingFailed
  | DmaMappingFailed | DrvTimedOut | DrvBusy | DrvNotSupported | DrvIo | Protocol | DeviceFault

definition from_driver_error :: "DriverError \<Rightarrow> SyscallError" where
  "from_driver_error e = (case e of
     DrvDeviceNotFound \<Rightarrow> NoSuchDevice
   | NotReady \<Rightarrow> Again
   | DrvInvalidArgument \<Rightarrow> InvalidArgument
   | DrvOutOfMemory \<Rightarrow> OutOfMemory
   | MmioMappingFailed \<Rightarrow> OutOfMemory
   | DmaMappingFailed \<Rightarrow> SyscallError.Io | DrvIo \<Rightarrow> SyscallError.Io
   | Protocol \<Rightarrow> SyscallError.Io | DeviceFault \<Rightarrow> SyscallError.Io
   | DrvTimedOut \<Rightarrow> TimedOut
   | DrvBusy \<Rightarrow> Busy
   | DrvNotSupported \<Rightarrow> SyscallError.NotSupported)"

datatype MemoryError = MemErrOutOfMemory | MemErrFrameAllocationFailed | MemErrMappingFailed
  | MemErrUnmappingFailed | InvalidAddress | MemErrInvalidAlignment | InvalidSize | AddressOverflow | AlreadyMapped
  | NotMapped | MemErrPermissionDenied | MemErrNotInitialized

definition from_memory_error :: "MemoryError \<Rightarrow> SyscallError" where
  "from_memory_error e = (case e of
     MemErrOutOfMemory \<Rightarrow> OutOfMemory | MemErrFrameAllocationFailed \<Rightarrow> OutOfMemory
   | MemErrMappingFailed \<Rightarrow> AddressFault | InvalidAddress \<Rightarrow> AddressFault
   | MemErrUnmappingFailed \<Rightarrow> InvalidArgument | MemErrInvalidAlignment \<Rightarrow> InvalidArgument
   | InvalidSize \<Rightarrow> InvalidArgument | NotMapped \<Rightarrow> InvalidArgument
   | AddressOverflow \<Rightarrow> Overflow
   | AlreadyMapped \<Rightarrow> AlreadyExists
   | MemErrPermissionDenied \<Rightarrow> SyscallError.PermissionDenied
   | MemErrNotInitialized \<Rightarrow> AddressFault)"



section \<open>Records that cross the boundary\<close>

record AbiVersion =
  major :: u16
  minor :: u16
  patch :: u16
  ver_reserved :: u16

definition ABI_CURRENT :: AbiVersion where
  "ABI_CURRENT = \<lparr>major = 0, minor = 4, patch = 0, ver_reserved = 0\<rparr>"

definition pack :: "AbiVersion \<Rightarrow> u64" where
  "pack v = push_bit 48 (ucast (major v)) OR push_bit 32 (ucast (minor v)) OR push_bit 16 (ucast (patch v))
     OR ucast (ver_reserved v)"

definition unpack :: "u64 \<Rightarrow> AbiVersion" where
  "unpack value = \<lparr>major = ucast (drop_bit 48 value), minor = ucast (drop_bit 32 value),
     patch = ucast (drop_bit 16 value), ver_reserved = ucast value\<rparr>"

datatype Capability = NativeSyscall | LinuxCompat | MultiWindow | EventSystem | Threading | IpcChannels
  | IpcPipes | TimerSystem | DeviceEnumeration | ProcessSpawn

primrec capability_bit :: "Capability \<Rightarrow> u64" where
  "capability_bit NativeSyscall = 2 ^ 0"
| "capability_bit LinuxCompat = 2 ^ 1"
| "capability_bit MultiWindow = 2 ^ 2"
| "capability_bit EventSystem = 2 ^ 3"
| "capability_bit Threading = 2 ^ 4"
| "capability_bit IpcChannels = 2 ^ 5"
| "capability_bit IpcPipes = 2 ^ 6"
| "capability_bit TimerSystem = 2 ^ 7"
| "capability_bit DeviceEnumeration = 2 ^ 8"
| "capability_bit ProcessSpawn = 2 ^ 9"

type_synonym CapabilitySet = u64

definition caps_EMPTY :: CapabilitySet where
  "caps_EMPTY = 0"

definition caps_contains :: "CapabilitySet \<Rightarrow> Capability \<Rightarrow> bool" where
  "caps_contains s c \<longleftrightarrow> s AND capability_bit c \<noteq> 0"

definition caps_with :: "CapabilitySet \<Rightarrow> Capability \<Rightarrow> CapabilitySet" where
  "caps_with s c = s OR capability_bit c"

definition caps_ALL_DEFINED :: CapabilitySet where
  "caps_ALL_DEFINED = capability_bit NativeSyscall OR capability_bit LinuxCompat OR capability_bit MultiWindow
     OR capability_bit EventSystem OR capability_bit Threading OR capability_bit IpcChannels
     OR capability_bit IpcPipes OR capability_bit TimerSystem OR capability_bit DeviceEnumeration
     OR capability_bit ProcessSpawn"

definition KERNEL_CAPABILITIES :: CapabilitySet where
  "KERNEL_CAPABILITIES = fold (\<lambda>c s. caps_with s c)
     [NativeSyscall, LinuxCompat, MultiWindow, EventSystem, Threading, IpcChannels, IpcPipes, TimerSystem,
      DeviceEnumeration, ProcessSpawn] caps_EMPTY"

text \<open>\<open>bytes[a..b].copy_from_slice(x)\<close> on a buffer that is long enough.\<close>

definition copy_at :: "nat \<Rightarrow> bytes \<Rightarrow> bytes \<Rightarrow> bytes" where
  "copy_at start src buf = take start buf @ src @ drop (start + length src) buf"

definition ne_bytes :: "'a::len word \<Rightarrow> bytes" where
  "ne_bytes w = to_le (LENGTH('a) div 8) (unat w)"

record AbiInfo =
  version :: AbiVersion
  struct_size :: u32
  syscall_count :: u32
  capset :: CapabilitySet
  info_reserved0 :: u64
  info_reserved1 :: u64

definition ABI_INFO_MIN :: nat where "ABI_INFO_MIN = 24"
definition ABI_INFO_SIZE :: nat where "ABI_INFO_SIZE = 40"

definition abi_info_new :: "CapabilitySet \<Rightarrow> AbiInfo" where
  "abi_info_new caps = \<lparr>version = ABI_CURRENT, struct_size = of_nat ABI_INFO_SIZE,
     syscall_count = of_nat (length SYSCALL_ALL), capset = caps, info_reserved0 = 0, info_reserved1 = 0\<rparr>"

definition abi_info_bytes :: "AbiInfo \<Rightarrow> bytes" where
  "abi_info_bytes i =
     (let b = replicate ABI_INFO_SIZE 0;
          b = copy_at 0 (ne_bytes (major (version i))) b;
          b = copy_at 2 (ne_bytes (minor (version i))) b;
          b = copy_at 4 (ne_bytes (patch (version i))) b;
          b = copy_at 6 (ne_bytes (ver_reserved (version i))) b;
          b = copy_at 8 (ne_bytes (struct_size i)) b;
          b = copy_at 12 (ne_bytes (syscall_count i)) b;
          b = copy_at 16 (ne_bytes (capset i)) b;
          b = copy_at 24 (ne_bytes (info_reserved0 i)) b
      in copy_at 32 (ne_bytes (info_reserved1 i)) b)"

record MemoryInfo =
  base_address :: u64
  mem_length :: u64
  protection :: u32
  mem_flags :: u32
  page_size :: u64
  committed_bytes :: u64
  mem_reserved :: "u64 list"

definition MEMORY_INFO_MIN :: nat where "MEMORY_INFO_MIN = 64"
definition MEMORY_INFO_SIZE :: nat where "MEMORY_INFO_SIZE = 64"

definition memory_info_bytes :: "MemoryInfo \<Rightarrow> bytes" where
  "memory_info_bytes i =
     (let b = replicate MEMORY_INFO_SIZE 0;
          b = copy_at 0 (ne_bytes (base_address i)) b;
          b = copy_at 8 (ne_bytes (mem_length i)) b;
          b = copy_at 16 (ne_bytes (protection i)) b;
          b = copy_at 20 (ne_bytes (mem_flags i)) b;
          b = copy_at 24 (ne_bytes (page_size i)) b;
          b = copy_at 32 (ne_bytes (committed_bytes i)) b
      in fold (\<lambda>(index, value) b. copy_at (40 + index * 8) (ne_bytes value) b) (enumerate 0 (mem_reserved i)) b)"

record TimeSpec =
  seconds :: u64
  nanoseconds :: u64

definition time_spec_bytes :: "TimeSpec \<Rightarrow> bytes" where
  "time_spec_bytes t =
     copy_at 8 (ne_bytes (nanoseconds t)) (copy_at 0 (ne_bytes (seconds t)) (replicate 16 0))"

record DeviceInfo =
  dev_class :: u32
  device_id :: u32
  vendor_id :: u32
  product_id :: u32

definition device_info_bytes :: "DeviceInfo \<Rightarrow> bytes" where
  "device_info_bytes d =
     (let b = replicate 16 0;
          b = copy_at 0 (ne_bytes (dev_class d)) b;
          b = copy_at 4 (ne_bytes (device_id d)) b;
          b = copy_at 8 (ne_bytes (vendor_id d)) b
      in copy_at 12 (ne_bytes (product_id d)) b)"

record WindowEvent =
  we_kind :: u32
  we_flags :: u32
  we_window_id :: u64
  we_data :: "u64 list"

definition window_event_bytes :: "WindowEvent \<Rightarrow> bytes" where
  "window_event_bytes e =
     (let b = replicate 128 0;
          b = copy_at 0 (ne_bytes (we_kind e)) b;
          b = copy_at 4 (ne_bytes (we_flags e)) b;
          b = copy_at 8 (ne_bytes (we_window_id e)) b
      in fold (\<lambda>(index, value) b. copy_at (16 + index * 8) (ne_bytes value) b) (enumerate 0 (we_data e)) b)"

definition versioned_copy_len :: "nat \<Rightarrow> nat \<Rightarrow> nat \<Rightarrow> SyscallError + nat" where
  "versioned_copy_len caller_size minimum_size current_size =
     (if minimum_size = 0 \<or> current_size < minimum_size \<or> caller_size < minimum_size then Inl InvalidArgument
      else Inr (min caller_size current_size))"


section \<open>Numbers and codes\<close>

lemma syscall_as_u64_inject: "syscall_as_u64 m = syscall_as_u64 n \<longleftrightarrow> m = n"
  by (cases m; cases n; simp)

lemma error_as_i64_inject: "error_as_i64 m = error_as_i64 n \<longleftrightarrow> m = n"
  by (cases m; cases n; simp)

lemma find_inverse:
  assumes "\<And>x y. f x = f y \<longleftrightarrow> x = y" and "\<And>x. x \<in> set xs"
  shows "find (\<lambda>x. f x = v) xs = Some n \<longleftrightarrow> f n = v"
proof
  assume "find (\<lambda>x. f x = v) xs = Some n"
  then show "f n = v" by (auto simp: find_Some_iff)
next
  assume v: "f n = v"
  then have "find (\<lambda>x. f x = v) xs \<noteq> None" using assms(2) [of n] by (auto simp: find_None_iff)
  then obtain m where m: "find (\<lambda>x. f x = v) xs = Some m" by auto
  then have "f m = v" by (auto simp: find_Some_iff)
  with v m show "find (\<lambda>x. f x = v) xs = Some n" using assms(1) by metis
qed

lemma error_code_range: "1 \<le> error_as_i64 e \<and> error_as_i64 e \<le> 140"
  by (cases e) simp_all

lemma error_return_value:
  "sint (syscall_return (Inl e)) = - error_as_i64 e" "uint (syscall_return (Inl e)) = 2 ^ 64 - error_as_i64 e"
proof -
  have r: "1 \<le> error_as_i64 e" "error_as_i64 e \<le> 140" using error_code_range [of e] by auto
  show "sint (syscall_return (Inl e)) = - error_as_i64 e"
    unfolding syscall_return_def sum.case sint_sbintrunc' using r by (intro signed_take_bit_int_eq_self) simp_all
  show "uint (syscall_return (Inl e)) = 2 ^ 64 - error_as_i64 e"
    unfolding syscall_return_def sum.case uint_word_of_int using r by (simp add: zmod_zminus1_eq_if)
qed

lemma all_syscalls:
  "x \<in> set [AbiQuery, Exit, Fork, Read, Write, Open, Close, Wait, GetPid, GetProcessName, Yield, Spawn,
      MapMemory, UnmapMemory, ProtectMemory, QueryMemory, CreateEvent, WaitEvent, SignalEvent, SubscribeEvent,
      CreateThread, JoinThread, DetachThread, ExitThread, CreateWindow, DestroyWindow, ResizeWindow,
      PresentWindow, GetWindowEvent, EnumerateDevices, OpenDevice, DeviceIoctl, ChannelCreate, ChannelSend,
      ChannelRecv, PipeCreate, HandleTransfer, HandleDuplicate, HandleRevoke, ClockGetTime, TimerCreate, Sleep,
      Uptime]"
  by (cases x) simp_all

lemma all_errors:
  "x \<in> set [InvalidSyscall, SyscallError.FileNotFound, NoSuchProcess, SyscallError.Io, BadFileDescriptor,
      Again, OutOfMemory, SyscallError.PermissionDenied, AddressFault, Busy, AlreadyExists, NoSuchDevice,
      SyscallError.NotADirectory, SyscallError.IsADirectory, InvalidArgument, NoSpace,
      SyscallError.DirectoryNotEmpty, Overflow, SyscallError.NotSupported, BadHandle, TimedOut, WouldBlock]"
  by (cases x) simp_all

lemma syscall_try_from_iff: "syscall_try_from v = Some n \<longleftrightarrow> syscall_as_u64 n = v"
  unfolding syscall_try_from_def by (rule find_inverse [OF syscall_as_u64_inject all_syscalls])

lemma error_try_from_iff: "error_try_from c = Some e \<longleftrightarrow> error_as_i64 e = c"
  unfolding error_try_from_def by (rule find_inverse [OF error_as_i64_inject all_errors])




section \<open>Layout of the records\<close>

lemma length_ne_bytes [simp]: "length (ne_bytes (w :: 'a::len word)) = LENGTH('a) div 8"
  by (simp add: ne_bytes_def)

lemma from_ne_bytes: "8 dvd LENGTH('a) \<Longrightarrow> from_le (ne_bytes (w :: 'a::len word)) = unat w"
proof -
  assume "8 dvd LENGTH('a)"
  then obtain k where k: "LENGTH('a) = 8 * k" by (elim dvdE)
  have "(256 :: nat) ^ k = 2 ^ (8 * k)" by (simp add: power_mult)
  then show ?thesis using unat_bound [of w] k by (simp add: ne_bytes_def from_to_le)
qed

text \<open>Fields are written one after another into a buffer of zeros.\<close>

lemma copy_at_first: "copy_at 0 src (replicate n 0) = src @ replicate (n - length src) 0"
  by (simp add: copy_at_def)

lemma copy_at_next:
  "length pre = k \<Longrightarrow> copy_at k src (pre @ replicate n 0) = (pre @ src) @ replicate (n - length src) 0"
  by (simp add: copy_at_def)

lemmas copy_at_fields = copy_at_first copy_at_next length_append length_ne_bytes

lemma abi_info_bytes_concat:
  "abi_info_bytes i = ne_bytes (major (version i)) @ ne_bytes (minor (version i)) @ ne_bytes (patch (version i)) @
     ne_bytes (ver_reserved (version i)) @ ne_bytes (struct_size i) @ ne_bytes (syscall_count i) @
     ne_bytes (capset i) @ ne_bytes (info_reserved0 i) @ ne_bytes (info_reserved1 i)"
  unfolding abi_info_bytes_def ABI_INFO_SIZE_def Let_def
  by (simp add: copy_at_fields del: append_assoc)

lemma memory_info_bytes_concat:
  assumes "mem_reserved i = [r0, r1, r2]"
  shows "memory_info_bytes i = ne_bytes (base_address i) @ ne_bytes (mem_length i) @ ne_bytes (protection i) @
     ne_bytes (mem_flags i) @ ne_bytes (page_size i) @ ne_bytes (committed_bytes i) @ ne_bytes r0 @ ne_bytes r1 @ ne_bytes r2"
  unfolding memory_info_bytes_def MEMORY_INFO_SIZE_def Let_def assms
  by (simp add: copy_at_fields del: append_assoc)

text \<open>The bytes of a field, read at its offset.\<close>

definition field :: "nat \<Rightarrow> nat \<Rightarrow> bytes \<Rightarrow> nat" where
  "field off n bs = from_le (take n (drop off bs))"

lemma field_at:
  assumes "bs = pre @ ne_bytes (w :: 'a::len word) @ post" and "length pre = off" and "LENGTH('a) = 8 * n"
  shows "field off n bs = unat w"
proof -
  have "take n (drop off bs) = ne_bytes w" using assms by simp
  then show ?thesis using assms(3) by (simp add: field_def from_ne_bytes)
qed

lemma field_take: "off + n \<le> k \<Longrightarrow> field off n (take k bs) = field off n bs"
  by (simp add: field_def take_drop min_def)

lemma abi_info_fields:
  "field 0 2 (abi_info_bytes i) = unat (major (version i))" "field 2 2 (abi_info_bytes i) = unat (minor (version i))"
  "field 8 4 (abi_info_bytes i) = unat (struct_size i)" "field 12 4 (abi_info_bytes i) = unat (syscall_count i)"
  "field 16 8 (abi_info_bytes i) = unat (capset i)"
proof -
  let ?v = "ne_bytes (major (version i)) @ ne_bytes (minor (version i)) @ ne_bytes (patch (version i)) @
     ne_bytes (ver_reserved (version i))"
  show "field 0 2 (abi_info_bytes i) = unat (major (version i))"
    by (rule field_at [where pre = "[]"]) (simp add: abi_info_bytes_concat, simp_all)
  show "field 2 2 (abi_info_bytes i) = unat (minor (version i))"
    by (rule field_at [where pre = "ne_bytes (major (version i))"]) (simp add: abi_info_bytes_concat, simp_all)
  show "field 8 4 (abi_info_bytes i) = unat (struct_size i)"
    by (rule field_at [where pre = ?v]) (simp add: abi_info_bytes_concat, simp_all)
  show "field 12 4 (abi_info_bytes i) = unat (syscall_count i)"
    by (rule field_at [where pre = "?v @ ne_bytes (struct_size i)"]) (simp add: abi_info_bytes_concat, simp_all)
  show "field 16 8 (abi_info_bytes i) = unat (capset i)"
    by (rule field_at [where pre = "?v @ ne_bytes (struct_size i) @ ne_bytes (syscall_count i)"])
      (simp add: abi_info_bytes_concat, simp_all)
qed

text \<open>
  C33. The bytes of the ABI information record have the documented layout, and a caller built against
  an older, shorter record gets a prefix that still has the version, the size, the number of system
  calls and the capabilities: every buffer of at least 24 bytes is accepted, at most 40 are copied,
  and the fields are read back from what was copied.
\<close>

theorem abi_info_layout:
  assumes "24 \<le> buf_size"
  shows "\<exists>n. versioned_copy_len buf_size ABI_INFO_MIN (length (abi_info_bytes i)) = Inr n \<and> n \<le> buf_size \<and> n \<le> 40 \<and>
    (let bs = take n (abi_info_bytes i)
     in field 0 2 bs = unat (major (version i)) \<and> field 2 2 bs = unat (minor (version i)) \<and>
        field 8 4 bs = unat (struct_size i) \<and> field 12 4 bs = unat (syscall_count i) \<and>
        field 16 8 bs = unat (capset i))"
proof -
  have len: "length (abi_info_bytes i) = 40" by (simp add: abi_info_bytes_concat)
  have "versioned_copy_len buf_size ABI_INFO_MIN (length (abi_info_bytes i)) = Inr (min buf_size 40)"
    using assms by (simp add: versioned_copy_len_def ABI_INFO_MIN_def len)
  then show ?thesis
    using assms by (intro exI [of _ "min buf_size 40"]) (simp add: Let_def field_take abi_info_fields)
qed

theorem abi_info_layout_witness:
  "\<exists>n. versioned_copy_len 32 ABI_INFO_MIN (length (abi_info_bytes (abi_info_new 5))) = Inr n \<and>
     field 16 8 (take n (abi_info_bytes (abi_info_new 5))) = 5"
  using abi_info_layout [of 32 "abi_info_new 5"] by (auto simp: Let_def abi_info_new_def)


section \<open>Versions and capabilities\<close>

lemma unpack_pack: "unpack (pack v) = v"
proof (cases v)
  case (fields a b c d)
  have "ucast (drop_bit 48 (pack v)) = a" "ucast (drop_bit 32 (pack v)) = b"
    "ucast (drop_bit 16 (pack v)) = c" "ucast (pack v) = d"
    by (intro bit_word_eqI; simp add: fields pack_def bit_simps; auto dest: bit_imp_le_length)+
  then show ?thesis by (simp add: unpack_def fields)
qed

lemma caps_contains_with: "caps_contains (caps_with s c) d \<longleftrightarrow> d = c \<or> caps_contains s d"
proof -
  have "capability_bit c AND capability_bit d = (if c = d then capability_bit c else 0)"
    by (cases c; cases d; simp)
  moreover have "capability_bit c \<noteq> 0" by (cases c) simp_all
  ultimately show ?thesis
    by (auto simp: caps_contains_def caps_with_def bit.conj_disj_distrib2)
qed

lemma kernel_capabilities: "KERNEL_CAPABILITIES = caps_ALL_DEFINED \<and> caps_contains KERNEL_CAPABILITIES c"
proof
  show "KERNEL_CAPABILITIES = caps_ALL_DEFINED"
    by (simp add: KERNEL_CAPABILITIES_def caps_ALL_DEFINED_def caps_with_def caps_EMPTY_def)
  show "caps_contains KERNEL_CAPABILITIES c"
    by (cases c) (simp_all add: KERNEL_CAPABILITIES_def caps_contains_with)
qed

end
