(* ===== verification/Petroleum_UserMem.thy ===== *)
theory Petroleum_UserMem
  imports Petroleum_Paging Kernel_Abi
begin

text \<open>
  Access to user memory: \<open>src/petroleum/src/common/memory.rs\<close> and
  \<open>src/fullerene-kernel/src/user_memory.rs\<close>. The address space is the page tables that the current
  \<open>CR3\<close> reaches and the bytes behind user addresses. \<open>VirtAddr::try_new\<close> of the \<open>x86_64\<close> crate is the
  argument \<open>virt_ok\<close>; the code relies on it to accept the addresses below \<open>0x800000000000\<close>. Whether the heap
  can reserve more bytes is the argument \<open>can_reserve\<close>. A typed pointer is a pointer with the size of its type.
\<close>

section \<open>Data\<close>

record UserSpace =
  tables :: ptmem
  l4 :: u64
  umem :: "u64 \<Rightarrow> u8"

record UserSlice =
  us_ptr :: u64
  us_len :: nat
  us_writable :: bool

record UserPtr =
  up_ptr :: u64
  up_size :: nat

datatype UserCopyError = System SystemError | InvalidUtf8 | MissingNul


section \<open>Validation\<close>

definition is_user_address :: "u64 \<Rightarrow> bool" where
  "is_user_address a \<longleftrightarrow> a < 0x0000800000000000"

definition has_flag :: "u64 \<Rightarrow> u64 \<Rightarrow> bool" where
  "has_flag flags f \<longleftrightarrow> flags AND f = f"

text \<open>The levels of the walk, by the shift that gives the index.\<close>

fun walk_flags :: "ptmem \<Rightarrow> u64 \<Rightarrow> nat list \<Rightarrow> u64 \<Rightarrow> u64 \<Rightarrow> u64 option" where
  "walk_flags m v [] t flags = Some flags"
| "walk_flags m v (s # ss) t flags =
     (let e = m t (unat (drop_bit s v AND 0x1FF)); flags' = flags AND entry_flags e in
      if \<not> has_flag (entry_flags e) PRESENT then None
      else if has_flag flags' HUGE_PAGE then Some flags'
      else walk_flags m v ss (entry_addr e) flags')"

definition walk_page_table_for_flags :: "UserSpace \<Rightarrow> u64 \<Rightarrow> u64 option" where
  "walk_page_table_for_flags sp v = walk_flags (tables sp) v [39, 30, 21, 12] (l4 sp) (- 1)"

fun validate_pages :: "UserSpace \<Rightarrow> bool \<Rightarrow> u64 \<Rightarrow> nat list \<Rightarrow> SystemError + unit" where
  "validate_pages sp writable start [] = Inr ()"
| "validate_pages sp writable start (i # is) =
     (case walk_page_table_for_flags sp (start + of_nat i * 4096) of
        None \<Rightarrow> Inl SysInvalidArgument
      | Some flags \<Rightarrow>
          if \<not> has_flag flags PRESENT then Inl SysInvalidArgument
          else if \<not> has_flag flags USER_ACCESSIBLE then Inl SysPermissionDenied
          else if writable \<and> \<not> has_flag flags WRITABLE then Inl SysPermissionDenied
          else validate_pages sp writable start is)"

definition validate_user_range ::
    "(u64 \<Rightarrow> bool) \<Rightarrow> UserSpace \<Rightarrow> u64 \<Rightarrow> nat \<Rightarrow> bool \<Rightarrow> SystemError + unit" where
  "validate_user_range virt_ok sp addr len writable =
     (if len = 0 then Inr ()
      else case checked_add addr (of_nat len - 1) of
        None \<Rightarrow> Inl SysInvalidArgument
      | Some end_addr \<Rightarrow>
          if \<not> virt_ok addr \<or> \<not> virt_ok end_addr then Inl SysInvalidArgument
          else if \<not> is_user_address addr \<or> \<not> is_user_address end_addr then Inl SysPermissionDenied
          else let page_start = align_down addr 4096;
                   page_end = align_down end_addr 4096;
                   num_pages = (page_end - page_start) div 4096 + 1
               in validate_pages sp writable page_start [0..<unat num_pages])"

definition validate_user_buffer :: "(u64 \<Rightarrow> bool) \<Rightarrow> u64 \<Rightarrow> nat \<Rightarrow> bool \<Rightarrow> SystemError + unit" where
  "validate_user_buffer virt_ok p cnt allow_kernel =
     (if cnt = 0 then Inr ()
      else if p = 0 then Inl SysInvalidArgument
      else if \<not> virt_ok p then Inl SysInvalidArgument
      else if \<not> allow_kernel \<and> \<not> is_user_address p then Inl SysInvalidArgument
      else case checked_add p (of_nat (cnt - 1)) of
        Some end_ptr \<Rightarrow>
          if \<not> virt_ok end_ptr then Inl SysInvalidArgument
          else if \<not> allow_kernel \<and> \<not> is_user_address end_ptr then Inl SysInvalidArgument
          else Inr ()
      | None \<Rightarrow> Inl SysInvalidArgument)"

definition validate_syscall_buffer :: "(u64 \<Rightarrow> bool) \<Rightarrow> u64 \<Rightarrow> bool \<Rightarrow> SystemError + unit" where
  "validate_syscall_buffer virt_ok p allow_kernel = validate_user_buffer virt_ok p 1 allow_kernel"

definition validate_syscall_fd :: "u32 \<Rightarrow> SystemError + unit" where
  "validate_syscall_fd fd = (if sint fd < 0 then Inl SysInvalidArgument else Inr ())"


section \<open>Copies\<close>

text \<open>\<open>copy_nonoverlapping\<close> from and to user memory.\<close>

definition umem_read :: "UserSpace \<Rightarrow> u64 \<Rightarrow> nat \<Rightarrow> bytes" where
  "umem_read sp p n = map (\<lambda>i. umem sp (p + of_nat i)) [0..<n]"

definition umem_write :: "u64 \<Rightarrow> bytes \<Rightarrow> UserSpace \<Rightarrow> UserSpace" where
  "umem_write p bs sp = sp\<lparr>umem := (\<lambda>a. if unat (a - p) < length bs then bs ! unat (a - p) else umem sp a)\<rparr>"

definition user_slice_new ::
    "(u64 \<Rightarrow> bool) \<Rightarrow> UserSpace \<Rightarrow> u64 \<Rightarrow> nat \<Rightarrow> bool \<Rightarrow> SystemError + UserSlice" where
  "user_slice_new virt_ok sp p len writable =
     (if len = 0 then Inr \<lparr>us_ptr = p, us_len = 0, us_writable = writable\<rparr>
      else if p = 0 then Inl SysInvalidArgument
      else case validate_user_range virt_ok sp p len writable of
        Inl e \<Rightarrow> Inl e
      | Inr _ \<Rightarrow> Inr \<lparr>us_ptr = p, us_len = len, us_writable = writable\<rparr>)"

definition us_from_raw_parts :: "u64 \<Rightarrow> nat \<Rightarrow> bool \<Rightarrow> SystemError + UserSlice" where
  "us_from_raw_parts p len writable =
     (if 0 < len \<and> p = 0 then Inl SysInvalidArgument
      else Inr \<lparr>us_ptr = p, us_len = len, us_writable = writable\<rparr>)"

definition us_is_empty :: "UserSlice \<Rightarrow> bool" where
  "us_is_empty s \<longleftrightarrow> us_len s = 0"

definition us_copy_from_user :: "UserSpace \<Rightarrow> UserSlice \<Rightarrow> bytes \<Rightarrow> bytes" where
  "us_copy_from_user sp s buf =
     (let count = min (length buf) (us_len s) in
      if count = 0 then buf else umem_read sp (us_ptr s) count @ drop count buf)"

definition us_copy_to_user :: "UserSlice \<Rightarrow> bytes \<Rightarrow> UserSpace \<Rightarrow> UserSpace" where
  "us_copy_to_user s buf sp =
     (let count = min (length buf) (us_len s) in
      if count = 0 then sp else umem_write (us_ptr s) (take count buf) sp)"

definition user_ptr_new :: "(u64 \<Rightarrow> bool) \<Rightarrow> UserSpace \<Rightarrow> u64 \<Rightarrow> nat \<Rightarrow> SystemError + UserPtr" where
  "user_ptr_new virt_ok sp p sz =
     (if p = 0 then Inl SysInvalidArgument
      else case validate_user_range virt_ok sp p sz False of
        Inl e \<Rightarrow> Inl e
      | Inr _ \<Rightarrow> Inr \<lparr>up_ptr = p, up_size = sz\<rparr>)"

definition user_ptr_new_mut :: "(u64 \<Rightarrow> bool) \<Rightarrow> UserSpace \<Rightarrow> u64 \<Rightarrow> nat \<Rightarrow> SystemError + UserPtr" where
  "user_ptr_new_mut virt_ok sp p sz =
     (if p = 0 then Inl SysInvalidArgument
      else case validate_user_range virt_ok sp p sz True of
        Inl e \<Rightarrow> Inl e
      | Inr _ \<Rightarrow> Inr \<lparr>up_ptr = p, up_size = sz\<rparr>)"

definition up_copy_from_user :: "UserSpace \<Rightarrow> UserPtr \<Rightarrow> bytes" where
  "up_copy_from_user sp u = umem_read sp (up_ptr u) (up_size u)"

definition up_copy_to_user :: "UserPtr \<Rightarrow> bytes \<Rightarrow> UserSpace \<Rightarrow> UserSpace" where
  "up_copy_to_user u val sp = umem_write (up_ptr u) val sp"

definition read_user :: "(u64 \<Rightarrow> bool) \<Rightarrow> UserSpace \<Rightarrow> u64 \<Rightarrow> nat \<Rightarrow> SystemError + bytes" where
  "read_user virt_ok sp p sz = (case user_ptr_new virt_ok sp p sz of
     Inl e \<Rightarrow> Inl e
   | Inr u \<Rightarrow> Inr (up_copy_from_user sp u))"

definition write_user :: "(u64 \<Rightarrow> bool) \<Rightarrow> u64 \<Rightarrow> bytes \<Rightarrow> UserSpace \<Rightarrow> (SystemError + unit) \<times> UserSpace" where
  "write_user virt_ok p val sp = (case user_ptr_new_mut virt_ok sp p (length val) of
     Inl e \<Rightarrow> (Inl e, sp)
   | Inr u \<Rightarrow> (Inr (), up_copy_to_user u val sp))"

definition copy_from_user :: "(u64 \<Rightarrow> bool) \<Rightarrow> UserSpace \<Rightarrow> u64 \<Rightarrow> bytes \<Rightarrow> SystemError + nat \<times> bytes" where
  "copy_from_user virt_ok sp p buf = (case user_slice_new virt_ok sp p (length buf) False of
     Inl e \<Rightarrow> Inl e
   | Inr s \<Rightarrow> Inr (min (length buf) (us_len s), us_copy_from_user sp s buf))"

definition copy_to_user :: "(u64 \<Rightarrow> bool) \<Rightarrow> u64 \<Rightarrow> bytes \<Rightarrow> UserSpace \<Rightarrow> (SystemError + unit) \<times> UserSpace" where
  "copy_to_user virt_ok p buf sp = (case user_slice_new virt_ok sp p (length buf) True of
     Inl e \<Rightarrow> (Inl e, sp)
   | Inr s \<Rightarrow> (Inr (), us_copy_to_user s buf sp))"

definition copy_bytes_from_user ::
    "(u64 \<Rightarrow> bool) \<Rightarrow> (nat \<Rightarrow> bool) \<Rightarrow> UserSpace \<Rightarrow> u64 \<Rightarrow> nat \<Rightarrow> UserCopyError + bytes" where
  "copy_bytes_from_user virt_ok can_reserve sp p len =
     (if \<not> can_reserve len then Inl (System MemOutOfMemory)
      else case user_slice_new virt_ok sp p len False of
        Inl e \<Rightarrow> Inl (System e)
      | Inr s \<Rightarrow> Inr (us_copy_from_user sp s (replicate len 0)))"

definition copy_bytes_to_user ::
    "(u64 \<Rightarrow> bool) \<Rightarrow> u64 \<Rightarrow> bytes \<Rightarrow> UserSpace \<Rightarrow> (UserCopyError + unit) \<times> UserSpace" where
  "copy_bytes_to_user virt_ok p bs sp = (case user_slice_new virt_ok sp p (length bs) True of
     Inl e \<Rightarrow> (Inl (System e), sp)
   | Inr s \<Rightarrow> (Inr (), us_copy_to_user s bs sp))"

definition copy_value_to_user ::
    "(u64 \<Rightarrow> bool) \<Rightarrow> u64 \<Rightarrow> bytes \<Rightarrow> UserSpace \<Rightarrow> (UserCopyError + unit) \<times> UserSpace" where
  "copy_value_to_user virt_ok p val sp = (case user_ptr_new_mut virt_ok sp p (length val) of
     Inl e \<Rightarrow> (Inl (System e), sp)
   | Inr u \<Rightarrow> (Inr (), up_copy_to_user u val sp))"


section \<open>Strings\<close>

text \<open>The check of \<open>String::from_utf8\<close>.\<close>

definition cont :: "u8 \<Rightarrow> u8 \<Rightarrow> u8 \<Rightarrow> bool" where
  "cont lo hi b \<longleftrightarrow> lo \<le> b \<and> b \<le> hi"

function utf8_valid :: "bytes \<Rightarrow> bool" where
  "utf8_valid bs = (case bs of
     [] \<Rightarrow> True
   | b # r \<Rightarrow>
       if b < 0x80 then utf8_valid r
       else if cont 0xC2 0xDF b then
         (case r of c # r' \<Rightarrow> cont 0x80 0xBF c \<and> utf8_valid r' | _ \<Rightarrow> False)
       else if cont 0xE0 0xEF b then
         (case r of c # d # r' \<Rightarrow>
            cont (if b = 0xE0 then 0xA0 else 0x80) (if b = 0xED then 0x9F else 0xBF) c \<and> cont 0x80 0xBF d \<and> utf8_valid r'
          | _ \<Rightarrow> False)
       else if cont 0xF0 0xF4 b then
         (case r of c # d # e # r' \<Rightarrow>
            cont (if b = 0xF0 then 0x90 else 0x80) (if b = 0xF4 then 0x8F else 0xBF) c \<and> cont 0x80 0xBF d \<and>
            cont 0x80 0xBF e \<and> utf8_valid r'
          | _ \<Rightarrow> False)
       else False)"
  by pat_completeness auto
termination by (relation "measure length") auto

definition bytes_until_page_end :: "u64 \<Rightarrow> nat" where
  "bytes_until_page_end address = 4096 - unat (address AND 4095)"

lemma bytes_until_page_end_bounds: "0 < bytes_until_page_end a" "bytes_until_page_end a \<le> 4096"
proof -
  have "a AND 4095 \<le> 4095" by (rule word_and_le1)
  then have "unat (a AND 4095) \<le> 4095" by (simp add: word_le_nat_alt)
  then show "0 < bytes_until_page_end a" "bytes_until_page_end a \<le> 4096" by (simp_all add: bytes_until_page_end_def)
qed

function copy_c_loop ::
    "(u64 \<Rightarrow> bool) \<Rightarrow> (nat \<Rightarrow> bool) \<Rightarrow> UserSpace \<Rightarrow> u64 \<Rightarrow> nat \<Rightarrow> nat \<Rightarrow> bytes \<Rightarrow> UserCopyError + bytes" where
  "copy_c_loop virt_ok can_reserve sp p max_len offset bs =
     (if max_len \<le> offset then Inl MissingNul
      else let current = p + of_nat offset;
               chunk_len = min (max_len - offset) (bytes_until_page_end current)
           in if \<not> can_reserve (length bs + chunk_len) then Inl (System MemOutOfMemory)
              else case user_slice_new virt_ok sp current chunk_len False of
                Inl e \<Rightarrow> Inl (System e)
              | Inr s \<Rightarrow>
                  let chunk = us_copy_from_user sp s (replicate chunk_len 0)
                  in case find (\<lambda>i. chunk ! i = 0) [0..<length chunk] of
                       Some nul \<Rightarrow>
                         let str = bs @ take nul chunk
                         in if utf8_valid str then Inr str else Inl InvalidUtf8
                     | None \<Rightarrow> copy_c_loop virt_ok can_reserve sp p max_len (offset + chunk_len) (bs @ chunk))"
  by pat_completeness auto
termination
  by (relation "measure (\<lambda>(_, _, _, _, max_len, offset, _). max_len - offset)")
    (auto simp: bytes_until_page_end_bounds diff_less_mono2)

declare copy_c_loop.simps [simp del] utf8_valid.simps [simp del]

definition copy_c_string ::
    "(u64 \<Rightarrow> bool) \<Rightarrow> (nat \<Rightarrow> bool) \<Rightarrow> UserSpace \<Rightarrow> u64 \<Rightarrow> nat \<Rightarrow> UserCopyError + bytes" where
  "copy_c_string virt_ok can_reserve sp p max_len =
     (if p = 0 \<or> max_len = 0 then Inl (System SysInvalidArgument)
      else copy_c_loop virt_ok can_reserve sp p max_len 0 [])"



section \<open>What validation accepts\<close>

definition page_ok :: "UserSpace \<Rightarrow> bool \<Rightarrow> u64 \<Rightarrow> bool" where
  "page_ok sp w a \<longleftrightarrow> (case walk_page_table_for_flags sp a of
     None \<Rightarrow> False
   | Some flags \<Rightarrow> has_flag flags PRESENT \<and> has_flag flags USER_ACCESSIBLE \<and> (w \<longrightarrow> has_flag flags WRITABLE))"

lemma walk_flags_same_page:
  "drop_bit 12 a = drop_bit 12 b \<Longrightarrow> list_all (\<lambda>s. 12 \<le> s) ss \<Longrightarrow> walk_flags m a ss t fl = walk_flags m b ss t fl"
proof (induction ss arbitrary: t fl)
  case (Cons s ss)
  have "drop_bit s v = drop_bit (s - 12) (drop_bit 12 v)" for v :: u64 using Cons.prems(2) by simp
  then have "drop_bit s a = drop_bit s b" using Cons.prems(1) by metis
  then show ?case using Cons by (simp add: Let_def)
qed simp

lemma page_ok_same: "unat a div 4096 = unat b div 4096 \<Longrightarrow> page_ok sp w a = page_ok sp w b"
proof -
  assume "unat a div 4096 = unat b div 4096"
  then have "drop_bit 12 a = drop_bit 12 b"
    by (intro word_unat_eq_iff [THEN iffD2]) (simp add: drop_bit_eq_div unat_div_distrib)
  then have "walk_page_table_for_flags sp a = walk_page_table_for_flags sp b"
    unfolding walk_page_table_for_flags_def by (rule walk_flags_same_page) simp
  then show ?thesis by (simp only: page_ok_def)
qed

lemma validate_pages_ok:
  "validate_pages sp w start is = Inr () \<longleftrightarrow> (\<forall>i \<in> set is. page_ok sp w (start + of_nat i * 4096))"
  by (induction "is") (auto simp: page_ok_def split: option.split)

lemma unat_align_down: "unat (align_down a 4096) = unat a div 4096 * 4096"
proof -
  have m: "(4095 :: u64) = mask 12" by (simp add: mask_eq_exp_minus_1)
  have "a AND NOT 4095 = push_bit 12 (drop_bit 12 a)"
    unfolding m by (rule bit_word_eqI) (auto simp: bit_simps)
  moreover have "unat (push_bit 12 (drop_bit 12 a)) = take_bit 64 (push_bit 12 (unat (drop_bit 12 a)))"
    by (simp add: unsigned_push_bit_eq)
  moreover have "unat a div 4096 * 4096 < 2 ^ 64"
    using u64_bound [of a] div_times_less_eq_dividend [of "unat a" 4096] by linarith
  ultimately show ?thesis
    by (simp add: align_down_def push_bit_eq_mult drop_bit_eq_div unat_div_distrib take_bit_nat_eq_self)
qed

lemma unat_plus_small: "unat a + n < 2 ^ 64 \<Longrightarrow> unat (a + of_nat n) = unat a + n" for a :: u64
  by (simp add: unat_word_ariths unat_of_nat take_bit_nat_eq_self)

lemma pages_of_range:
  assumes "unat addr + len \<le> 2 ^ 47" and "0 < len"
  defines "n \<equiv> (unat addr + len - 1) div 4096 - unat addr div 4096 + 1"
  shows "(\<forall>i < n. page_ok sp w (align_down addr 4096 + of_nat i * 4096)) \<longleftrightarrow>
     (\<forall>k < len. page_ok sp w (addr + of_nat k))"
proof -
  let ?a = "unat addr" let ?p = "?a div 4096"
  have le: "?p \<le> (?a + len - 1) div 4096" using assms(2) by (intro div_le_mono) linarith
  have page: "unat (align_down addr 4096 + of_nat i * 4096) div 4096 = ?p + i" if "i < n" for i
  proof -
    have "?p + i \<le> (?a + len - 1) div 4096" using that le unfolding n_def by linarith
    then have "(?p + i) * 4096 \<le> ?a + len - 1" by (meson div_times_less_eq_dividend le_trans mult_le_mono1)
    then have "?p * 4096 + i * 4096 < 2 ^ 64" using assms(1) unfolding add_mult_distrib by simp
    then have "unat (align_down addr 4096 + of_nat (i * 4096)) = ?p * 4096 + i * 4096"
      using unat_plus_small [of "align_down addr 4096" "i * 4096"] by (simp add: unat_align_down)
    then show ?thesis by simp
  qed
  have byte: "unat (addr + of_nat k) = ?a + k" if "k < len" for k
    using that assms(1) by (intro unat_plus_small) simp
  show ?thesis
  proof (intro iffI allI impI)
    fix k assume all: "\<forall>i < n. page_ok sp w (align_down addr 4096 + of_nat i * 4096)" and k: "k < len"
    define i where "i = (?a + k) div 4096 - ?p"
    have "?p \<le> (?a + k) div 4096" "(?a + k) div 4096 \<le> (?a + len - 1) div 4096" using k by (auto intro!: div_le_mono)
    then have i: "i < n" "?p + i = (?a + k) div 4096" unfolding n_def i_def by linarith+
    have "page_ok sp w (align_down addr 4096 + of_nat i * 4096) = page_ok sp w (addr + of_nat k)"
      by (rule page_ok_same) (simp only: page [OF i(1)] byte [OF k] i(2))
    then show "page_ok sp w (addr + of_nat k)" using all i(1) by blast
  next
    fix i assume all: "\<forall>k < len. page_ok sp w (addr + of_nat k)" and i: "i < n"
    let ?q = "(?p + i) * 4096"
    define k where "k = max ?a ?q - ?a"
    have "?p + i \<le> (?a + len - 1) div 4096" using i le unfolding n_def by linarith
    then have q: "?q \<le> ?a + len - 1" by (meson div_times_less_eq_dividend le_trans mult_le_mono1)
    then have k: "k < len" "?a + k = max ?a ?q" using assms(2) by (auto simp: k_def)
    have "max ?a ?q div 4096 = ?p + i"
    proof (cases "?a \<le> ?q")
      case False
      then have "i = 0" using div_le_mono [of ?q ?a 4096] by simp
      then show ?thesis using False by (simp add: max_def)
    qed (simp add: max_def)
    then have "page_ok sp w (align_down addr 4096 + of_nat i * 4096) = page_ok sp w (addr + of_nat k)"
      by (intro page_ok_same) (simp only: page [OF i] byte [OF k(1)] k(2))
    then show "page_ok sp w (align_down addr 4096 + of_nat i * 4096)" using all k(1) by blast
  qed
qed

lemma validate_user_range_ok:
  assumes "\<forall>a. is_user_address a \<longrightarrow> virt_ok a" and "len < 2 ^ 64"
  shows "validate_user_range virt_ok sp addr len w = Inr () \<longleftrightarrow>
     len = 0 \<or> unat addr + len \<le> 2 ^ 47 \<and> (\<forall>k < len. page_ok sp w (addr + of_nat k))"
proof (cases "len = 0")
  case False
  then have len: "unat (of_nat len - 1 :: u64) = len - 1"
    using assms(2) by (simp add: unat_sub unat_of_nat take_bit_nat_eq_self word_le_nat_alt)
  have user: "is_user_address a \<longleftrightarrow> unat a < 2 ^ 47" for a by (simp add: is_user_address_def word_less_nat_alt)
  show ?thesis
  proof (cases "unat addr + len \<le> 2 ^ 47")
    case True
    let ?e = "addr + (of_nat len - 1)"
    have e: "unat ?e = unat addr + len - 1" using True False len by (simp add: unat_word_ariths)
    then have ok: "checked_add addr (of_nat len - 1) = Some ?e" "is_user_address addr" "is_user_address ?e"
      using True False len by (auto simp: checked_add_def user)
    let ?n = "(unat addr + len - 1) div 4096 - unat addr div 4096 + 1"
    have le: "unat addr div 4096 \<le> (unat addr + len - 1) div 4096" using False by (intro div_le_mono) linarith
    then have "align_down addr 4096 \<le> align_down ?e 4096" by (simp only: word_le_nat_alt unat_align_down e mult_le_mono1)
    then have "unat ((align_down ?e 4096 - align_down addr 4096) div 4096) =
        ((unat addr + len - 1) div 4096 * 4096 - unat addr div 4096 * 4096) div 4096"
      by (simp only: unat_div_distrib unat_sub unat_align_down e) simp
    also have "\<dots> = (unat addr + len - 1) div 4096 - unat addr div 4096"
      by (simp flip: diff_mult_distrib)
    finally have "unat ((align_down ?e 4096 - align_down addr 4096) div 4096 + of_nat 1) = ?n"
      using unat_plus_small [of "(align_down ?e 4096 - align_down addr 4096) div 4096" 1] True by simp
    then have "validate_user_range virt_ok sp addr len w = validate_pages sp w (align_down addr 4096) [0..<?n]"
      using ok assms(1) False by (simp add: validate_user_range_def Let_def del: upt_Suc)
    then have "validate_user_range virt_ok sp addr len w = Inr () \<longleftrightarrow>
        (\<forall>i < ?n. page_ok sp w (align_down addr 4096 + of_nat i * 4096))"
      by (simp add: validate_pages_ok Ball_def del: upt_Suc)
    then show ?thesis using pages_of_range [OF True, of sp w] False True by simp
  next
    case big: False
    have "validate_user_range virt_ok sp addr len w \<noteq> Inr ()"
      using big False len assms(1)
      by (auto simp: validate_user_range_def user checked_add_def unat_word_ariths split: option.split if_splits)
    then show ?thesis using big False by simp
  qed
qed (simp add: validate_user_range_def)



section \<open>Copies touch user pages only\<close>

text \<open>The bytes a system call may use, and how.\<close>

definition user_bytes :: "UserSpace \<Rightarrow> bool \<Rightarrow> u64 \<Rightarrow> nat \<Rightarrow> bool" where
  "user_bytes sp w p n \<longleftrightarrow> unat p + n \<le> 2 ^ 47 \<and> (\<forall>k < n. page_ok sp w (p + of_nat k))"

lemma user_slice_new_ok:
  assumes "\<forall>a. is_user_address a \<longrightarrow> virt_ok a" and "len < 2 ^ 64"
  shows "user_slice_new virt_ok sp p len w = Inr s \<longleftrightarrow>
     (len = 0 \<or> p \<noteq> 0 \<and> user_bytes sp w p len) \<and> s = \<lparr>us_ptr = p, us_len = len, us_writable = w\<rparr>"
  using validate_user_range_ok [OF assms, of sp p w]
  by (cases "validate_user_range virt_ok sp p len w") (auto simp: user_slice_new_def user_bytes_def)

lemma umem_read_write:
  assumes "length bs < 2 ^ 64"
  shows "umem_read (umem_write p bs sp) p (length bs) = bs"
  using assms by (auto intro!: nth_equalityI simp: umem_read_def umem_write_def unat_of_nat take_bit_nat_eq_self)

lemma page_ok_tables [simp]: "page_ok (umem_write p bs sp) w a = page_ok sp w a"
  by (simp add: page_ok_def walk_page_table_for_flags_def umem_write_def)

lemma user_bytes_tables [simp]: "user_bytes (umem_write p bs sp) w q n = user_bytes sp w q n"
  by (simp add: user_bytes_def)

lemma user_slice_new_cases:
  assumes "\<forall>a. is_user_address a \<longrightarrow> virt_ok a" and "len < 2 ^ 64"
  shows "(len = 0 \<or> p \<noteq> 0 \<and> user_bytes sp w p len) \<and>
      user_slice_new virt_ok sp p len w = Inr \<lparr>us_ptr = p, us_len = len, us_writable = w\<rparr> \<or>
    \<not> (len = 0 \<or> p \<noteq> 0 \<and> user_bytes sp w p len) \<and> (\<exists>e. user_slice_new virt_ok sp p len w = Inl e)"
  using user_slice_new_ok [OF assms, of sp p w]
  by (cases "user_slice_new virt_ok sp p len w") auto

lemma umem_write_Nil [simp]: "umem_write p [] sp = sp"
  by (simp add: umem_write_def)

lemma copy_bytes_to_user_ok:
  assumes "\<forall>a. is_user_address a \<longrightarrow> virt_ok a" and "length bs < 2 ^ 64"
  shows "copy_bytes_to_user virt_ok p bs sp = (Inr (), sp') \<longleftrightarrow>
     (bs = [] \<or> p \<noteq> 0 \<and> user_bytes sp True p (length bs)) \<and> sp' = umem_write p bs sp"
  using user_slice_new_cases [OF assms, of p sp True]
  by (elim disjE conjE exE) (auto simp: copy_bytes_to_user_def us_copy_to_user_def Let_def)

lemma copy_bytes_from_user_ok:
  assumes "\<forall>a. is_user_address a \<longrightarrow> virt_ok a" and "len < 2 ^ 64"
  shows "copy_bytes_from_user virt_ok can_reserve sp p len = Inr bs \<longleftrightarrow>
     can_reserve len \<and> (len = 0 \<or> p \<noteq> 0 \<and> user_bytes sp False p len) \<and> bs = umem_read sp p len"
  using user_slice_new_cases [OF assms, of p sp False]
  by (elim disjE conjE exE) (auto simp: copy_bytes_from_user_def us_copy_from_user_def umem_read_def Let_def)

lemma user_bytes_weaken: "user_bytes sp True p n \<Longrightarrow> user_bytes sp False p n"
  by (auto simp: user_bytes_def page_ok_def split: option.splits)


definition demo_space :: UserSpace where
  "demo_space = \<lparr>tables = (\<lambda>_ _. PageTableEntry 0x1007), l4 = 0x1000, umem = (\<lambda>a. if a < 0x4003 then 0x61 else 0)\<rparr>"

lemma demo_walk: "walk_page_table_for_flags demo_space a = Some 7"
  by (simp add: walk_page_table_for_flags_def demo_space_def has_flag_def entry_flags_def entry_addr_def ADDR_MASK_def
      PRESENT_def HUGE_PAGE_def Let_def)

lemma demo_page_ok: "page_ok demo_space w a"
  by (simp add: page_ok_def demo_walk has_flag_def PRESENT_def USER_ACCESSIBLE_def WRITABLE_def)



section \<open>C strings\<close>

lemma page_end: "unat a + bytes_until_page_end a = (unat a div 4096 + 1) * 4096"
proof -
  have m: "(4095 :: u64) = mask 12" by (simp add: mask_eq_exp_minus_1)
  have "unat (a AND 4095) = unat a mod 4096"
    unfolding m take_bit_eq_mask [symmetric] unsigned_take_bit_eq by (simp add: take_bit_eq_mod)
  moreover have "q * 4096 + r + (4096 - r) = (q + 1) * (4096 :: nat)" if "r < 4096" for q r using that by simp
  from this [of "unat a mod 4096" "unat a div 4096"] have
    "unat a + (4096 - unat a mod 4096) = (unat a div 4096 + 1) * 4096" by (simp only: div_mult_mod_eq)
  ultimately show ?thesis by (simp only: bytes_until_page_end_def)
qed

lemma user_bytes_chunk:
  assumes "0 < c" and "c \<le> bytes_until_page_end a"
  shows "user_bytes sp w a c \<longleftrightarrow> unat a < 2 ^ 47 \<and> page_ok sp w a"
proof
  assume "user_bytes sp w a c"
  then show "unat a < 2 ^ 47 \<and> page_ok sp w a" using assms(1) by (auto simp: user_bytes_def)
next
  assume a: "unat a < 2 ^ 47 \<and> page_ok sp w a"
  have "unat a div 4096 < 2 ^ 35" using a by (intro less_mult_imp_div_less) simp
  then have "(unat a div 4096 + 1) * 4096 \<le> 2 ^ 47" by simp
  then have le: "unat a + c \<le> 2 ^ 47" using page_end [of a] assms(2) by linarith
  have "page_ok sp w (a + of_nat k)" if "k < c" for k
  proof -
    have "unat (a + of_nat k) = unat a + k" using that le by (intro unat_plus_small) simp
    moreover have "unat a + k < (unat a div 4096 + 1) * 4096" using that assms(2) page_end [of a] by linarith
    then have "(unat a + k) div 4096 = unat a div 4096"
      by (metis add.commute add_diff_cancel_left' div_le_mono le_add1 le_antisym less_Suc_eq_le less_mult_imp_div_less plus_1_eq_Suc)
    ultimately show ?thesis using a page_ok_same [of a "a + of_nat k"] by simp
  qed
  then show "user_bytes sp w a c" using le by (simp add: user_bytes_def)
qed

lemma user_bytes_append:
  assumes "unat p + m \<le> 2 ^ 47"
  shows "user_bytes sp w p (m + n) \<longleftrightarrow> user_bytes sp w p m \<and> user_bytes sp w (p + of_nat m) n"
proof -
  have "unat (p + of_nat m) = unat p + m" using assms by (intro unat_plus_small) simp
  moreover have "(\<forall>k < m + n. P k) \<longleftrightarrow> (\<forall>k < m. P k) \<and> (\<forall>k < n. P (m + k))" for P
    by (metis add_less_cancel_left le_add_diff_inverse not_less trans_less_add1)
  ultimately show ?thesis using assms by (auto simp: user_bytes_def ac_simps)
qed


lemma umem_read_append: "umem_read sp p (m + n) = umem_read sp p m @ umem_read sp (p + of_nat m) n"
proof -
  have "[0..<m + n] = [0..<m] @ map (\<lambda>i. i + m) [0..<n]" by (simp add: map_add_upt add.commute flip: upt_add_eq_append)
  then show ?thesis by (simp add: umem_read_def comp_def ac_simps)
qed

lemma copy_c_loop_ok:
  assumes "\<forall>a. is_user_address a \<longrightarrow> virt_ok a" and "\<forall>n. can_reserve n" and "p \<noteq> 0" and "max_len < 2 ^ 64"
    and "unat p + offset \<le> 2 ^ 47"
  shows "copy_c_loop virt_ok can_reserve sp p max_len offset bs = Inr str \<longleftrightarrow>
    (\<exists>n. offset + n < max_len \<and> user_bytes sp False (p + of_nat offset) (Suc n) \<and>
       umem sp (p + of_nat offset + of_nat n) = 0 \<and> (\<forall>i < n. umem sp (p + of_nat offset + of_nat i) \<noteq> 0) \<and>
       str = bs @ umem_read sp (p + of_nat offset) n \<and> utf8_valid str)"
  using assms(5)
proof (induction "max_len - offset" arbitrary: offset bs rule: less_induct)
  case less
  let ?cur = "p + of_nat offset"
  define c where "c = min (max_len - offset) (bytes_until_page_end ?cur)"
  let ?chunk = "umem_read sp ?cur c"
  have ucur: "unat ?cur = unat p + offset" using less.prems by (intro unat_plus_small) simp
  show ?case
  proof (cases "max_len \<le> offset")
    case True
    then show ?thesis by (subst copy_c_loop.simps) auto
  next
    case False
    have c: "0 < c" "c \<le> bytes_until_page_end ?cur" "c < 2 ^ 64" "c \<le> max_len - offset"
      using False bytes_until_page_end_bounds [of ?cur] assms(4) by (auto simp: c_def)
    have cur: "?cur \<noteq> 0" using ucur assms(3) by (metis add_is_0 unat_eq_zero)
    note unf = copy_c_loop.simps [of virt_ok can_reserve sp p max_len offset bs, unfolded Let_def, folded c_def]
    show ?thesis
    proof (cases "user_bytes sp False ?cur c")
      case bad: False
      then obtain e where "user_slice_new virt_ok sp ?cur c False = Inl e"
        using user_slice_new_cases [OF assms(1) c(3), of ?cur sp False] c(1) by auto
      then have "copy_c_loop virt_ok can_reserve sp p max_len offset bs = Inl (System e)"
        unfolding unf using False assms(2) by simp
      moreover have "\<not> user_bytes sp False ?cur (Suc n)" for n
        using bad user_bytes_chunk [OF c(1,2), of sp False] by (auto simp: user_bytes_def)
      ultimately show ?thesis by simp
    next
      case ok: True
      then have new: "user_slice_new virt_ok sp ?cur c False = Inr \<lparr>us_ptr = ?cur, us_len = c, us_writable = False\<rparr>"
        using user_slice_new_cases [OF assms(1) c(3), of ?cur sp False] cur by auto
      have chunk: "us_copy_from_user sp \<lparr>us_ptr = ?cur, us_len = c, us_writable = False\<rparr> (replicate c 0) = ?chunk"
        using c(1) by (simp add: us_copy_from_user_def Let_def)
      have len: "length ?chunk = c" by (simp add: umem_read_def)
      have nth: "?chunk ! i = umem sp (?cur + of_nat i)" if "i < c" for i using that by (simp add: umem_read_def)
      have step: "copy_c_loop virt_ok can_reserve sp p max_len offset bs =
          (case find (\<lambda>i. ?chunk ! i = 0) [0..<c] of
             Some nul \<Rightarrow> if utf8_valid (bs @ take nul ?chunk) then Inr (bs @ take nul ?chunk) else Inl InvalidUtf8
           | None \<Rightarrow> copy_c_loop virt_ok can_reserve sp p max_len (offset + c) (bs @ ?chunk))"
        unfolding unf new sum.case chunk len using False assms(2) by simp
      let ?R = "\<lambda>n. offset + n < max_len \<and> user_bytes sp False ?cur (Suc n) \<and> umem sp (?cur + of_nat n) = 0 \<and>
        (\<forall>i < n. umem sp (?cur + of_nat i) \<noteq> 0) \<and> str = bs @ umem_read sp ?cur n \<and> utf8_valid str"
      show ?thesis
      proof (cases "find (\<lambda>i. ?chunk ! i = 0) [0..<c]")
        case (Some nul)
        then have nul: "nul < c" "umem sp (?cur + of_nat nul) = 0" "\<forall>i < nul. umem sp (?cur + of_nat i) \<noteq> 0"
          unfolding find_upt_Some using nth by auto
        have "take nul ?chunk = umem_read sp ?cur nul" using nul(1) by (simp add: umem_read_def take_map)
        moreover have "user_bytes sp False ?cur (Suc nul)" using ok nul(1) by (simp add: user_bytes_def)
        moreover have "n = nul" if "umem sp (?cur + of_nat n) = 0" "\<forall>i < n. umem sp (?cur + of_nat i) \<noteq> 0" for n
          using that nul by (metis linorder_neqE_nat)
        moreover have "offset + nul < max_len" using nul(1) c(4) False by linarith
        ultimately have "(\<exists>n. ?R n) \<longleftrightarrow> str = bs @ take nul ?chunk \<and> utf8_valid str" using nul(2,3) by metis
        then show ?thesis unfolding step Some option.case by auto
      next
        case None
        then have none: "\<forall>i < c. umem sp (?cur + of_nat i) \<noteq> 0" unfolding find_upt_None using nth by auto
        have next1: "p + of_nat (offset + c) = ?cur + of_nat c" by (simp add: ac_simps)
        have le: "unat p + (offset + c) \<le> 2 ^ 47" using ok ucur by (simp add: user_bytes_def)
        have "max_len - (offset + c) < max_len - offset" using c(1) False by simp
        note IH = less.hyps [OF this le, of "bs @ ?chunk", unfolded next1]
        have shift: "?cur + of_nat (c + i) = ?cur + of_nat c + of_nat i" for i by (simp add: ac_simps)
        have ub: "user_bytes sp False ?cur (Suc (c + n)) \<longleftrightarrow> user_bytes sp False (?cur + of_nat c) (Suc n)" for n
          using user_bytes_append [of ?cur c sp False "Suc n"] ok ucur le by simp
        have all: "(\<forall>i < c + n. umem sp (?cur + of_nat i) \<noteq> 0) \<longleftrightarrow>
            (\<forall>i < n. umem sp (?cur + of_nat c + of_nat i) \<noteq> 0)" for n
          unfolding shift [symmetric] using none
          by (metis add_less_cancel_left le_add_diff_inverse not_less)
        have "?R (c + n) \<longleftrightarrow> offset + c + n < max_len \<and> user_bytes sp False (?cur + of_nat c) (Suc n) \<and>
          umem sp (?cur + of_nat c + of_nat n) = 0 \<and> (\<forall>i < n. umem sp (?cur + of_nat c + of_nat i) \<noteq> 0) \<and>
          str = (bs @ ?chunk) @ umem_read sp (?cur + of_nat c) n \<and> utf8_valid str" for n
          by (simp only: ub all shift umem_read_append append_assoc add.assoc [of offset c n])
        then have "(\<exists>n. ?R (c + n)) \<longleftrightarrow> copy_c_loop virt_ok can_reserve sp p max_len offset bs = Inr str"
          unfolding step None option.case IH by simp
        moreover have "\<exists>k. n = c + k" if "?R n" for n
          using that none by (meson le_iff_add not_less)
        then have "(\<exists>n. ?R n) \<longleftrightarrow> (\<exists>n. ?R (c + n))" by blast
        ultimately show ?thesis by blast
      qed
    qed
  qed
qed

text \<open>
  C15. \<open>copy_c_string\<close> always returns, and it returns a string exactly when the pointer is not null and,
  within the limit, a zero byte follows bytes that are not zero, all of them up to and including the
  zero byte readable user memory, and the bytes before it are valid UTF-8; those bytes are the result.
  Pages behind the one with the zero byte need not be mapped.
\<close>

theorem copy_c_string_exact:
  assumes "\<forall>a. is_user_address a \<longrightarrow> virt_ok a" and "\<forall>n. can_reserve n" and "max_len < 2 ^ 64"
  shows "copy_c_string virt_ok can_reserve sp p max_len = Inr str \<longleftrightarrow>
    p \<noteq> 0 \<and> (\<exists>n < max_len. user_bytes sp False p (Suc n) \<and> umem sp (p + of_nat n) = 0 \<and>
       (\<forall>i < n. umem sp (p + of_nat i) \<noteq> 0) \<and> str = umem_read sp p n \<and> utf8_valid str)"
proof (cases "p = 0 \<or> max_len = 0")
  case True
  then show ?thesis by (auto simp: copy_c_string_def)
next
  case False
  then have p: "p \<noteq> 0" "0 < max_len" by auto
  show ?thesis
  proof (cases "unat p \<le> 2 ^ 47")
    case True
    then show ?thesis using copy_c_loop_ok [OF assms(1,2) p(1) assms(3), of 0 sp "[]" str] p
      by (simp add: copy_c_string_def)
  next
    case big: False
    define c where "c = min max_len (bytes_until_page_end p)"
    have c: "c < 2 ^ 64" "0 < c" using assms(3) p(2) bytes_until_page_end_bounds [of p] by (auto simp: c_def)
    have out: "\<not> user_bytes sp False p n" if "0 < n" for n using big that by (simp add: user_bytes_def)
    then obtain e where "user_slice_new virt_ok sp p c False = Inl e"
      using user_slice_new_cases [OF assms(1) c(1), of p sp False] c(2) by auto
    then have "copy_c_loop virt_ok can_reserve sp p max_len 0 [] = Inl (System e)"
      using p assms(2) by (subst copy_c_loop.simps) (simp add: Let_def c_def)
    then show ?thesis using p out by (simp add: copy_c_string_def)
  qed
qed

theorem copy_c_string_exact_witness:
  "copy_c_string is_user_address (\<lambda>_. True) demo_space 0x4000 16 = Inr [0x61, 0x61, 0x61]"
proof -
  have rd: "umem_read demo_space 0x4000 3 = [0x61, 0x61, 0x61]"
    by (simp add: umem_read_def demo_space_def upt_rec)
  have "user_bytes demo_space False 0x4000 (Suc 3)" by (simp add: user_bytes_def demo_page_ok)
  moreover have "umem demo_space (0x4000 + of_nat 3) = 0" by (simp add: demo_space_def)
  moreover have "umem demo_space (0x4000 + of_nat i) \<noteq> 0" if "i < 3" for i :: nat
  proof -
    have "i = 0 \<or> i = 1 \<or> i = 2" using that by linarith
    then show ?thesis by (auto simp: demo_space_def)
  qed
  moreover have "utf8_valid [0x61, 0x61, 0x61]" by (simp add: utf8_valid.simps [of "_ # _"] utf8_valid.simps [of "[]"])
  ultimately have "(0x4000 :: u64) \<noteq> 0 \<and> (\<exists>n < 16. user_bytes demo_space False 0x4000 (Suc n) \<and> umem demo_space (0x4000 + of_nat n) = 0 \<and>
      (\<forall>i < n. umem demo_space (0x4000 + of_nat i) \<noteq> 0) \<and> [0x61, 0x61, 0x61] = umem_read demo_space 0x4000 n \<and>
      utf8_valid [0x61, 0x61, 0x61])"
    by (intro conjI exI [of _ 3]) (simp_all only: rd, simp_all)
  then show ?thesis
    by (subst copy_c_string_exact [of is_user_address "\<lambda>_. True" 16 demo_space "0x4000" "[0x61, 0x61, 0x61]"]) simp_all
qed


section \<open>Huge pages\<close>

lemma has_flag_and: "has_flag (a AND b) HUGE_PAGE \<longleftrightarrow> has_flag a HUGE_PAGE \<and> has_flag b HUGE_PAGE"
  by (auto simp: has_flag_def bit_eq_iff bit_simps)

text \<open>
  C34. The walk for the flags keeps only the flags that all levels have, and looks for the huge page
  flag among those. Below a top-level entry without that flag, which is what the processor requires
  of it, a huge page is therefore never recognised: for an address in a 2 MiB page the walk goes on
  and takes eight bytes of the page's contents for a page table entry.
\<close>

theorem huge_page_read_as_table:
  assumes "p4e = tables sp (l4 sp) (unat (drop_bit 39 v AND 0x1FF))"
    and "p3e = tables sp (entry_addr p4e) (unat (drop_bit 30 v AND 0x1FF))"
    and "p2e = tables sp (entry_addr p3e) (unat (drop_bit 21 v AND 0x1FF))"
    and "has_flag (entry_flags p4e) PRESENT" and "has_flag (entry_flags p3e) PRESENT" and "has_flag (entry_flags p2e) PRESENT"
    and "\<not> has_flag (entry_flags p4e) HUGE_PAGE" and "has_flag (entry_flags p2e) HUGE_PAGE"
  shows "walk_page_table_for_flags sp v =
    (let e = tables sp (entry_addr p2e) (unat (drop_bit 12 v AND 0x1FF)) in
     if has_flag (entry_flags e) PRESENT
     then Some (entry_flags p4e AND entry_flags p3e AND entry_flags p2e AND entry_flags e) else None)"
  using assms by (simp add: walk_page_table_for_flags_def has_flag_and Let_def and.assoc)

definition demo_huge :: UserSpace where
  "demo_huge = demo_space\<lparr>tables := (\<lambda>t i. PageTableEntry (if t = 0x1000 then 0x2007 else if t = 0x2000 then 0x3007
     else if t = 0x3000 then 0x200087 else 0))\<rparr>"

theorem huge_page_read_as_table_witness:
  "walk_page_table_for_flags demo_huge 0x1234 = None"
proof -
  have "entry_flags (PageTableEntry 0x2007) = 7" "entry_flags (PageTableEntry 0x3007) = 7"
    "entry_flags (PageTableEntry 0x200087) = 0x87" "entry_addr (PageTableEntry 0x2007) = 0x2000"
    "entry_addr (PageTableEntry 0x3007) = 0x3000" "entry_addr (PageTableEntry 0x200087) = 0x200000"
    by (simp_all add: entry_flags_def entry_addr_def ADDR_MASK_def)
  then show ?thesis
    using huge_page_read_as_table [of "PageTableEntry 0x2007" demo_huge "0x1234" "PageTableEntry 0x3007" "PageTableEntry 0x200087"]
    by (simp add: demo_huge_def demo_space_def has_flag_def PRESENT_def HUGE_PAGE_def entry_flags_def Let_def)
qed

end
