(* ===== verification/Genome_Io.thy ===== *)
theory Genome_Io
  imports Genome_MemFs
begin

text \<open>
  The stream helpers of \<open>src/genome/src/io.rs\<close>. A reader is a state with a \<open>read\<close> that takes the
  length of the buffer and returns the bytes copied into it. The loops end only if the reader makes
  progress, so they are partial functions; \<open>None\<close> means they do not return.

  The contract of a reader is the locale \<open>byte_reader\<close>: it delivers a finite sequence of bytes in
  order, possibly fewer at a time than asked for, and nothing only at its end.
\<close>

type_synonym 'r reader = "nat \<Rightarrow> 'r \<Rightarrow> (FsError + bytes) \<times> 'r"

datatype SeekFrom = Start u64 | End int | Current int

text \<open>The bytes \<open>read_exact\<close> puts into the buffer are part of its result.\<close>

partial_function (option) read_exact_loop ::
    "'r reader \<Rightarrow> nat \<Rightarrow> bytes \<Rightarrow> 'r \<Rightarrow> ((FsError + bytes) \<times> 'r) option" where
  "read_exact_loop rd n acc r =
     (if n = 0 then Some (Inr acc, r)
      else case rd n r of
        (Inl e, r') \<Rightarrow> Some (Inl e, r')
      | (Inr bs, r') \<Rightarrow>
          if bs = [] then Some (Inl UnexpectedEof, r')
          else read_exact_loop rd (n - length bs) (acc @ bs) r')"

definition read_exact :: "'r reader \<Rightarrow> nat \<Rightarrow> 'r \<Rightarrow> ((FsError + bytes) \<times> 'r) option" where
  "read_exact rd n r = read_exact_loop rd n [] r"

partial_function (option) read_to_end_loop ::
    "'r reader \<Rightarrow> nat \<Rightarrow> bytes \<Rightarrow> 'r \<Rightarrow> ((FsError + bytes) \<times> 'r) option" where
  "read_to_end_loop rd limit output r =
     (if length output = limit then
        (case rd 1 r of
           (Inl e, r') \<Rightarrow> Some (Inl e, r')
         | (Inr probe, r') \<Rightarrow> if probe \<noteq> [] then Some (Inl DiskFull, r') else Some (Inr output, r'))
      else
        let want = min 4096 (limit - length output) in
        (case rd want r of
           (Inl e, r') \<Rightarrow> Some (Inl e, r')
         | (Inr chunk, r') \<Rightarrow>
             if chunk = [] then Some (Inr output, r') else read_to_end_loop rd limit (output @ chunk) r'))"

definition read_to_end_with_limit :: "'r reader \<Rightarrow> nat \<Rightarrow> 'r \<Rightarrow> ((FsError + bytes) \<times> 'r) option" where
  "read_to_end_with_limit rd limit r = read_to_end_loop rd limit [] r"


section \<open>Readers that deliver a sequence of bytes\<close>

locale byte_reader =
  fixes rd :: "'r reader" and rest :: "'r \<Rightarrow> bytes option"
  assumes rd_progress: "rest r = Some bs \<Longrightarrow>
     \<exists>k r'. rd n r = (Inr (take k bs), r') \<and> k \<le> n \<and> (0 < n \<longrightarrow> 0 < k) \<and> rest r' = Some (drop k bs)"
begin

lemma read_exact_loop_result:
  assumes "rest r = Some bs"
  shows "\<exists>r'. read_exact_loop rd n acc r =
      Some (if n \<le> length bs then Inr (acc @ take n bs) else Inl UnexpectedEof, r') \<and>
      rest r' = Some (drop n bs)"
  using assms
proof (induction n arbitrary: acc r bs rule: less_induct)
  case (less n)
  show ?case
  proof (cases "n = 0")
    case True
    with less.prems show ?thesis by (subst read_exact_loop.simps) simp
  next
    case False
    with rd_progress [OF less.prems, of n] obtain k r1 where k: "rd n r = (Inr (take k bs), r1)" "k \<le> n" "0 < k"
      "rest r1 = Some (drop k bs)" by auto
    show ?thesis
    proof (cases "bs = []")
      case True
      with False k show ?thesis by (subst read_exact_loop.simps) simp
    next
      case ne: False
      let ?l = "length (take k bs)"
      have l: "0 < ?l" "?l \<le> n" "drop ?l bs = drop k bs" "take k bs = take ?l bs"
        using k ne by (auto simp: min_def)
      have "n - ?l < n" using l False by simp
      from less.IH [OF this k(4), of "acc @ take k bs"] obtain r' where
        r': "read_exact_loop rd (n - ?l) (acc @ take k bs) r1 =
          Some (if n - ?l \<le> length (drop k bs) then Inr ((acc @ take k bs) @ take (n - ?l) (drop k bs))
                else Inl UnexpectedEof, r')" "rest r' = Some (drop (n - ?l) (drop k bs))" by blast
      have "read_exact_loop rd n acc r = read_exact_loop rd (n - ?l) (acc @ take k bs) r1"
        using False k ne by (subst read_exact_loop.simps) auto
      moreover have "n - ?l \<le> length (drop k bs) \<longleftrightarrow> n \<le> length bs"
        using l by (cases "k \<le> length bs") auto
      moreover have "take k bs @ take (n - ?l) (drop k bs) = take n bs"
        using l(2,3,4) by (metis le_add_diff_inverse take_add)
      moreover have "drop (n - ?l) (drop k bs) = drop n bs"
        using l(2,3) by (metis drop_drop le_add_diff_inverse2)
      ultimately show ?thesis using r' by (intro exI [of _ r']) auto
    qed
  qed
qed

lemma read_to_end_loop_result:
  assumes "rest r = Some bs" and "length out \<le> limit"
  shows "\<exists>r'. read_to_end_loop rd limit out r =
     Some (if length out + length bs \<le> limit then Inr (out @ bs) else Inl DiskFull, r')"
  using assms
proof (induction "limit - length out" arbitrary: out r bs rule: less_induct)
  case less
  show ?case
  proof (cases "length out = limit")
    case True
    from rd_progress [OF less.prems(1), of 1] obtain k r1 where k: "rd 1 r = (Inr (take k bs), r1)" "0 < k" by auto
    with True show ?thesis by (subst read_to_end_loop.simps) auto
  next
    case False
    let ?w = "min 4096 (limit - length out)"
    have w: "0 < ?w" using False less.prems(2) by simp
    with rd_progress [OF less.prems(1), of ?w] obtain k r1 where k: "rd ?w r = (Inr (take k bs), r1)"
      "k \<le> ?w" "0 < k" "rest r1 = Some (drop k bs)" by auto
    show ?thesis
    proof (cases "bs = []")
      case True
      with False k less.prems(2) show ?thesis by (subst read_to_end_loop.simps) (simp add: Let_def)
    next
      case ne: False
      have l: "0 < length (take k bs)" "length (take k bs) \<le> limit - length out" using k ne by auto
      have "limit - length (out @ take k bs) < limit - length out" "length (out @ take k bs) \<le> limit"
        using l less.prems(2) unfolding length_append by linarith+
      from less.hyps [OF this(1) k(4) this(2)] obtain r' where
        r': "read_to_end_loop rd limit (out @ take k bs) r1 =
          Some (if length (out @ take k bs) + length (drop k bs) \<le> limit
                then Inr ((out @ take k bs) @ drop k bs) else Inl DiskFull, r')" by blast
      have "read_to_end_loop rd limit out r = read_to_end_loop rd limit (out @ take k bs) r1"
        using False k(1,3) ne by (subst read_to_end_loop.simps) (simp add: Let_def)
      moreover have "length (out @ take k bs) + length (drop k bs) = length out + length bs" by simp
      ultimately show ?thesis using r' by (simp add: add.assoc)
    qed
  qed
qed

end

end
