(* ===== verification/Genome_Vfs.thy ===== *)
theory Genome_Vfs
  imports Genome_Io
begin

text \<open>
  The mount table and dispatcher \<open>Vfs\<close> of \<open>src/genome/src/vfs.rs\<close>, and the reader \<open>VfsFile\<close> it hands
  out. The trait \<open>FileSystem\<close> is a record of its methods over the state of a file system; a boxed
  trait object is such a state, and the record is an argument of every operation. The raw pointer
  of \<open>fs_ptr_at\<close> is not modelled.
\<close>

section \<open>File systems\<close>

record 'f FileSystem =
  capabilities :: FileSystemCapabilities
  fs_open :: "string \<Rightarrow> u32 \<Rightarrow> 'f \<Rightarrow> FileDescriptor option \<times> 'f"
  fs_read :: "u32 \<Rightarrow> nat \<Rightarrow> 'f \<Rightarrow> (FsError + bytes) \<times> 'f"
  fs_write :: "u32 \<Rightarrow> bytes \<Rightarrow> 'f \<Rightarrow> (FsError + nat) \<times> 'f"
  fs_close :: "u32 \<Rightarrow> 'f \<Rightarrow> (FsError + unit) \<times> 'f"
  fs_seek :: "u32 \<Rightarrow> u64 \<Rightarrow> 'f \<Rightarrow> (FsError + unit) \<times> 'f"
  fs_position :: "u32 \<Rightarrow> 'f \<Rightarrow> (FsError + u64) \<times> 'f"
  fs_size :: "u32 \<Rightarrow> 'f \<Rightarrow> (FsError + u64) \<times> 'f"
  fs_create :: "string \<Rightarrow> InodeType \<Rightarrow> 'f \<Rightarrow> u64 option \<times> 'f"
  fs_mkdir :: "string \<Rightarrow> 'f \<Rightarrow> (FsError + unit) \<times> 'f"
  fs_unlink :: "string \<Rightarrow> 'f \<Rightarrow> (FsError + unit) \<times> 'f"
  fs_readdir :: "string \<Rightarrow> 'f \<Rightarrow> (FsError + VNode list) \<times> 'f"
  fs_exists :: "string \<Rightarrow> 'f \<Rightarrow> bool \<times> 'f"

definition memfs :: "MemFileSystem FileSystem" where
  "memfs = \<lparr>capabilities = mem_capabilities, fs_open = mem_open, fs_read = mem_read, fs_write = mem_write,
     fs_close = mem_close, fs_seek = mem_seek, fs_position = mem_position, fs_size = mem_size,
     fs_create = mem_create, fs_mkdir = mem_mkdir, fs_unlink = mem_unlink, fs_readdir = mem_readdir,
     fs_exists = mem_exists\<rparr>"


section \<open>The mount table\<close>

record 'f MountEntry =
  mount_point :: string
  mfs :: 'f

record 'f Vfs =
  mounts :: "'f MountEntry list"
  wd :: string

definition vfs_new :: "'f \<Rightarrow> 'f Vfs" where
  "vfs_new root_fs = \<lparr>mounts = [\<lparr>mount_point = [SLASH], mfs = root_fs\<rparr>], wd = [SLASH]\<rparr>"

definition resolve_path :: "'f Vfs \<Rightarrow> string \<Rightarrow> string" where
  "resolve_path v path =
     (if prefix [SLASH] path then normalize_path path
      else if path = [] then wd v
      else let base = (if wd v \<noteq> [] \<and> last (wd v) = SLASH then wd v else wd v @ [SLASH])
           in normalize_path (base @ path))"

text \<open>\<open>Iterator::max_by_key\<close> returns the last of several maximal elements.\<close>

fun max_by_key :: "('a \<Rightarrow> nat) \<Rightarrow> 'a list \<Rightarrow> 'a option" where
  "max_by_key f [] = None"
| "max_by_key f (x # xs) = (case max_by_key f xs of
     None \<Rightarrow> Some x
   | Some y \<Rightarrow> if f x \<le> f y then Some y else Some x)"

definition find_fs_index_for_absolute_path :: "'f Vfs \<Rightarrow> string \<Rightarrow> nat option" where
  "find_fs_index_for_absolute_path v path =
     (if \<not> prefix [SLASH] path then None
      else map_option fst
        (max_by_key (\<lambda>(_, entry). length (mount_point entry))
          (filter (\<lambda>(_, entry). relative_to_mount path (mount_point entry) \<noteq> None)
            (enumerate 0 (mounts v)))))"

definition find_fs_index :: "'f Vfs \<Rightarrow> string \<Rightarrow> nat option" where
  "find_fs_index v path = find_fs_index_for_absolute_path v (resolve_path v path)"

definition find_fs_for_path :: "'f Vfs \<Rightarrow> string \<Rightarrow> (nat \<times> string) option" where
  "find_fs_for_path v path =
     (let absolute = resolve_path v path in do {
        index \<leftarrow> find_fs_index_for_absolute_path v absolute;
        remaining \<leftarrow> relative_to_mount absolute (mount_point (mounts v ! index));
        Some (index, remaining) })"

text \<open>A mutable borrow of a mounted file system is the index of its mount.\<close>

definition find_fs :: "'f Vfs \<Rightarrow> string \<Rightarrow> (nat \<times> string) option" where
  "find_fs v absolute_path =
     (if \<not> prefix [SLASH] absolute_path then None
      else do {
        index \<leftarrow> find_fs_index_for_absolute_path v absolute_path;
        remaining \<leftarrow> relative_to_mount absolute_path (mount_point (mounts v ! index));
        if index < length (mounts v) then Some (index, remaining) else None })"

definition set_fs :: "nat \<Rightarrow> 'f \<Rightarrow> 'f Vfs \<Rightarrow> 'f Vfs" where
  "set_fs i f v = v\<lparr>mounts := (mounts v)[i := (mounts v ! i)\<lparr>mfs := f\<rparr>]\<rparr>"

definition mounted_fs_index :: "'f Vfs \<Rightarrow> string \<Rightarrow> nat option" where
  "mounted_fs_index v mp =
     (let mp' = normalize_path mp
      in find (\<lambda>i. mount_point (mounts v ! i) = mp') [0..<length (mounts v)])"

definition resolve_and_find :: "'f Vfs \<Rightarrow> string \<Rightarrow> (nat \<times> string) option" where
  "resolve_and_find v path = find_fs v (resolve_path v path)"

definition change_directory :: "'f FileSystem \<Rightarrow> string \<Rightarrow> 'f Vfs \<Rightarrow> (FsError + unit) \<times> 'f Vfs" where
  "change_directory F path v =
     (let resolved = resolve_path v path in
      case find_fs v resolved of
        None \<Rightarrow> (Inl FileNotFound, v)
      | Some (i, remaining) \<Rightarrow>
          (case fs_readdir F remaining (mfs (mounts v ! i)) of
             (Inl e, f') \<Rightarrow> (Inl e, set_fs i f' v)
           | (Inr _, f') \<Rightarrow> (Inr (), (set_fs i f' v)\<lparr>wd := resolved\<rparr>)))"

fun replace_mount :: "string \<Rightarrow> 'f \<Rightarrow> 'f MountEntry list \<Rightarrow> 'f MountEntry list option" where
  "replace_mount mp f [] = None"
| "replace_mount mp f (m # ms) =
     (if mount_point m = mp then Some (m\<lparr>mfs := f\<rparr> # ms) else map_option ((#) m) (replace_mount mp f ms))"

definition mount_entry :: "string \<Rightarrow> 'f \<Rightarrow> 'f Vfs \<Rightarrow> 'f Vfs" where
  "mount_entry mp f v = (case replace_mount mp f (mounts v) of
     Some ms \<Rightarrow> v\<lparr>mounts := ms\<rparr>
   | None \<Rightarrow> v\<lparr>mounts := mounts v @ [\<lparr>mount_point = mp, mfs = f\<rparr>]\<rparr>)"

definition vfs_mount :: "'f FileSystem \<Rightarrow> string \<Rightarrow> 'f \<Rightarrow> 'f Vfs \<Rightarrow> (FsError + unit) \<times> 'f Vfs" where
  "vfs_mount F mpath f v =
     (let mp = normalize_path mpath in
      if mp \<noteq> [SLASH] then
        (case find_fs v mp of
           None \<Rightarrow> (Inl FileNotFound, v)
         | Some (i, remaining) \<Rightarrow>
             (case fs_readdir F remaining (mfs (mounts v ! i)) of
                (Inl e, f') \<Rightarrow> (Inl (if e = NotADirectory then NotADirectory else FileNotFound), set_fs i f' v)
              | (Inr _, f') \<Rightarrow> (Inr (), mount_entry mp f (set_fs i f' v))))
      else (Inr (), mount_entry mp f v))"

definition vfs_unmount :: "string \<Rightarrow> 'f Vfs \<Rightarrow> (FsError + bool) \<times> 'f Vfs" where
  "vfs_unmount mpath v =
     (let mp = normalize_path mpath in
      if mp = [SLASH] then (Inl InvalidInput, v)
      else let len_before = length (mounts v);
               ms = filter (\<lambda>m. mount_point m \<noteq> mp) (mounts v)
           in (Inr (length ms < len_before), v\<lparr>mounts := ms\<rparr>))"


section \<open>Dispatch\<close>

definition with_fs :: "string \<Rightarrow> (string \<Rightarrow> 'f \<Rightarrow> 'a option \<times> 'f) \<Rightarrow> 'f Vfs \<Rightarrow> 'a option \<times> 'f Vfs" where
  "with_fs path f v = (case resolve_and_find v path of
     None \<Rightarrow> (None, v)
   | Some (i, p) \<Rightarrow> (case f p (mfs (mounts v ! i)) of (r, s) \<Rightarrow> (r, set_fs i s v)))"

definition with_fs_result ::
    "string \<Rightarrow> (string \<Rightarrow> 'f \<Rightarrow> (FsError + 'a) \<times> 'f) \<Rightarrow> 'f Vfs \<Rightarrow> (FsError + 'a) \<times> 'f Vfs" where
  "with_fs_result path f v = (case resolve_and_find v path of
     None \<Rightarrow> (Inl FileNotFound, v)
   | Some (i, p) \<Rightarrow> (case f p (mfs (mounts v ! i)) of (r, s) \<Rightarrow> (r, set_fs i s v)))"

text \<open>The operations on a mount index.\<close>

definition at_mount :: "nat \<Rightarrow> ('f \<Rightarrow> (FsError + 'a) \<times> 'f) \<Rightarrow> 'f Vfs \<Rightarrow> (FsError + 'a) \<times> 'f Vfs" where
  "at_mount i f v =
     (if i < length (mounts v) then (case f (mfs (mounts v ! i)) of (r, s) \<Rightarrow> (r, set_fs i s v))
      else (Inl InvalidFileDescriptor, v))"

definition vfs_open :: "'f FileSystem \<Rightarrow> string \<Rightarrow> u32 \<Rightarrow> 'f Vfs \<Rightarrow> FileDescriptor option \<times> 'f Vfs" where
  "vfs_open F path flags v = with_fs path (\<lambda>p. fs_open F p flags) v"

definition read_at :: "'f FileSystem \<Rightarrow> nat \<Rightarrow> u32 \<Rightarrow> nat \<Rightarrow> 'f Vfs \<Rightarrow> (FsError + bytes) \<times> 'f Vfs" where
  "read_at F i fd n v = at_mount i (fs_read F fd n) v"

definition write_at :: "'f FileSystem \<Rightarrow> nat \<Rightarrow> u32 \<Rightarrow> bytes \<Rightarrow> 'f Vfs \<Rightarrow> (FsError + nat) \<times> 'f Vfs" where
  "write_at F i fd data v = at_mount i (fs_write F fd data) v"

definition close_at :: "'f FileSystem \<Rightarrow> nat \<Rightarrow> u32 \<Rightarrow> 'f Vfs \<Rightarrow> (FsError + unit) \<times> 'f Vfs" where
  "close_at F i fd v = at_mount i (fs_close F fd) v"

definition seek_at :: "'f FileSystem \<Rightarrow> nat \<Rightarrow> u32 \<Rightarrow> u64 \<Rightarrow> 'f Vfs \<Rightarrow> (FsError + unit) \<times> 'f Vfs" where
  "seek_at F i fd pos v = at_mount i (fs_seek F fd pos) v"

definition position_at :: "'f FileSystem \<Rightarrow> nat \<Rightarrow> u32 \<Rightarrow> 'f Vfs \<Rightarrow> (FsError + u64) \<times> 'f Vfs" where
  "position_at F i fd v = at_mount i (fs_position F fd) v"

definition size_at :: "'f FileSystem \<Rightarrow> nat \<Rightarrow> u32 \<Rightarrow> 'f Vfs \<Rightarrow> (FsError + u64) \<times> 'f Vfs" where
  "size_at F i fd v = at_mount i (fs_size F fd) v"

definition vfs_create :: "'f FileSystem \<Rightarrow> string \<Rightarrow> 'f Vfs \<Rightarrow> u64 option \<times> 'f Vfs" where
  "vfs_create F path v = with_fs path (\<lambda>p. fs_create F p File) v"

definition vfs_mkdir :: "'f FileSystem \<Rightarrow> string \<Rightarrow> 'f Vfs \<Rightarrow> (FsError + unit) \<times> 'f Vfs" where
  "vfs_mkdir F path v = with_fs_result path (fs_mkdir F) v"

definition vfs_unlink :: "'f FileSystem \<Rightarrow> string \<Rightarrow> 'f Vfs \<Rightarrow> (FsError + unit) \<times> 'f Vfs" where
  "vfs_unlink F path v = with_fs_result path (fs_unlink F) v"

definition vfs_readdir :: "'f FileSystem \<Rightarrow> string \<Rightarrow> 'f Vfs \<Rightarrow> (FsError + VNode list) \<times> 'f Vfs" where
  "vfs_readdir F path v = with_fs_result path (fs_readdir F) v"

definition vfs_exists :: "'f FileSystem \<Rightarrow> string \<Rightarrow> 'f Vfs \<Rightarrow> bool \<times> 'f Vfs" where
  "vfs_exists F path v = (case resolve_and_find v path of
     None \<Rightarrow> (False, v)
   | Some (i, p) \<Rightarrow> (case fs_exists F p (mfs (mounts v ! i)) of (r, s) \<Rightarrow> (r, set_fs i s v)))"


section \<open>Scoped readers\<close>

record 'f VfsFile =
  vf_vfs :: "'f Vfs"
  mount_index :: nat
  vf_fd :: u32
  vf_position :: u64

definition open_reader :: "'f FileSystem \<Rightarrow> string \<Rightarrow> 'f Vfs \<Rightarrow> (FsError + 'f VfsFile) \<times> 'f Vfs" where
  "open_reader F path v = (case find_fs_index v path of
     None \<Rightarrow> (Inl FileNotFound, v)
   | Some i \<Rightarrow> (case vfs_open F path 0 v of
       (None, v') \<Rightarrow> (Inl FileNotFound, v')
     | (Some d, v') \<Rightarrow>
         (Inr \<lparr>vf_vfs = v', mount_index = i, vf_fd = fd_no d, vf_position = fd_offset d\<rparr>, v')))"

definition vf_read :: "'f FileSystem \<Rightarrow> nat \<Rightarrow> 'f VfsFile \<Rightarrow> (FsError + bytes) \<times> 'f VfsFile" where
  "vf_read F n r = (case read_at F (mount_index r) (vf_fd r) n (vf_vfs r) of
     (Inl e, v) \<Rightarrow> (Inl e, r\<lparr>vf_vfs := v\<rparr>)
   | (Inr bs, v) \<Rightarrow> (case checked_add (vf_position r) (of_nat (length bs)) of
       None \<Rightarrow> (Inl InvalidSeek, r\<lparr>vf_vfs := v\<rparr>)
     | Some p \<Rightarrow> (Inr bs, r\<lparr>vf_vfs := v, vf_position := p\<rparr>)))"

definition vf_len :: "'f FileSystem \<Rightarrow> 'f VfsFile \<Rightarrow> (FsError + u64) \<times> 'f VfsFile" where
  "vf_len F r = (case size_at F (mount_index r) (vf_fd r) (vf_vfs r) of (x, v) \<Rightarrow> (x, r\<lparr>vf_vfs := v\<rparr>))"

definition checked_add_signed :: "u64 \<Rightarrow> int \<Rightarrow> u64 option" where
  "checked_add_signed a d =
     (if 0 \<le> uint a + d \<and> uint a + d < 2 ^ 64 then Some (of_int (uint a + d)) else None)"

definition seek_to :: "'f FileSystem \<Rightarrow> u64 \<Rightarrow> 'f VfsFile \<Rightarrow> (FsError + u64) \<times> 'f VfsFile" where
  "seek_to F absolute r = (case seek_at F (mount_index r) (vf_fd r) absolute (vf_vfs r) of
     (Inl e, v) \<Rightarrow> (Inl e, r\<lparr>vf_vfs := v\<rparr>)
   | (Inr _, v) \<Rightarrow> (Inr absolute, r\<lparr>vf_vfs := v, vf_position := absolute\<rparr>))"

definition vf_seek :: "'f FileSystem \<Rightarrow> SeekFrom \<Rightarrow> 'f VfsFile \<Rightarrow> (FsError + u64) \<times> 'f VfsFile" where
  "vf_seek F pos r = (case pos of
     Start offset \<Rightarrow> seek_to F offset r
   | Current offset \<Rightarrow> (case checked_add_signed (vf_position r) offset of
       None \<Rightarrow> (Inl InvalidSeek, r)
     | Some a \<Rightarrow> seek_to F a r)
   | End offset \<Rightarrow> (case vf_len F r of
       (Inl e, r') \<Rightarrow> (Inl e, r')
     | (Inr len, r') \<Rightarrow> (case checked_add_signed len offset of
         None \<Rightarrow> (Inl InvalidSeek, r')
       | Some a \<Rightarrow> seek_to F a r')))"

definition vf_drop :: "'f FileSystem \<Rightarrow> 'f VfsFile \<Rightarrow> 'f Vfs" where
  "vf_drop F r = snd (close_at F (mount_index r) (vf_fd r) (vf_vfs r))"



section \<open>Routing\<close>

definition normal :: "string \<Rightarrow> bool" where
  "normal p \<longleftrightarrow> normalize_path p = p"

text \<open>Mount points are normalised and different, the root is mounted, the working directory is normalised.\<close>

definition vfs_inv :: "'f Vfs \<Rightarrow> bool" where
  "vfs_inv v \<longleftrightarrow> (\<forall>m \<in> set (mounts v). normal (mount_point m)) \<and> distinct (map mount_point (mounts v)) \<and>
     [SLASH] \<in> mount_point ` set (mounts v) \<and> normal (wd v)"

lemma normal_abs: "normal p \<Longrightarrow> p = abs_path (path_comps p)"
  by (metis normal_def normalize_path_comps)

lemma normal_normalize: "normal (normalize_path p)"
  unfolding normal_def normalize_path_comps [of p]
  using path_comps_clean by (intro normalize_abs_path) blast

lemma normal_root: "normal [SLASH]"
  by (simp add: normal_def normalize_path_def)

lemma path_comps_root: "path_comps [SLASH] = []"
  by (simp add: path_comps_def)

lemma normal_slash: "normal p \<Longrightarrow> prefix [SLASH] p"
  by (drule normal_abs) (metis abs_path_def append_Cons append_Nil prefixI)

lemma resolve_path_normal: "normal (wd v) \<Longrightarrow> normal (resolve_path v path)"
  by (simp add: resolve_path_def normal_normalize Let_def)

lemma relative_to_mount_normal:
  assumes "normal p" and "normal mp"
  shows "relative_to_mount p mp =
    (if prefix (path_comps mp) (path_comps p)
     then Some (push_components (drop (length (path_comps mp)) (path_comps p))) else None)"
  using relative_to_mount_comps [of "path_comps p" "path_comps mp"] path_comps_clean
    normal_abs [OF assms(1)] normal_abs [OF assms(2)] by metis

lemma abs_path_shorter:
  assumes "strict_prefix ms ns" and "\<forall>c \<in> set ns. clean_comp c"
  shows "length (abs_path ms) < length (abs_path ns)"
proof -
  from assms(1) obtain rs where ns: "ns = ms @ rs" "rs \<noteq> []" by (auto simp: strict_prefix_def prefix_def)
  have "push_components rs \<noteq> []" using push_components_Nil_iff [of rs] assms(2) ns by auto
  then show ?thesis
    using ns by (cases "ms = []") (simp_all add: abs_path_def push_components_append)
qed

lemma max_by_key_Some:
  "max_by_key f xs = Some x \<Longrightarrow> x \<in> set xs \<and> (\<forall>y \<in> set xs. f y \<le> f x)"
proof (induction xs arbitrary: x)
  case (Cons a xs)
  show ?case
  proof (cases "max_by_key f xs")
    case None
    then have "xs = []" by (cases xs) (auto split: option.splits if_splits)
    with Cons.prems show ?thesis by simp
  next
    case (Some y)
    with Cons.IH [OF Some] Cons.prems show ?thesis by (cases "f a \<le> f y") force+
  qed
qed simp

lemma max_by_key_None: "max_by_key f xs = None \<longleftrightarrow> xs = []"
  by (cases xs) (auto split: option.splits)

lemma find_fs_index_routes:
  assumes inv: "vfs_inv v" and p: "normal p"
  shows "\<exists>i. find_fs_index_for_absolute_path v p = Some i \<and> i < length (mounts v) \<and>
     prefix (path_comps (mount_point (mounts v ! i))) (path_comps p) \<and>
     (\<forall>j < length (mounts v). prefix (path_comps (mount_point (mounts v ! j))) (path_comps p) \<longrightarrow>
        j = i \<or> length (path_comps (mount_point (mounts v ! j))) < length (path_comps (mount_point (mounts v ! i))))"
proof -
  let ?xs = "filter (\<lambda>(_, entry). relative_to_mount p (mount_point entry) \<noteq> None) (enumerate 0 (mounts v))"
  have norm: "j < length (mounts v) \<Longrightarrow> normal (mount_point (mounts v ! j))" for j
    using inv by (simp add: vfs_inv_def)
  have mem: "(j, m) \<in> set ?xs \<longleftrightarrow> j < length (mounts v) \<and> m = mounts v ! j \<and>
      prefix (path_comps (mount_point m)) (path_comps p)" for j m
    by (auto simp: in_set_enumerate_eq relative_to_mount_normal [OF p norm] split: if_splits)
  obtain r where r: "r < length (mounts v)" "mount_point (mounts v ! r) = [SLASH]"
    using inv by (auto simp: vfs_inv_def in_set_conv_nth)
  then have "(r, mounts v ! r) \<in> set ?xs" by (simp only: mem path_comps_root simp_thms Nil_prefix)
  then obtain i m where im: "max_by_key (\<lambda>(_, entry). length (mount_point entry)) ?xs = Some (i, m)"
    by (metis max_by_key_None empty_iff list.set(1) option.exhaust surj_pair)
  have i: "i < length (mounts v)" "m = mounts v ! i" "prefix (path_comps (mount_point m)) (path_comps p)"
    using max_by_key_Some [OF im] mem [of i m] by auto
  have "find_fs_index_for_absolute_path v p = Some i"
    using im normal_slash [OF p] by (simp add: find_fs_index_for_absolute_path_def)
  moreover have "j = i \<or> length (path_comps (mount_point (mounts v ! j))) < length (path_comps (mount_point (mounts v ! i)))"
    if j: "j < length (mounts v)" "prefix (path_comps (mount_point (mounts v ! j))) (path_comps p)" for j
  proof (rule disjCI)
    let ?mj = "path_comps (mount_point (mounts v ! j))" and ?mi = "path_comps (mount_point (mounts v ! i))"
    assume "\<not> length ?mj < length ?mi"
    then have pre: "prefix ?mi ?mj"
      using prefix_length_prefix [of ?mi "path_comps p" ?mj] i j by simp
    have "(j, mounts v ! j) \<in> set ?xs" using j mem by simp
    then have "length (mount_point (mounts v ! j)) \<le> length (mount_point (mounts v ! i))"
      using max_by_key_Some [OF im] i(2) by fastforce
    moreover have "strict_prefix ?mi ?mj \<Longrightarrow> length (mount_point (mounts v ! i)) < length (mount_point (mounts v ! j))"
      using abs_path_shorter [of ?mi ?mj] path_comps_clean normal_abs [OF norm] i(1) j(1) by metis
    ultimately have "?mi = ?mj" using pre by (auto simp: strict_prefix_def)
    then have "mount_point (mounts v ! i) = mount_point (mounts v ! j)"
      using normal_abs [OF norm] i(1) j(1) by metis
    with inv i(1) j(1) show "j = i"
      by (auto simp: vfs_inv_def distinct_conv_nth)
  qed
  ultimately show ?thesis using i by blast
qed

lemma resolve_and_find_routes:
  assumes inv: "vfs_inv v"
  shows "\<exists>i. resolve_and_find v path =
       Some (i, push_components (drop (length (path_comps (mount_point (mounts v ! i)))) (path_comps (resolve_path v path)))) \<and>
     find_fs_index v path = Some i \<and> i < length (mounts v) \<and>
     prefix (path_comps (mount_point (mounts v ! i))) (path_comps (resolve_path v path)) \<and>
     (\<forall>j < length (mounts v). prefix (path_comps (mount_point (mounts v ! j))) (path_comps (resolve_path v path)) \<longrightarrow>
        j = i \<or> length (path_comps (mount_point (mounts v ! j))) < length (path_comps (mount_point (mounts v ! i))))"
proof -
  have p: "normal (resolve_path v path)" using inv by (simp add: vfs_inv_def resolve_path_normal)
  from find_fs_index_routes [OF inv p] obtain i where i:
    "find_fs_index_for_absolute_path v (resolve_path v path) = Some i" "i < length (mounts v)"
    "prefix (path_comps (mount_point (mounts v ! i))) (path_comps (resolve_path v path))"
    "\<forall>j < length (mounts v). prefix (path_comps (mount_point (mounts v ! j))) (path_comps (resolve_path v path)) \<longrightarrow>
        j = i \<or> length (path_comps (mount_point (mounts v ! j))) < length (path_comps (mount_point (mounts v ! i)))"
    by blast
  have "normal (mount_point (mounts v ! i))" using inv i(2) by (simp add: vfs_inv_def)
  from relative_to_mount_normal [OF p this] i show ?thesis
    by (intro exI [of _ i]) (simp add: resolve_and_find_def find_fs_def find_fs_index_def normal_slash [OF p])
qed


section \<open>The mount table under every operation\<close>

inductive vfs_step :: "'f FileSystem \<Rightarrow> 'f Vfs \<Rightarrow> 'f Vfs \<Rightarrow> bool" for F where
  step_mount: "vfs_step F v (snd (vfs_mount F path f v))"
| step_unmount: "vfs_step F v (snd (vfs_unmount path v))"
| step_cd: "vfs_step F v (snd (change_directory F path v))"
| step_open: "vfs_step F v (snd (vfs_open F path flags v))"
| step_create: "vfs_step F v (snd (vfs_create F path v))"
| step_mkdir: "vfs_step F v (snd (vfs_mkdir F path v))"
| step_unlink: "vfs_step F v (snd (vfs_unlink F path v))"
| step_readdir: "vfs_step F v (snd (vfs_readdir F path v))"
| step_exists: "vfs_step F v (snd (vfs_exists F path v))"
| step_read_at: "vfs_step F v (snd (read_at F i fd n v))"
| step_write_at: "vfs_step F v (snd (write_at F i fd data v))"
| step_close_at: "vfs_step F v (snd (close_at F i fd v))"
| step_seek_at: "vfs_step F v (snd (seek_at F i fd pos v))"
| step_position_at: "vfs_step F v (snd (position_at F i fd v))"
| step_size_at: "vfs_step F v (snd (size_at F i fd v))"

inductive vfs_reachable :: "'f FileSystem \<Rightarrow> 'f Vfs \<Rightarrow> bool" for F where
  vfs_start: "vfs_reachable F (vfs_new f)"
| vfs_next: "vfs_reachable F v \<Longrightarrow> vfs_step F v v' \<Longrightarrow> vfs_reachable F v'"

inductive_cases vfs_stepE: "vfs_step F v v'"

lemma vfs_inv_new: "vfs_inv (vfs_new f)"
  by (simp add: vfs_inv_def vfs_new_def normal_root)

lemma set_fs_points:
  "map mount_point (mounts (set_fs i f v)) = map mount_point (mounts v)" "wd (set_fs i f v) = wd v"
proof -
  show "map mount_point (mounts (set_fs i f v)) = map mount_point (mounts v)"
  proof (rule nth_equalityI)
    fix j
    assume "j < length (map mount_point (mounts (set_fs i f v)))"
    then show "map mount_point (mounts (set_fs i f v)) ! j = map mount_point (mounts v) ! j"
      by (cases "j = i") (simp_all add: set_fs_def)
  qed (simp add: set_fs_def)
qed (simp add: set_fs_def)

lemma vfs_inv_points:
  "vfs_inv v \<longleftrightarrow> (\<forall>p \<in> set (map mount_point (mounts v)). normal p) \<and> distinct (map mount_point (mounts v)) \<and>
     [SLASH] \<in> set (map mount_point (mounts v)) \<and> normal (wd v)"
  by (simp add: vfs_inv_def)

lemma vfs_inv_set_fs: "vfs_inv v \<Longrightarrow> vfs_inv (set_fs i f v)"
  unfolding vfs_inv_points set_fs_points .

lemma replace_mount_points:
  "replace_mount mp f ms = Some ms' \<Longrightarrow> map mount_point ms' = map mount_point ms"
  by (induction ms arbitrary: ms') (auto split: if_splits)

lemma replace_mount_None: "replace_mount mp f ms = None \<longleftrightarrow> mp \<notin> mount_point ` set ms"
  by (induction ms) auto

lemma vfs_inv_mount_entry: "vfs_inv v \<Longrightarrow> normal mp \<Longrightarrow> vfs_inv (mount_entry mp f v)"
proof (cases "replace_mount mp f (mounts v)")
  case None
  assume "vfs_inv v" "normal mp"
  moreover have "mounts (mount_entry mp f v) = mounts v @ [\<lparr>mount_point = mp, mfs = f\<rparr>]" "wd (mount_entry mp f v) = wd v"
    using None by (simp_all add: mount_entry_def)
  ultimately show ?thesis using None by (simp add: vfs_inv_def replace_mount_None)
next
  case (Some ms)
  assume "vfs_inv v"
  moreover have "mounts (mount_entry mp f v) = ms" "wd (mount_entry mp f v) = wd v"
    using Some by (simp_all add: mount_entry_def)
  ultimately show ?thesis
    unfolding vfs_inv_points using replace_mount_points [OF Some] by metis
qed

lemma vfs_inv_filter: "vfs_inv v \<Longrightarrow> mp \<noteq> [SLASH] \<Longrightarrow> vfs_inv (v\<lparr>mounts := filter (\<lambda>m. mount_point m \<noteq> mp) (mounts v)\<rparr>)"
  by (auto simp: vfs_inv_def distinct_map_filter)

lemma vfs_inv_with_fs:
  assumes "vfs_inv v"
  shows "vfs_inv (snd (with_fs path g v))" "vfs_inv (snd (with_fs_result path h v))" "vfs_inv (snd (at_mount i k v))"
  using assms vfs_inv_set_fs [OF assms]
  by (simp_all add: with_fs_def with_fs_result_def at_mount_def split: option.split prod.split)

lemma vfs_inv_step:
  assumes "vfs_step F v v'" and inv: "vfs_inv v"
  shows "vfs_inv v'"
  using assms(1)
proof cases
  case (step_mount path f)
  note entry = vfs_inv_mount_entry [OF inv normal_normalize]
    vfs_inv_mount_entry [OF vfs_inv_set_fs [OF inv] normal_normalize] vfs_inv_set_fs [OF inv] inv
    vfs_inv_mount_entry [OF inv normal_root]
  show ?thesis
  proof (cases "find_fs v (normalize_path path)")
    case None
    then show ?thesis using entry by (simp add: step_mount vfs_mount_def Let_def)
  next
    case (Some ip)
    obtain i p where ip: "ip = (i, p)" by fastforce
    obtain r f' where r: "fs_readdir F p (mfs (mounts v ! i)) = (r, f')" by fastforce
    show ?thesis
      using entry by (cases r) (simp_all add: step_mount vfs_mount_def Let_def Some ip r)
  qed
next
  case (step_unmount path)
  then show ?thesis using inv vfs_inv_filter [OF inv] by (simp add: vfs_unmount_def Let_def)
next
  case (step_cd path)
  have "normal (resolve_path v path)" using inv by (simp add: vfs_inv_def resolve_path_normal)
  then have "vfs_inv ((set_fs i f v)\<lparr>wd := resolve_path v path\<rparr>)" for i f
    using vfs_inv_set_fs [OF inv, of i f] by (simp add: vfs_inv_def)
  then show ?thesis
    unfolding step_cd change_directory_def Let_def
    using inv vfs_inv_set_fs [OF inv] by (simp split: option.split prod.split sum.split)
qed (simp_all add: vfs_open_def vfs_create_def vfs_mkdir_def vfs_unlink_def vfs_readdir_def vfs_exists_def
    read_at_def write_at_def close_at_def seek_at_def position_at_def size_at_def
    vfs_inv_with_fs inv vfs_inv_set_fs split: option.split prod.split)

lemma vfs_reachable_inv: "vfs_reachable F v \<Longrightarrow> vfs_inv v"
  by (induction rule: vfs_reachable.induct) (blast intro: vfs_inv_new vfs_inv_step)+


text \<open>
  C4. However the mount table has been changed by mounting, unmounting, changing directory and file operations, every path, relative or absolute, resolves to exactly one file
  system: the one whose mount point has the most components among those that are a prefix of the
  resolved path. An operation runs on that file system with the components that remain, and leaves
  every other mounted file system, the mount points and the working directory as they were.
\<close>

theorem operations_routed:
  assumes "vfs_reachable F v"
  shows "\<exists>i rel. i < length (mounts v) \<and>
     path_comps (resolve_path v path) = path_comps (mount_point (mounts v ! i)) @ rel \<and>
     (\<forall>j < length (mounts v). prefix (path_comps (mount_point (mounts v ! j))) (path_comps (resolve_path v path)) \<longrightarrow>
        j = i \<or> length (path_comps (mount_point (mounts v ! j))) < length (path_comps (mount_point (mounts v ! i)))) \<and>
     with_fs_result path f v =
       (fst (f (push_components rel) (mfs (mounts v ! i))),
        v\<lparr>mounts := (mounts v)[i := (mounts v ! i)\<lparr>mfs := snd (f (push_components rel) (mfs (mounts v ! i)))\<rparr>]\<rparr>)"
proof -
  from resolve_and_find_routes [OF vfs_reachable_inv [OF assms], of path] obtain i where i: "i < length (mounts v)"
    "prefix (path_comps (mount_point (mounts v ! i))) (path_comps (resolve_path v path))"
    "resolve_and_find v path =
       Some (i, push_components (drop (length (path_comps (mount_point (mounts v ! i)))) (path_comps (resolve_path v path))))"
    "\<forall>j < length (mounts v). prefix (path_comps (mount_point (mounts v ! j))) (path_comps (resolve_path v path)) \<longrightarrow>
        j = i \<or> length (path_comps (mount_point (mounts v ! j))) < length (path_comps (mount_point (mounts v ! i)))"
    by blast
  let ?rel = "drop (length (path_comps (mount_point (mounts v ! i)))) (path_comps (resolve_path v path))"
  have "path_comps (resolve_path v path) = path_comps (mount_point (mounts v ! i)) @ ?rel"
    using i(2) by (auto simp: prefix_def)
  moreover have "with_fs_result path f v =
       (fst (f (push_components ?rel) (mfs (mounts v ! i))),
        v\<lparr>mounts := (mounts v)[i := (mounts v ! i)\<lparr>mfs := snd (f (push_components ?rel) (mfs (mounts v ! i)))\<rparr>]\<rparr>)"
    by (simp add: with_fs_result_def i(3) set_fs_def split: prod.split)
  ultimately show ?thesis using i by blast
qed

definition demo_inode :: Inode where
  "demo_inode = \<lparr>iname = ''f'', kind = File, idata = [7, 8, 9], children = [], parent = 1, target = None, isize = 3\<rparr>"

definition demo_fs :: MemFileSystem where
  "demo_fs = \<lparr>inodes = [1 \<mapsto> (inode_new [] Directory 0)\<lparr>children := [2]\<rparr>, 2 \<mapsto> demo_inode],
     next_ino = 3, fds = Map.empty, next_fd = 0\<rparr>"

lemma demo_vfs_path: "resolve_path (vfs_new f) ''f'' = ''/f''" "path_comps ''/f'' = [''f'']"
  by (simp_all add: resolve_path_def vfs_new_def normalize_path_def path_comps_def)

theorem operations_routed_witness:
  "fst (with_fs_result ''f'' mem_readdir (vfs_new demo_fs)) = fst (mem_readdir ''f'' demo_fs)"
proof -
  from operations_routed [OF vfs_start [of memfs demo_fs], of "''f''" mem_readdir]
  obtain i rel where "i < length (mounts (vfs_new demo_fs))"
    "path_comps (resolve_path (vfs_new demo_fs) ''f'') = path_comps (mount_point (mounts (vfs_new demo_fs) ! i)) @ rel"
    "fst (with_fs_result ''f'' mem_readdir (vfs_new demo_fs)) =
       fst (mem_readdir (push_components rel) (mfs (mounts (vfs_new demo_fs) ! i)))" by auto
  moreover from this have "i = 0" "mounts (vfs_new demo_fs) ! 0 = \<lparr>mount_point = [SLASH], mfs = demo_fs\<rparr>"
    by (simp_all add: vfs_new_def)
  ultimately show ?thesis by (auto simp: demo_vfs_path path_comps_root)
qed


lemma checked_advance:
  assumes "length d < 2 ^ 64"
  shows "checked_add off (of_nat (length (take n (drop (unat off) d)))) =
       Some (off + of_nat (length (take n (drop (unat off) d))))"
    and "drop (unat (off + of_nat (length (take n (drop (unat off) d))) :: u64)) d = drop n (drop (unat off) d)"
proof -
  let ?k = "length (take n (drop (unat off) d))"
  have k: "unat (of_nat ?k :: u64) = ?k" using assms by (intro unat_of_nat_u64) (auto simp: min_def)
  have sum: "unat off + ?k < 2 ^ 64"
    using assms unat_bound [of off] by (cases "unat off \<le> length d") auto
  then have u: "unat (off + of_nat ?k) = unat off + ?k"
    using k by (simp add: unat_word_ariths)
  show "checked_add off (of_nat ?k) = Some (off + of_nat ?k)"
    using sum k by (simp add: checked_add_def)
  show "drop (unat (off + of_nat ?k)) d = drop n (drop (unat off) d)"
    unfolding u by (cases "n \<le> length d - unat off") (auto simp: min_def add.commute)
qed

section \<open>The contract of a file system\<close>

text \<open>
  An open file has an offset and data. Reading copies what is there and advances, writing
  overwrites and extends with zeros, seeking moves the offset only.
\<close>

locale file_store =
  fixes F :: "'f FileSystem" and content :: "'f \<Rightarrow> u32 \<Rightarrow> (u64 \<times> bytes) option"
  assumes content_bound: "content f fd = Some (off, d) \<Longrightarrow> length d < 2 ^ 64"
    and read_law: "content f fd = Some (off, d) \<Longrightarrow>
      \<exists>f'. fs_read F fd n f = (Inr (take n (drop (unat off) d)), f') \<and>
        content f' fd = Some (off + of_nat (length (take n (drop (unat off) d))), d)"
    and seek_law: "content f fd = Some (off, d) \<Longrightarrow>
      \<exists>f'. fs_seek F fd pos f = (Inr (), f') \<and> content f' fd = Some (pos, d)"
    and size_law: "content f fd = Some (off, d) \<Longrightarrow>
      \<exists>f'. fs_size F fd f = (Inr (of_nat (length d)), f') \<and> content f' fd = Some (off, d)"
    and write_law: "content f fd = Some (off, d) \<Longrightarrow> unat off + length bs < 2 ^ 64 \<Longrightarrow>
      \<exists>f'. fs_write F fd bs f = (Inr (length bs), f') \<and>
        content f' fd = Some (off + of_nat (length bs), overwrite_at (unat off) bs d)"
begin

definition vf_content :: "'f VfsFile \<Rightarrow> (u64 \<times> bytes) option" where
  "vf_content r = (if mount_index r < length (mounts (vf_vfs r))
     then content (mfs (mounts (vf_vfs r) ! mount_index r)) (vf_fd r) else None)"

text \<open>What a reader has still to deliver, while its position agrees with the descriptor's.\<close>

definition vf_rest :: "'f VfsFile \<Rightarrow> bytes option" where
  "vf_rest r = (case vf_content r of
     None \<Rightarrow> None
   | Some (off, d) \<Rightarrow> if vf_position r = off then Some (drop (unat off) d) else None)"

lemma vf_read_progress:
  assumes "vf_rest r = Some bs"
  shows "\<exists>k r'. vf_read F n r = (Inr (take k bs), r') \<and> k \<le> n \<and> (0 < n \<longrightarrow> 0 < k) \<and> vf_rest r' = Some (drop k bs)"
proof -
  from assms obtain off d where c: "mount_index r < length (mounts (vf_vfs r))"
    "content (mfs (mounts (vf_vfs r) ! mount_index r)) (vf_fd r) = Some (off, d)"
    and pos: "vf_position r = off" and bs: "bs = drop (unat off) d"
    by (auto simp: vf_rest_def vf_content_def split: option.splits if_splits)
  note b = content_bound [OF c(2)]
  from read_law [OF c(2), of n] obtain f' where f':
    "fs_read F (vf_fd r) n (mfs (mounts (vf_vfs r) ! mount_index r)) = (Inr (take n bs), f')"
    "content f' (vf_fd r) = Some (off + of_nat (length (take n bs)), d)" unfolding bs by blast
  define r' where "r' = r\<lparr>vf_vfs := set_fs (mount_index r) f' (vf_vfs r), vf_position := off + of_nat (length (take n bs))\<rparr>"
  have "vf_read F n r = (Inr (take n bs), r')"
    unfolding vf_read_def read_at_def at_mount_def r'_def
    using c f'(1) checked_advance(1) [OF b, of off n] pos bs by simp
  moreover have "vf_rest r' = Some (drop n bs)"
    using c(1) f'(2) checked_advance(2) [OF b, of off n]
    by (simp add: vf_rest_def vf_content_def r'_def set_fs_def bs)
  ultimately show ?thesis by blast
qed

end

sublocale file_store \<subseteq> vr: byte_reader "vf_read F" vf_rest
  by unfold_locales (rule vf_read_progress)

definition memfs_content :: "MemFileSystem \<Rightarrow> u32 \<Rightarrow> (u64 \<times> bytes) option" where
  "memfs_content fs fd = do {
     desc \<leftarrow> fds fs fd;
     ino \<leftarrow> inodes fs (fd_ino desc);
     if kind ino = File \<and> isize ino = of_nat (length (idata ino)) \<and> length (idata ino) < 2 ^ 64
     then Some (fd_offset desc, idata ino) else None }"

lemma memfs_contentE:
  assumes "memfs_content fs fd = Some (off, d)"
  obtains desc ino where "fds fs fd = Some desc" "inodes fs (fd_ino desc) = Some ino" "kind ino = File"
    "isize ino = of_nat (length d)" "length d < 2 ^ 64" "fd_offset desc = off" "idata ino = d"
  using assms by (auto simp: memfs_content_def bind_eq_Some_conv split: if_splits)


lemma overwrite_at_length: "length (overwrite_at off bs old) = max (length old) (off + length bs)"
  by (simp add: overwrite_at_def Let_def)

lemma memfs_read_law:
  assumes "memfs_content fs fd = Some (off, d)"
  shows "\<exists>fs'. mem_read fd n fs = (Inr (take n (drop (unat off) d)), fs') \<and>
     memfs_content fs' fd = Some (off + of_nat (length (take n (drop (unat off) d))), d)"
proof -
  from memfs_contentE [OF assms] obtain desc ino where di: "fds fs fd = Some desc"
    "inodes fs (fd_ino desc) = Some ino" "kind ino = File"
    "isize ino = of_nat (length d)" "length d < 2 ^ 64" "fd_offset desc = off" "idata ino = d" .
  show ?thesis
  proof (cases "length d \<le> unat off")
    case True
    then show ?thesis using assms di by (simp add: mem_read_def Let_def)
  next
    case False
    have "take (min (length (drop (unat off) d)) n) (drop (unat off) d) = take n (drop (unat off) d)"
      "min (length (drop (unat off) d)) n = length (take n (drop (unat off) d))" by (simp_all add: min_def)
    then show ?thesis
      using False di checked_advance(1) [OF di(5), of off n]
      by (simp only: mem_read_def Let_def option.case) (simp add: memfs_content_def)
  qed
qed

lemma memfs_write_law:
  assumes "memfs_content fs fd = Some (off, d)" and small: "unat off + length bs < 2 ^ 64"
  shows "\<exists>fs'. mem_write fd bs fs = (Inr (length bs), fs') \<and>
     memfs_content fs' fd = Some (off + of_nat (length bs), overwrite_at (unat off) bs d)"
proof -
  from memfs_contentE [OF assms(1)] obtain desc ino where di: "fds fs fd = Some desc"
    "inodes fs (fd_ino desc) = Some ino" "kind ino = File"
    "isize ino = of_nat (length d)" "length d < 2 ^ 64" "fd_offset desc = off" "idata ino = d" .
  have "checked_add off (of_nat (length bs)) = Some (off + of_nat (length bs))"
    using small unat_of_nat_u64 [of "length bs"] by (simp add: checked_add_def)
  then show ?thesis
    using di small by (simp add: mem_write_def Let_def memfs_content_def overwrite_at_length)
qed

interpretation mf: file_store memfs memfs_content
proof unfold_locales
  fix fs fd off d pos
  assume c: "memfs_content fs fd = Some (off, d)"
  then show "length d < 2 ^ 64" by (rule memfs_contentE)
  show "\<exists>f'. fs_seek memfs fd pos fs = (Inr (), f') \<and> memfs_content f' fd = Some (pos, d)"
    using c by (elim memfs_contentE) (simp add: memfs_def mem_seek_def memfs_content_def)
  show "\<exists>f'. fs_size memfs fd fs = (Inr (of_nat (length d)), f') \<and> memfs_content f' fd = Some (off, d)"
    using c by (elim memfs_contentE) (simp add: memfs_def mem_size_def memfs_content_def)
qed (simp_all only: memfs_def FileSystem.select_convs memfs_read_law memfs_write_law)

lemma mem_open_content:
  assumes "lookup fs path = Some ino" "inodes fs ino = Some n" "kind n = File"
    "isize n = of_nat (length (idata n))" "length (idata n) < 2 ^ 64"
  shows "\<exists>desc fs'. mem_open path flags fs = (Some desc, fs') \<and> fd_offset desc = 0 \<and>
     memfs_content fs' (fd_no desc) = Some (0, idata n)"
  using assms by (simp add: mem_open_def Let_def memfs_content_def)

text \<open>
  C7. Opening a path with \<open>open_reader\<close> and reading it with \<open>read_to_end_with_limit\<close> returns, for
  every path that resolves to a regular file of a mounted in-memory file system, exactly the bytes
  of the file when they fit in the limit, and the error \<open>DiskFull\<close> when they do not; the loop always
  returns, although it reads in chunks and through the mount table.
\<close>

theorem open_reader_reads_file:
  assumes "vfs_reachable memfs v" and "resolve_and_find v path = Some (i, p)" and "memfs_inv (mfs (mounts v ! i))"
    and "lookup (mfs (mounts v ! i)) p = Some ino" and "inodes (mfs (mounts v ! i)) ino = Some n"
    and "kind n = File" and "length (idata n) < 2 ^ 64"
  shows "\<exists>r v' r'. open_reader memfs path v = (Inr r, v') \<and>
     read_to_end_with_limit (vf_read memfs) limit r =
       Some (if length (idata n) \<le> limit then Inr (idata n) else Inl DiskFull, r')"
proof -
  have "isize n = of_nat (length (idata n))"
    using memfs_invD [OF assms(3,5)] by (simp add: inode_ok_def)
  from mem_open_content [OF assms(4,5,6) this assms(7), of 0] obtain desc fs' where o:
    "mem_open p 0 (mfs (mounts v ! i)) = (Some desc, fs')" "fd_offset desc = 0"
    "memfs_content fs' (fd_no desc) = Some (0, idata n)" by blast
  from resolve_and_find_routes [OF vfs_reachable_inv [OF assms(1)], of path] assms(2)
  have i: "find_fs_index v path = Some i" "i < length (mounts v)" by auto
  let ?r = "\<lparr>vf_vfs = set_fs i fs' v, mount_index = i, vf_fd = fd_no desc, vf_position = 0\<rparr>"
  have op: "open_reader memfs path v = (Inr ?r, set_fs i fs' v)"
    by (simp add: open_reader_def i vfs_open_def with_fs_def assms(2) memfs_def o)
  have "mf.vf_rest ?r = Some (idata n)"
    using i(2) o(3) by (simp add: mf.vf_rest_def mf.vf_content_def set_fs_def)
  from mf.vr.read_to_end_loop_result [OF this, of "[]" limit] op
  show ?thesis unfolding read_to_end_with_limit_def by fastforce
qed


lemma demo_fs_inv: "memfs_inv demo_fs"
  by (simp add: memfs_inv_def demo_fs_def demo_inode_def inode_ok_def inode_new_def names_of_def)

theorem open_reader_reads_file_witness:
  "\<exists>r v' r'. open_reader memfs ''f'' (vfs_new demo_fs) = (Inr r, v') \<and>
     read_to_end_with_limit (vf_read memfs) 5 r = Some (Inr [7, 8, 9], r')"
proof -
  have fs: "mfs (mounts (vfs_new demo_fs) ! 0) = demo_fs" by (simp add: vfs_new_def)
  obtain i where "resolve_and_find (vfs_new demo_fs) ''f'' = Some (i, push_components (drop
      (length (path_comps (mount_point (mounts (vfs_new demo_fs) ! i)))) (path_comps ''/f'')))" "i < length (mounts (vfs_new demo_fs))"
    using resolve_and_find_routes [OF vfs_inv_new, of demo_fs "''f''"] unfolding demo_vfs_path(1) by blast
  then have r: "resolve_and_find (vfs_new demo_fs) ''f'' = Some (0, ''f'')"
    by (simp add: vfs_new_def demo_vfs_path(2) path_comps_root)
  have l: "lookup demo_fs ''f'' = Some 2"
    unfolding lookup_resolve [OF demo_fs_inv]
    by (simp add: fcomps_def resolve_step_def lookup_child_def demo_fs_def demo_inode_def inode_new_def)
  have n: "inodes demo_fs 2 = Some demo_inode" by (simp add: demo_fs_def)
  have "idata demo_inode = [7, 8, 9]" "kind demo_inode = File" by (simp_all add: demo_inode_def)
  then show ?thesis
    using open_reader_reads_file [OF vfs_start r, unfolded fs, OF demo_fs_inv l n, of 5] by simp
qed

end
