(* ===== verification/Kernel_Handles.thy ===== *)
theory Kernel_Handles
  imports Fullerene_Prelude
begin

unbundle bit_operations_syntax

text \<open>
  Signed handles, kernel objects and the per-process tables of the kernel:
  \<open>src/fullerene-kernel/src/syscall/types.rs\<close> and the handle and descriptor tables of
  \<open>src/fullerene-kernel/src/process.rs\<close>. The per-boot secret is an argument. An \<open>Arc\<close> is a
  reference, a natural number, into a store that the system calls keep; the tables hold references
  and never look behind them. A borrowed object (\<open>get_mut\<close>) is the object, and an update writes it
  back.
\<close>

section \<open>Handles\<close>

type_synonym Handle = u64

definition PERM_READ :: u8 where "PERM_READ = 0x01"
definition PERM_WRITE :: u8 where "PERM_WRITE = 0x02"
definition PERM_SIGNAL :: u8 where "PERM_SIGNAL = 0x04"
definition PERM_DUPLICATE :: u8 where "PERM_DUPLICATE = 0x08"
definition PERM_TRANSFER :: u8 where "PERM_TRANSFER = 0x10"

definition init_handle_secret :: "u64 \<Rightarrow> u64" where
  "init_handle_secret seed =
     (let h = seed + 0x9E3779B97F4A7C15;
          h = h XOR drop_bit 30 h;
          h = h * 0xBF58476D1CE4E5B9;
          h = h XOR drop_bit 27 h;
          h = h * 0x94D049BB133111EB
      in h XOR drop_bit 31 h)"

definition MAC_MASK :: u64 where "MAC_MASK = 0xFFFFFFFFFF000000"

definition handle_mac :: "u64 \<Rightarrow> u8 \<Rightarrow> u8 \<Rightarrow> u8 \<Rightarrow> u64" where
  "handle_mac secret slot generation perms =
     (if secret = 0 then 0
      else let data = push_bit 16 (ucast slot) OR push_bit 8 (ucast generation) OR ucast perms;
               h = data + secret;
               h = h XOR drop_bit 31 h;
               h = h * 0x9E3779B97F4A7C15;
               h = h XOR drop_bit 29 h;
               h = h * 0xBF58476D1CE4E5B9;
               h = h XOR drop_bit 32 h
           in h AND MAC_MASK)"

definition handle_new :: "u64 \<Rightarrow> u8 \<Rightarrow> u8 \<Rightarrow> u8 \<Rightarrow> Handle" where
  "handle_new secret slot generation perms =
     handle_mac secret slot generation perms OR push_bit 16 (ucast slot) OR push_bit 8 (ucast perms)
     OR ucast generation"

definition handle_slot :: "Handle \<Rightarrow> u8" where
  "handle_slot h = ucast (drop_bit 16 h AND 0xFF)"

definition handle_generation :: "Handle \<Rightarrow> u8" where
  "handle_generation h = ucast (h AND 0xFF)"

definition handle_permissions :: "Handle \<Rightarrow> u8" where
  "handle_permissions h = ucast (drop_bit 8 h AND 0xFF)"

definition handle_is_valid :: "u64 \<Rightarrow> Handle \<Rightarrow> bool" where
  "handle_is_valid secret h \<longleftrightarrow>
     h AND MAC_MASK = handle_mac secret (handle_slot h) (handle_generation h) (handle_permissions h)"


section \<open>Kernel objects\<close>

type_synonym ProcessId = u64

record EventInner =
  signaled :: bool
  manual_reset :: bool
  ev_waiters :: "ProcessId list"

record ThreadInner =
  th_pid :: ProcessId
  detached :: bool
  th_exit_code :: "u32 option"
  th_waiters :: "ProcessId list"

record ChannelInner =
  messages :: "bytes list"
  ch_waiters :: "ProcessId list"
  max_messages :: nat

datatype KernelObject =
    Event nat
  | Thread nat
  | Window u64 ProcessId
  | Device
  | Channel nat
  | Pipe nat bool
  | Timer u64 Handle bool


section \<open>The handle table\<close>

record HandleEntry =
  he_generation :: u8
  he_permissions :: u8
  he_object :: KernelObject

record HandleSlot =
  hs_generation :: u8
  hs_entry :: "HandleEntry option"

type_synonym HandleTable = "HandleSlot list"

definition ht_new :: HandleTable where
  "ht_new = []"

definition find_free_slot :: "HandleTable \<Rightarrow> u16 \<times> HandleTable" where
  "find_free_slot t = (case find (\<lambda>i. hs_entry (t ! i) = None) [0..<length t] of
     Some i \<Rightarrow> (of_nat i, t)
   | None \<Rightarrow> (of_nat (length t), t @ [\<lparr>hs_generation = 0, hs_entry = None\<rparr>]))"

definition owner_perms :: u8 where
  "owner_perms = PERM_READ OR PERM_WRITE OR PERM_SIGNAL OR PERM_DUPLICATE OR PERM_TRANSFER"

definition ht_alloc :: "u64 \<Rightarrow> KernelObject \<Rightarrow> HandleTable \<Rightarrow> Handle \<times> HandleTable" where
  "ht_alloc secret obj t =
     (let (slot_idx, t1) = find_free_slot t;
          i = unat slot_idx;
          gen = hs_generation (t1 ! i) + 1
      in (handle_new secret (ucast slot_idx) gen owner_perms,
          t1[i := \<lparr>hs_generation = gen,
                   hs_entry = Some \<lparr>he_generation = gen, he_permissions = owner_perms, he_object = obj\<rparr>\<rparr>]))"

definition ht_entry :: "u64 \<Rightarrow> HandleTable \<Rightarrow> Handle \<Rightarrow> HandleEntry option" where
  "ht_entry secret t h =
     (if \<not> handle_is_valid secret h then None
      else let slot = unat (handle_slot h) in
        if slot < length t then
          (case hs_entry (t ! slot) of
             None \<Rightarrow> None
           | Some e \<Rightarrow> if he_generation e = handle_generation h then Some e else None)
        else None)"

definition ht_get :: "u64 \<Rightarrow> HandleTable \<Rightarrow> Handle \<Rightarrow> KernelObject option" where
  "ht_get secret t h = map_option he_object (ht_entry secret t h)"

definition ht_set_entry :: "nat \<Rightarrow> HandleEntry option \<Rightarrow> HandleTable \<Rightarrow> HandleTable" where
  "ht_set_entry slot e t = t[slot := (t ! slot)\<lparr>hs_entry := e\<rparr>]"

definition ht_remove :: "u64 \<Rightarrow> Handle \<Rightarrow> HandleTable \<Rightarrow> KernelObject option \<times> HandleTable" where
  "ht_remove secret h t = (case ht_entry secret t h of
     None \<Rightarrow> (None, t)
   | Some e \<Rightarrow> (Some (he_object e), ht_set_entry (unat (handle_slot h)) None t))"

definition check_perm :: "u64 \<Rightarrow> HandleTable \<Rightarrow> Handle \<Rightarrow> u8 \<Rightarrow> bool" where
  "check_perm secret t h required = (case ht_entry secret t h of
     None \<Rightarrow> False
   | Some e \<Rightarrow> he_permissions e AND required = required)"

text \<open>\<open>iter_objects_mut\<close>, read as the list of the objects.\<close>

definition ht_objects :: "HandleTable \<Rightarrow> KernelObject list" where
  "ht_objects t = List.map_filter (\<lambda>s. map_option he_object (hs_entry s)) t"

definition ht_entries :: "u64 \<Rightarrow> HandleTable \<Rightarrow> (Handle \<times> KernelObject) list" where
  "ht_entries secret t = List.map_filter (\<lambda>(i, s). case hs_entry s of
       None \<Rightarrow> None
     | Some e \<Rightarrow> Some (handle_new secret (of_nat i) (he_generation e) (he_permissions e), he_object e))
     (enumerate 0 t)"


section \<open>The descriptor table\<close>

record FileDesc =
  fdesc_fd :: u32
  fdesc_ino :: u64
  fdesc_offset :: u64
  fdesc_flags :: u32

type_synonym FdSlotMap = "FileDesc option list"

definition fds_new :: FdSlotMap where
  "fds_new = replicate 3 None"

definition fds_insert :: "u32 \<Rightarrow> FileDesc \<Rightarrow> FdSlotMap \<Rightarrow> FileDesc option \<times> FdSlotMap" where
  "fds_insert fd v s =
     (let index = unat fd;
          s' = (if length s \<le> index then s @ replicate (index + 1 - length s) None else s)
      in (s' ! index, s'[index := Some v]))"

definition fds_get :: "FdSlotMap \<Rightarrow> u32 \<Rightarrow> FileDesc option" where
  "fds_get s fd = (if unat fd < length s then s ! unat fd else None)"

definition fds_remove :: "u32 \<Rightarrow> FdSlotMap \<Rightarrow> FileDesc option \<times> FdSlotMap" where
  "fds_remove fd s = (if unat fd < length s then (s ! unat fd, s[unat fd := None]) else (None, s))"

definition fds_contains_key :: "FdSlotMap \<Rightarrow> u32 \<Rightarrow> bool" where
  "fds_contains_key s fd \<longleftrightarrow> unat fd < length s \<and> s ! unat fd \<noteq> None"

definition fds_clear :: "FdSlotMap \<Rightarrow> FdSlotMap" where
  "fds_clear s = take 3 s @ map (\<lambda>_. None) (drop 3 s)"

definition first_free_from :: "FdSlotMap \<Rightarrow> u32 \<Rightarrow> u32 option" where
  "first_free_from s start =
     map_option of_nat (find (\<lambda>i. s ! i = None) [unat start..<length s])"

definition fd_alloc :: "FileDesc \<Rightarrow> FdSlotMap \<Rightarrow> (unit + u32) \<times> FdSlotMap" where
  "fd_alloc d s = (case first_free_from s 3 of
     Some fd \<Rightarrow> (Inr fd, snd (fds_insert fd d s))
   | None \<Rightarrow> if length s < 2 ^ 32 then (Inr (of_nat (length s)), snd (fds_insert (of_nat (length s)) d s))
             else (Inl (), s))"


section \<open>The fields of a handle\<close>

lemma byte_mask: "0xFF = (mask 8 :: u64)"
  by (simp add: mask_eq_exp_minus_1)

lemma mac_mask: "MAC_MASK = NOT (mask 24)"
  by (simp add: MAC_MASK_def mask_eq_exp_minus_1)

lemma byte_high [simp]: "8 \<le> n \<Longrightarrow> \<not> bit (b :: u8) n"
  by (auto dest: bit_imp_le_length)

lemma mac_low [simp]: "n < 24 \<Longrightarrow> \<not> bit (handle_mac secret s g p) n"
  by (auto simp: handle_mac_def mac_mask Let_def bit_simps)

lemma handle_slot_new [simp]: "handle_slot (handle_new secret s g p) = s"
  by (intro bit_word_eqI) (simp add: handle_slot_def handle_new_def byte_mask bit_simps)

lemma handle_generation_new [simp]: "handle_generation (handle_new secret s g p) = g"
  by (intro bit_word_eqI) (simp add: handle_generation_def handle_new_def byte_mask bit_simps)

lemma handle_permissions_new [simp]: "handle_permissions (handle_new secret s g p) = p"
  by (intro bit_word_eqI) (simp add: handle_permissions_def handle_new_def byte_mask bit_simps)

lemma handle_new_masked: "handle_new secret s g p AND MAC_MASK = handle_mac secret s g p"
proof (intro bit_word_eqI)
  fix n assume "n < LENGTH(64)"
  then show "bit (handle_new secret s g p AND MAC_MASK) n = bit (handle_mac secret s g p) n"
    by (cases "24 \<le> n") (simp_all add: handle_new_def mac_mask bit_simps)
qed

lemma handle_is_valid_new [simp]: "handle_is_valid secret (handle_new secret s g p)"
  by (simp add: handle_is_valid_def handle_new_masked)

text \<open>A valid handle is the one the kernel makes from its fields: nothing else in it is free.\<close>

lemma handle_fields:
  "h = (h AND MAC_MASK) OR push_bit 16 (ucast (handle_slot h)) OR push_bit 8 (ucast (handle_permissions h))
     OR ucast (handle_generation h)"
proof (intro bit_word_eqI)
  fix n assume n: "n < LENGTH(64)"
  consider "n < 8" | "8 \<le> n" "n < 16" | "16 \<le> n" "n < 24" | "24 \<le> n" by linarith
  then show "bit h n = bit ((h AND MAC_MASK) OR push_bit 16 (ucast (handle_slot h)) OR
      push_bit 8 (ucast (handle_permissions h)) OR ucast (handle_generation h)) n"
    using n by cases (auto simp: handle_slot_def handle_permissions_def handle_generation_def byte_mask mac_mask bit_simps)
qed

lemma handle_valid_new:
  "handle_is_valid secret h \<Longrightarrow>
     h = handle_new secret (handle_slot h) (handle_generation h) (handle_permissions h)"
  using handle_fields [of h] by (simp add: handle_is_valid_def handle_new_def)

text \<open>
  C24. The signature on a handle: \<open>is_valid\<close> accepts a 64-bit value exactly when it is the value
  \<open>Handle::new\<close> makes from some slot, generation and permissions under the same secret, and those
  three are read back from it.
\<close>

theorem handle_signature:
  "(handle_is_valid secret h \<longleftrightarrow> (\<exists>s g p. h = handle_new secret s g p)) \<and>
   handle_slot (handle_new secret s g p) = s \<and> handle_generation (handle_new secret s g p) = g \<and>
   handle_permissions (handle_new secret s g p) = p"
  using handle_valid_new [of secret h] by auto



section \<open>Tables of objects\<close>

text \<open>
  The contract of a table that hands out keys: a new key finds the new object and was free before,
  no other key is disturbed, and removing a key removes nothing else. Several keys may name the same
  entry (handles that differ in their permission bits only); \<open>key\<close> tells the entries apart.
\<close>

locale object_table =
  fixes room :: "'t \<Rightarrow> bool" and look :: "'t \<Rightarrow> 'k \<Rightarrow> 'o option" and new :: "'o \<Rightarrow> 't \<Rightarrow> 'k \<times> 't"
    and del :: "'k \<Rightarrow> 't \<Rightarrow> 'o option \<times> 't" and key :: "'k \<Rightarrow> 'i"
  assumes new_law: "room t \<Longrightarrow> new ob t = (k, t') \<Longrightarrow> look t' k = Some ob \<and>
      (\<forall>j. key j = key k \<longrightarrow> look t j = None) \<and> (\<forall>j. key j \<noteq> key k \<longrightarrow> look t' j = look t j)"
    and del_law: "del k t = (r, t') \<Longrightarrow> r = look t k \<and>
      (\<forall>j. look t' j = (if r \<noteq> None \<and> key j = key k then None else look t j))"
begin

lemma new_then_del:
  assumes "room t" and "new ob t = (k, t1)" and "del k t1 = (r, t2)"
  shows "r = Some ob \<and> look t2 = look t"
proof -
  note n = new_law [OF assms(1,2)] and d = del_law [OF assms(3)]
  have "look t2 j = look t j" for j
    using n d by (cases "key j = key k") auto
  then show ?thesis using n d by auto
qed

lemma new_keeps: "room t \<Longrightarrow> new ob t = (k, t') \<Longrightarrow> look t j = Some x \<Longrightarrow> look t' j = Some x"
  using new_law by (metis option.distinct(1))

lemma del_twice: "del k t = (r, t1) \<Longrightarrow> del k t1 = (r', t2) \<Longrightarrow> r' = None"
  using del_law by (metis (full_types))

end

definition free_index :: "HandleTable \<Rightarrow> nat" where
  "free_index t = (case find (\<lambda>i. hs_entry (t ! i) = None) [0..<length t] of Some i \<Rightarrow> i | None \<Rightarrow> length t)"

definition grow :: "HandleTable \<Rightarrow> HandleTable" where
  "grow t = (if free_index t = length t then t @ [\<lparr>hs_generation = 0, hs_entry = None\<rparr>] else t)"

lemma free_index_cases:
  obtains "free_index t = length t" "\<forall>i < length t. hs_entry (t ! i) \<noteq> None"
    "find (\<lambda>i. hs_entry (t ! i) = None) [0..<length t] = None"
  | "free_index t < length t" "hs_entry (t ! free_index t) = None" "\<forall>j < free_index t. hs_entry (t ! j) \<noteq> None"
    "find (\<lambda>i. hs_entry (t ! i) = None) [0..<length t] = Some (free_index t)"
proof (cases "find (\<lambda>i. hs_entry (t ! i) = None) [0..<length t]")
  case None
  then have "free_index t = length t" by (simp add: free_index_def)
  moreover have "\<forall>i < length t. hs_entry (t ! i) \<noteq> None" using None unfolding find_upt_None by simp
  ultimately show thesis using None that(1) by blast
next
  case (Some i)
  then have f: "free_index t = i" by (simp add: free_index_def)
  show thesis using Some unfolding find_upt_Some by (intro that(2)) (simp_all add: f Some)
qed

lemma find_free_slot_eq: "find_free_slot t = (of_nat (free_index t), grow t)"
  by (rule free_index_cases [of t]) (simp_all add: find_free_slot_def grow_def)

lemma grow_facts:
  "free_index t < length (grow t)" "hs_entry (grow t ! free_index t) = None"
  "j < length t \<Longrightarrow> grow t ! j = t ! j" "length t \<le> length (grow t)" "length (grow t) \<le> Suc (length t)"
  by (rule free_index_cases [of t]; simp add: grow_def nth_append)+

lemma grow_beyond: "length t \<le> j \<Longrightarrow> j < length (grow t) \<Longrightarrow> hs_entry (grow t ! j) = None"
  by (auto simp: grow_def nth_append split: if_splits)

definition ht_room :: "HandleTable \<Rightarrow> bool" where
  "ht_room t \<longleftrightarrow> free_index t < 256"

definition entry_at :: "HandleTable \<Rightarrow> nat \<Rightarrow> u8 \<Rightarrow> HandleEntry option" where
  "entry_at t i g = (if i < length t then (case hs_entry (t ! i) of None \<Rightarrow> None
     | Some e \<Rightarrow> if he_generation e = g then Some e else None) else None)"

lemma ht_entry_at:
  "ht_entry secret t h = (if handle_is_valid secret h
     then entry_at t (unat (handle_slot h)) (handle_generation h) else None)"
  by (simp add: ht_entry_def entry_at_def Let_def)

lemma entry_at_grow: "entry_at (grow t) i g = entry_at t i g"
  using grow_facts(3) [of i t] grow_facts(4) [of t] grow_beyond [of t i] by (auto simp: entry_at_def split: option.split)

lemma entry_at_update:
  "i < length t \<Longrightarrow> entry_at (t[i := s]) j g =
     (if j = i then (case hs_entry s of None \<Rightarrow> None | Some e \<Rightarrow> if he_generation e = g then Some e else None)
      else entry_at t j g)"
  by (auto simp: entry_at_def)

lemma entry_at_free: "entry_at t (free_index t) g = None"
  by (rule free_index_cases [of t]) (simp_all add: entry_at_def)

lemma unat_of_nat_u16: "n < 65536 \<Longrightarrow> unat (of_nat n :: u16) = n"
  by (simp add: unat_of_nat take_bit_nat_eq_self)

lemma ucast_of_nat_u8: "ucast (of_nat n :: u16) = (of_nat n :: u8)"
  by (intro bit_word_eqI) (simp add: bit_simps)

lemma ht_alloc_eq:
  assumes "free_index t < 65536"
  shows "ht_alloc secret ob t =
    (let g = hs_generation (grow t ! free_index t) + 1
     in (handle_new secret (of_nat (free_index t)) g owner_perms,
         (grow t)[free_index t := \<lparr>hs_generation = g,
            hs_entry = Some \<lparr>he_generation = g, he_permissions = owner_perms, he_object = ob\<rparr>\<rparr>]))"
  using assms by (simp add: ht_alloc_def find_free_slot_eq unat_of_nat_u16 ucast_of_nat_u8 Let_def)

abbreviation handle_key :: "Handle \<Rightarrow> u8 \<times> u8" where
  "handle_key h \<equiv> (handle_slot h, handle_generation h)"

lemma ht_get_at:
  "ht_get secret t h = (if handle_is_valid secret h
     then map_option he_object (entry_at t (unat (handle_slot h)) (handle_generation h)) else None)"
  by (simp add: ht_get_def ht_entry_at)

interpretation ht: object_table ht_room "ht_get secret" "ht_alloc secret" "ht_remove secret" handle_key
  for secret
proof unfold_locales
  fix t ob k t'
  assume room: "ht_room t" and al: "ht_alloc secret ob t = (k, t')"
  let ?i = "free_index t" and ?g = "hs_generation (grow t ! free_index t) + 1"
  have i: "unat (of_nat ?i :: u8) = ?i"
    using room by (simp add: ht_room_def unat_of_nat take_bit_nat_eq_self)
  have k: "k = handle_new secret (of_nat ?i) ?g owner_perms"
    and t': "t' = (grow t)[?i := \<lparr>hs_generation = ?g,
       hs_entry = Some \<lparr>he_generation = ?g, he_permissions = owner_perms, he_object = ob\<rparr>\<rparr>]"
    using al ht_alloc_eq [of t secret ob] room by (simp_all add: ht_room_def Let_def)
  have upd: "entry_at t' j g = (if j = ?i
      then (if ?g = g then Some \<lparr>he_generation = ?g, he_permissions = owner_perms, he_object = ob\<rparr> else None)
      else entry_at t j g)" for j g
    unfolding t' using entry_at_update [OF grow_facts(1)] by (simp add: entry_at_grow)
  have other: "ht_get secret t' j = ht_get secret t j" if "handle_key j \<noteq> handle_key k" for j
  proof (cases "unat (handle_slot j) = ?i")
    case True
    then have "handle_slot j = of_nat ?i" using i by (simp add: word_unat_eq_iff)
    then have "handle_generation j \<noteq> ?g" using that k by simp
    then show ?thesis using True by (auto simp: ht_get_at upd entry_at_free)
  next
    case False
    then show ?thesis by (simp add: ht_get_at upd)
  qed
  have "ht_get secret t j = None" if "handle_key j = handle_key k" for j
    using that i by (simp add: ht_get_at k entry_at_free)
  then show "ht_get secret t' k = Some ob \<and> (\<forall>j. handle_key j = handle_key k \<longrightarrow> ht_get secret t j = None) \<and>
      (\<forall>j. handle_key j \<noteq> handle_key k \<longrightarrow> ht_get secret t' j = ht_get secret t j)"
    using other i by (simp add: ht_get_at k upd)
next
  fix k t r t'
  assume rm: "ht_remove secret k t = (r, t')"
  show "r = ht_get secret t k \<and> (\<forall>j. ht_get secret t' j =
      (if r \<noteq> None \<and> handle_key j = handle_key k then None else ht_get secret t j))"
  proof (cases "ht_entry secret t k")
    case None
    then show ?thesis using rm by (simp add: ht_remove_def ht_get_def)
  next
    case (Some e)
    let ?i = "unat (handle_slot k)"
    have i: "?i < length t" "hs_entry (t ! ?i) = Some e" "he_generation e = handle_generation k"
      using Some by (auto simp: ht_entry_def Let_def split: if_splits option.splits)
    have t': "t' = t[?i := (t ! ?i)\<lparr>hs_entry := None\<rparr>]" "r = Some (he_object e)"
      using rm Some by (simp_all add: ht_remove_def ht_set_entry_def)
    have "entry_at t' j g = (if j = ?i then None else entry_at t j g)" for j g
      using entry_at_update [OF i(1)] by (simp add: t'(1))
    moreover have "entry_at t ?i g = None" if "g \<noteq> handle_generation k" for g
      using i that by (simp add: entry_at_def)
    moreover have "ht_get secret t k = r" using Some t'(2) by (simp add: ht_get_def)
    ultimately show ?thesis
      using t'(2) by (auto simp: ht_get_at [of secret t'] ht_get_at [of secret t] word_unat_eq_iff)
  qed
qed


text \<open>
  C16. In a table with one of its first 256 slots free, a new handle finds exactly the new object, it
  was not in use before, every handle that was in use finds what it found before, and removing the
  new handle gives the object back and restores the table.
\<close>

theorem handle_alloc_isolated:
  assumes "ht_room t" and "ht_alloc secret ob t = (h, t')"
  shows "ht_get secret t h = None \<and> ht_get secret t' h = Some ob \<and>
    (\<forall>j x. ht_get secret t j = Some x \<longrightarrow> ht_get secret t' j = Some x) \<and>
    fst (ht_remove secret h t') = Some ob \<and> ht_get secret (snd (ht_remove secret h t')) = ht_get secret t"
  using ht.new_law [OF assms] ht.new_keeps [OF assms] ht.new_then_del [OF assms, of "fst (ht_remove secret h t')" "snd (ht_remove secret h t')"]
  by simp

theorem handle_alloc_isolated_witness:
  "ht_get 7 (snd (ht_alloc 7 Device ht_new)) (fst (ht_alloc 7 Device ht_new)) = Some Device"
proof -
  have "ht_room ht_new" by (simp add: ht_room_def ht_new_def free_index_def)
  then show ?thesis
    using handle_alloc_isolated [of ht_new 7 Device "fst (ht_alloc 7 Device ht_new)" "snd (ht_alloc 7 Device ht_new)"]
    by simp
qed


section \<open>Stale handles\<close>

datatype handle_op = Alloc KernelObject | Remove Handle

fun ht_step :: "u64 \<Rightarrow> handle_op \<Rightarrow> HandleTable \<Rightarrow> HandleTable" where
  "ht_step secret (Alloc ob) t = snd (ht_alloc secret ob t)"
| "ht_step secret (Remove h) t = snd (ht_remove secret h t)"

definition ht_run :: "u64 \<Rightarrow> handle_op list \<Rightarrow> HandleTable \<Rightarrow> HandleTable" where
  "ht_run secret ops t = fold (ht_step secret) ops t"

fun is_Alloc :: "handle_op \<Rightarrow> bool" where
  "is_Alloc (Alloc _) = True"
| "is_Alloc (Remove _) = False"

definition ht_inv :: "HandleTable \<Rightarrow> bool" where
  "ht_inv t \<longleftrightarrow> (\<forall>s \<in> set t. \<forall>e. hs_entry s = Some e \<longrightarrow> he_generation e = hs_generation s)"

lemma ht_alloc_table:
  "\<exists>i < length (grow t). snd (ht_alloc secret ob t) = (grow t)[i :=
     \<lparr>hs_generation = hs_generation (grow t ! i) + 1, hs_entry = Some \<lparr>he_generation = hs_generation (grow t ! i) + 1,
        he_permissions = owner_perms, he_object = ob\<rparr>\<rparr>]"
proof -
  let ?i = "unat (of_nat (free_index t) :: u16)"
  have "?i \<le> free_index t" by (simp add: unat_of_nat take_bit_nat_less_eq_self)
  then have "?i < length (grow t)" using grow_facts(1) [of t] by linarith
  then show ?thesis by (intro exI [of _ ?i]) (simp add: ht_alloc_def find_free_slot_eq Let_def)
qed

lemma ht_inv_step:
  assumes "ht_inv t"
  shows "ht_inv (ht_step secret oper t)"
proof (cases oper)
  case (Alloc ob)
  have "ht_inv (grow t)" using assms by (auto simp: ht_inv_def grow_def)
  then show ?thesis
    using ht_alloc_table [of t secret ob] Alloc
    by (auto simp: ht_inv_def dest!: set_update_subset_insert [THEN subsetD])
next
  case (Remove h)
  have "ht_inv (ht_set_entry i None t)" for i
    using assms by (auto simp: ht_inv_def ht_set_entry_def dest!: set_update_subset_insert [THEN subsetD])
  then show ?thesis using Remove assms by (simp add: ht_remove_def split: option.split)
qed

lemma ht_inv_run: "ht_inv t \<Longrightarrow> ht_inv (ht_run secret ops t)"
  unfolding ht_run_def by (induction ops arbitrary: t) (auto intro: ht_inv_step)

text \<open>Slot \<open>i\<close> has been taken \<open>k\<close> times since it was left empty at generation \<open>g\<close>.\<close>

definition taken :: "nat \<Rightarrow> u8 \<Rightarrow> nat \<Rightarrow> HandleTable \<Rightarrow> bool" where
  "taken i g k t \<longleftrightarrow> i < length t \<and> hs_generation (t ! i) = g + of_nat k \<and>
     (\<forall>e. hs_entry (t ! i) = Some e \<longrightarrow> 0 < k \<and> he_generation e = g + of_nat k)"

lemma taken_step:
  assumes "taken i g k t"
  shows "taken i g k (ht_step secret oper t) \<or> is_Alloc oper \<and> taken i g (Suc k) (ht_step secret oper t)"
proof (cases oper)
  case (Alloc ob)
  from ht_alloc_table [of t secret ob] obtain j where j: "j < length (grow t)"
    "snd (ht_alloc secret ob t) = (grow t)[j :=
     \<lparr>hs_generation = hs_generation (grow t ! j) + 1, hs_entry = Some \<lparr>he_generation = hs_generation (grow t ! j) + 1,
        he_permissions = owner_perms, he_object = ob\<rparr>\<rparr>]" by blast
  have i: "i < length t" "grow t ! i = t ! i" "i < length (grow t)"
    using assms grow_facts(3) [of i t] grow_facts(4) [of t] by (auto simp: taken_def)
  show ?thesis
    using assms i j by (cases "j = i") (auto simp: Alloc taken_def algebra_simps)
next
  case (Remove h)
  have "taken i g k (ht_set_entry j None t)" for j
    using assms by (cases "j = i") (auto simp: taken_def ht_set_entry_def)
  then show ?thesis using Remove assms by (simp add: ht_remove_def split: option.split)
qed

lemma taken_run:
  assumes "taken i g k t"
  shows "\<exists>k' \<le> k + length (filter is_Alloc ops). taken i g k' (ht_run secret ops t)"
  using assms
proof (induction ops arbitrary: k t)
  case Nil
  then show ?case by (auto simp: ht_run_def)
next
  case (Cons oper ops)
  consider "taken i g k (ht_step secret oper t)" | "is_Alloc oper" "taken i g (Suc k) (ht_step secret oper t)"
    using taken_step [OF Cons.prems] by blast
  then show ?case
  proof cases
    case 1
    from Cons.IH [OF this] obtain k' where k': "k' \<le> k + length (filter is_Alloc ops)"
      "taken i g k' (ht_run secret ops (ht_step secret oper t))" by blast
    then show ?thesis by (intro exI [of _ k']) (auto simp: ht_run_def)
  next
    case 2
    then show ?thesis using Cons.IH [of "Suc k" "ht_step secret oper t"] by (auto simp: ht_run_def)
  qed
qed

lemma taken_entry: "taken i g k t \<Longrightarrow> k < 256 \<Longrightarrow> entry_at t i g = None"
proof -
  assume t: "taken i g k t" and k: "k < 256"
  have "unat (of_nat k :: u8) = k" using k by (simp add: unat_of_nat take_bit_nat_eq_self)
  then have "g + of_nat k \<noteq> g" if "0 < k" using that by (metis add_cancel_left_right neq0_conv unsigned_0)
  then show ?thesis using t by (auto simp: taken_def entry_at_def split: option.split)
qed

text \<open>
  C11. A handle that has been removed stays dead: after any operations on the table, in any order,
  with fewer than 256 allocations among them, it finds nothing, also when its slot holds another
  object again.
\<close>

theorem stale_handle_rejected:
  assumes "ht_get secret (ht_run secret before ht_new) h = Some ob" and "length (filter is_Alloc after) < 256"
  shows "ht_get secret (ht_run secret (before @ Remove h # after) ht_new) h = None"
proof -
  let ?t = "ht_run secret before ht_new" and ?i = "unat (handle_slot h)" and ?g = "handle_generation h"
  have "ht_inv ht_new" by (simp add: ht_inv_def ht_new_def)
  then have inv: "ht_inv ?t" by (rule ht_inv_run)
  obtain e where e: "ht_entry secret ?t h = Some e" using assms(1) by (auto simp: ht_get_def)
  then have i: "?i < length ?t" "hs_entry (?t ! ?i) = Some e" "he_generation e = ?g"
    by (auto simp: ht_entry_def Let_def split: if_splits option.splits)
  then have "hs_generation (?t ! ?i) = ?g" using inv unfolding ht_inv_def by (metis nth_mem)
  then have "taken ?i ?g 0 (snd (ht_remove secret h ?t))"
    using i e by (simp add: taken_def ht_remove_def ht_set_entry_def)
  from taken_run [OF this] obtain k where
    "k \<le> length (filter is_Alloc after)" "taken ?i ?g k (ht_run secret after (snd (ht_remove secret h ?t)))" by auto
  then show ?thesis
    using taken_entry assms(2) by (fastforce simp: ht_get_at ht_run_def)
qed

theorem stale_handle_rejected_witness:
  "let h = fst (ht_alloc 7 Device ht_new)
   in ht_get 7 (ht_run 7 [Alloc Device] ht_new) h = Some Device \<and>
      ht_get 7 (ht_run 7 ([Alloc Device] @ Remove h # [Alloc (Event 1)]) ht_new) h = None"
proof -
  have "ht_room ht_new" by (simp add: ht_room_def ht_new_def free_index_def)
  then have "ht_get 7 (ht_run 7 [Alloc Device] ht_new) (fst (ht_alloc 7 Device ht_new)) = Some Device"
    using ht.new_law [of ht_new 7 Device] by (simp add: ht_run_def)
  then show ?thesis
    using stale_handle_rejected [of 7 "[Alloc Device]" _ Device "[Alloc (Event 1)]"] by (simp add: Let_def)
qed


text \<open>The table after \<open>n\<close> allocations: the slot number in a handle is the index modulo 256.\<close>

lemma free_index_replicate: "hs_entry sl \<noteq> None \<Longrightarrow> free_index (replicate n sl) = n"
  by (rule free_index_cases [of "replicate n sl"]) simp_all

lemma ht_run_replicate:
  "n \<le> 65536 \<Longrightarrow> ht_run secret (replicate n (Alloc a)) ht_new = replicate n
     \<lparr>hs_generation = 1, hs_entry = Some \<lparr>he_generation = 1, he_permissions = owner_perms, he_object = a\<rparr>\<rparr>"
proof (induction n)
  case 0
  then show ?case by (simp add: ht_run_def ht_new_def)
next
  case (Suc n)
  let ?sl = "\<lparr>hs_generation = 1, hs_entry = Some \<lparr>he_generation = 1, he_permissions = owner_perms, he_object = a\<rparr>\<rparr>"
  have f: "free_index (replicate n ?sl) = n" by (simp add: free_index_replicate)
  have "ht_run secret (replicate (Suc n) (Alloc a)) ht_new = snd (ht_alloc secret a (replicate n ?sl))"
    using Suc by (simp add: ht_run_def replicate_append_same [symmetric] del: replicate_append_same)
  also have "\<dots> = (replicate n ?sl @ [\<lparr>hs_generation = 0, hs_entry = None\<rparr>])[n := ?sl]"
    using Suc.prems f by (simp add: ht_alloc_eq Let_def grow_def nth_append)
  finally show ?case by (simp add: list_update_append replicate_append_same [symmetric] del: replicate_append_same)
qed



section \<open>Descriptors\<close>

lemma fds_insert_get:
  "fds_get (snd (fds_insert fd v s)) fd' = (if fd' = fd then Some v else fds_get s fd')"
  by (auto simp: fds_insert_def fds_get_def Let_def nth_append nth_list_update word_unat_eq_iff)

lemma fds_remove_get:
  "fds_remove fd s = (fds_get s fd, snd (fds_remove fd s))"
  "fds_get (snd (fds_remove fd s)) fd' = (if fd' = fd then None else fds_get s fd')"
  by (auto simp: fds_remove_def fds_get_def word_unat_eq_iff nth_list_update)

lemma unat_of_nat_u32: "n < 2 ^ 32 \<Longrightarrow> unat (of_nat n :: u32) = n"
  by (simp add: unat_of_nat take_bit_nat_eq_self)

lemma fd_alloc_fd:
  assumes "length s < 2 ^ 32" and "3 \<le> length s"
  shows "\<exists>fd. fd_alloc d s = (Inr fd, snd (fds_insert fd d s)) \<and> 3 \<le> unat fd \<and> fds_get s fd = None \<and>
    (\<forall>fd'. 3 \<le> unat fd' \<and> unat fd' < unat fd \<longrightarrow> fds_get s fd' \<noteq> None)"
proof (cases "find (\<lambda>i. s ! i = None) [3..<length s]")
  case None
  then have full: "\<forall>g. 3 \<le> g \<and> g < length s \<longrightarrow> s ! g \<noteq> None" unfolding find_upt_None .
  have "fd_alloc d s = (Inr (of_nat (length s)), snd (fds_insert (of_nat (length s)) d s))"
    using None assms by (simp add: fd_alloc_def first_free_from_def)
  moreover have "unat (of_nat (length s) :: u32) = length s" using assms by (intro unat_of_nat_u32)
  ultimately show ?thesis
    using full assms(2) by (intro exI [of _ "of_nat (length s)"]) (simp add: fds_get_def)
next
  case (Some i)
  then have i: "3 \<le> i" "i < length s" "s ! i = None" "\<forall>g. 3 \<le> g \<and> g < i \<longrightarrow> s ! g \<noteq> None"
    unfolding find_upt_Some by auto
  have "unat (of_nat i :: u32) = i" using i assms by (intro unat_of_nat_u32) simp
  then show ?thesis
    using i Some by (intro exI [of _ "of_nat i"]) (simp add: fd_alloc_def first_free_from_def fds_get_def)
qed

interpretation ft: object_table "\<lambda>s. length s < 2 ^ 32 \<and> 3 \<le> length s" fds_get
  "\<lambda>d s. (projr (fst (fd_alloc d s)), snd (fd_alloc d s))" fds_remove "\<lambda>fd. fd"
proof unfold_locales
  fix s d k s'
  assume "length s < 2 ^ 32 \<and> 3 \<le> length s" and e: "(projr (fst (fd_alloc d s)), snd (fd_alloc d s)) = (k, s')"
  with fd_alloc_fd [of s d] obtain fd where "fd_alloc d s = (Inr fd, snd (fds_insert fd d s))" "fds_get s fd = None"
    by blast
  with e show "fds_get s' k = Some d \<and> (\<forall>j. j = k \<longrightarrow> fds_get s j = None) \<and> (\<forall>j. j \<noteq> k \<longrightarrow> fds_get s' j = fds_get s j)"
    by (auto simp: fds_insert_get)
next
  fix k s r s'
  assume "fds_remove k s = (r, s')"
  then show "r = fds_get s k \<and> (\<forall>j. fds_get s' j = (if r \<noteq> None \<and> j = k then None else fds_get s j))"
    using fds_remove_get [of k s] by auto
qed

end
