(* ===== verification/Kernel_Process.thy ===== *)
theory Kernel_Process
  imports Kernel_Handles Kernel_Abi
begin

text \<open>
  Processes and the round-robin scheduler: \<open>src/fullerene-kernel/src/process.rs\<close> (data) and
  \<open>src/fullerene-kernel/src/scheduler_context.rs\<close>. The atomics and the locked list are the fields of
  one record; the kernel runs on one core and switches cooperatively, so each method is one step. A
  closure passed to \<open>with_process\<close> returns its result and the new process. The machine record adds
  what the methods change outside the scheduler: the registers of the processor, \<open>CR3\<close>, and the
  stores behind the \<open>Arc\<close> references of kernel objects. The machine code of \<open>switch_context\<close> is the
  subject of another theory; here it exchanges the register contents. Signed 32-bit exit codes are
  words. The Linux personality of a process (\<open>dispatch_mode\<close>) is not modelled.
\<close>

section \<open>Processes\<close>

definition MAX_PROCESSES :: nat where
  "MAX_PROCESSES = 64"

datatype ProcessState = Ready | Running | Blocked | Terminated

record ProcessContext =
  regs :: "u64 list"
  rflags :: u64
  rip :: u64
  segments :: "u64 list"
  tss :: u64
  ctx_is_user :: bool

text \<open>The segment selectors of the descriptor table, once it is loaded.\<close>

record Gdt =
  gdt_code :: "u16 option"
  gdt_kernel_data :: "u16 option"
  gdt_user_code :: "u16 option"
  gdt_user_data :: "u16 option"

definition selector :: "u16 option \<Rightarrow> u64 \<Rightarrow> u64" where
  "selector s fallback = (case s of None \<Rightarrow> fallback | Some v \<Rightarrow> ucast v)"

definition context_default :: "Gdt \<Rightarrow> ProcessContext" where
  "context_default g = \<lparr>regs = replicate 16 0, rflags = 0x0202, rip = 0,
     segments = [selector (gdt_code g) 1, selector (gdt_kernel_data g) 2, 0, 0, 0, 0], tss = 0, ctx_is_user = False\<rparr>"

record VdsoPage =
  time_us :: u64
  uptime_us :: u64
  vdso_pid :: u64

record ProcessResources =
  fd_table :: FdSlotMap
  handle_table :: HandleTable
  subscriptions :: "(u64 \<times> u64) list"

definition resources_new :: ProcessResources where
  "resources_new = \<lparr>fd_table = fds_new, handle_table = ht_new, subscriptions = []\<rparr>"

record Process =
  proc_id :: ProcessId
  proc_name :: string
  pstate :: ProcessState
  pcontext :: ProcessContext
  page_table_phys_addr :: u64
  page_table :: "u64 option option"
  kernel_stack :: u64
  user_stack :: u64
  entry_point :: u64
  is_user :: bool
  exit_code :: "u32 option"
  parent_id :: "ProcessId option"
  task_data :: u64
  vdso_page :: "VdsoPage option"
  resources :: ProcessResources

definition process_new :: "Gdt \<Rightarrow> ProcessId \<Rightarrow> string \<Rightarrow> u64 \<Rightarrow> bool \<Rightarrow> Process" where
  "process_new g pid name entry user = \<lparr>proc_id = pid, proc_name = name, pstate = Ready,
     pcontext = context_default g, page_table_phys_addr = 0, page_table = None, kernel_stack = 0,
     user_stack = 0, entry_point = entry, is_user = user, exit_code = None, parent_id = None, task_data = 0,
     vdso_page = None, resources = resources_new\<rparr>"

definition init_context :: "Gdt \<Rightarrow> u64 \<Rightarrow> Process \<Rightarrow> Process" where
  "init_context g kernel_stack_top p =
     (let (sp, cs, ss) = (if is_user p
        then (user_stack p, selector (gdt_user_code g) 1, selector (gdt_user_data g) 2)
        else (kernel_stack_top, selector (gdt_code g) 1, selector (gdt_kernel_data g) 2));
          c = pcontext p
      in p\<lparr>pcontext := c\<lparr>regs := (regs c)[7 := sp, 0 := 0], segments := (segments c)[0 := cs, 1 := ss],
             rip := entry_point p, rflags := 0x202\<rparr>\<rparr>)"


section \<open>The scheduler\<close>

record SchedulerContext =
  processes :: "(ProcessId \<times> Process) list"
  next_pid :: u64
  schedule_index :: nat
  current_pid :: u64
  tsc_per_ms :: u64
  tick_counter :: u64
  recovery_rsp :: u64
  recovery_rip :: u64

definition sched_new :: SchedulerContext where
  "sched_new = \<lparr>processes = [], next_pid = 1, schedule_index = 0, current_pid = 0, tsc_per_ms = 0,
     tick_counter = 0, recovery_rsp = 0, recovery_rip = 0\<rparr>"

definition advance_tick :: "'a SchedulerContext_scheme \<Rightarrow> u64 \<times> 'a SchedulerContext_scheme" where
  "advance_tick s = (tick_counter s, s\<lparr>tick_counter := tick_counter s + 1\<rparr>)"

definition allocate_pid :: "'a SchedulerContext_scheme \<Rightarrow> ProcessId \<times> 'a SchedulerContext_scheme" where
  "allocate_pid s = (next_pid s, s\<lparr>next_pid := next_pid s + 1\<rparr>)"

text \<open>\<open>Vec::swap_remove\<close>: the last element takes the place of the removed one.\<close>

definition swap_remove :: "nat \<Rightarrow> 'x list \<Rightarrow> 'x list" where
  "swap_remove i xs = butlast (xs[i := last xs])"

definition position :: "('x \<Rightarrow> bool) \<Rightarrow> 'x list \<Rightarrow> nat option" where
  "position P xs = find (\<lambda>i. P (xs ! i)) [0..<length xs]"

definition sched_add :: "Process \<Rightarrow> 'a SchedulerContext_scheme \<Rightarrow> (SystemError + unit) \<times> 'a SchedulerContext_scheme" where
  "sched_add p s =
     (if MAX_PROCESSES \<le> length (processes s) then (Inl TooManyProcesses, s)
      else let procs = (case position (\<lambda>(i, _). i = proc_id p) (processes s) of
                 Some pos \<Rightarrow> swap_remove pos (processes s)
               | None \<Rightarrow> processes s)
           in (Inr (), s\<lparr>processes := procs @ [(proc_id p, p)]\<rparr>))"

definition find_process :: "ProcessId \<Rightarrow> (ProcessId \<times> Process) list \<Rightarrow> Process option" where
  "find_process pid procs = map_option snd (find (\<lambda>(i, _). i = pid) procs)"

fun update_process :: "ProcessId \<Rightarrow> Process \<Rightarrow> (ProcessId \<times> Process) list \<Rightarrow> (ProcessId \<times> Process) list" where
  "update_process pid q [] = []"
| "update_process pid q ((i, p) # ps) = (if i = pid then (i, q) # ps else (i, p) # update_process pid q ps)"

definition with_process ::
    "ProcessId \<Rightarrow> (Process \<Rightarrow> 'r \<times> Process) \<Rightarrow> 'a SchedulerContext_scheme \<Rightarrow> 'r option \<times> 'a SchedulerContext_scheme" where
  "with_process pid f s = (case find_process pid (processes s) of
     None \<Rightarrow> (None, s)
   | Some p \<Rightarrow> (case f p of (r, q) \<Rightarrow> (Some r, s\<lparr>processes := update_process pid q (processes s)\<rparr>)))"

definition active_count :: "'a SchedulerContext_scheme \<Rightarrow> nat" where
  "active_count s = length (filter (\<lambda>(_, p). pstate p = Ready \<or> pstate p = Running) (processes s))"

definition sched_cleanup :: "'a SchedulerContext_scheme \<Rightarrow> 'a SchedulerContext_scheme" where
  "sched_cleanup s = s\<lparr>processes := filter (\<lambda>(_, p). pstate p \<noteq> Terminated) (processes s)\<rparr>"

text \<open>The scan of \<open>schedule_next\<close>; \<open>None\<close> means that it does not return.\<close>

partial_function (option) schedule_scan :: "(ProcessId \<times> Process) list \<Rightarrow> nat \<Rightarrow> nat \<Rightarrow> nat option" where
  "schedule_scan procs start_idx idx =
     (let next_idx = (idx + 1) mod length procs in
      if pstate (snd (procs ! next_idx)) = Ready then Some next_idx
      else if next_idx = start_idx then
        (case position (\<lambda>(_, p). proc_name p = ''idle'') procs of
           Some idle \<Rightarrow> Some idle
         | None \<Rightarrow> Some next_idx)
      else schedule_scan procs start_idx next_idx)"

definition set_pstate :: "ProcessState \<Rightarrow> ProcessId \<times> Process \<Rightarrow> ProcessId \<times> Process" where
  "set_pstate st ip = (fst ip, (snd ip)\<lparr>pstate := st\<rparr>)"

definition switch_states :: "nat \<Rightarrow> nat \<Rightarrow> (ProcessId \<times> Process) list \<Rightarrow> (ProcessId \<times> Process) list" where
  "switch_states cur nxt procs =
     (if cur = nxt then procs
      else let procs1 = (if pstate (snd (procs ! cur)) = Running
                         then procs[cur := set_pstate Ready (procs ! cur)] else procs)
           in procs1[nxt := set_pstate Running (procs1 ! nxt)])"

definition schedule_next ::
    "'a SchedulerContext_scheme \<Rightarrow> ((ProcessId option \<times> ProcessId) \<times> 'a SchedulerContext_scheme) option" where
  "schedule_next s =
     (let procs = processes s in
      if procs = [] then Some ((None, 0), s)
      else let cur = min (schedule_index s) (length procs - 1)
           in case schedule_scan procs cur cur of
                None \<Rightarrow> None
              | Some nxt \<Rightarrow>
                  let old = Some (fst (procs ! cur)); new = fst (procs ! nxt)
                  in Some ((old, new), s\<lparr>schedule_index := nxt, current_pid := new,
                       processes := switch_states cur nxt procs\<rparr>))"

definition set_recovery :: "u64 \<Rightarrow> u64 \<Rightarrow> 'a SchedulerContext_scheme \<Rightarrow> 'a SchedulerContext_scheme" where
  "set_recovery rsp ip s = s\<lparr>recovery_rsp := rsp, recovery_rip := ip\<rparr>"

definition recovery_target :: "'a SchedulerContext_scheme \<Rightarrow> (u64 \<times> u64) option" where
  "recovery_target s =
     (if recovery_rsp s \<noteq> 0 \<and> recovery_rip s \<noteq> 0 then Some (recovery_rsp s, recovery_rip s) else None)"

definition update_vdso_metadata :: "u64 \<Rightarrow> u64 \<Rightarrow> VdsoPage \<Rightarrow> VdsoPage" where
  "update_vdso_metadata now_us wall_us v = v\<lparr>uptime_us := now_us, time_us := wall_us\<rparr>"

definition update_vdso_all :: "u64 \<Rightarrow> u64 \<Rightarrow> 'a SchedulerContext_scheme \<Rightarrow> 'a SchedulerContext_scheme" where
  "update_vdso_all now_us wall_us s = s\<lparr>processes := map (\<lambda>(i, p).
     (i, p\<lparr>vdso_page := map_option (update_vdso_metadata now_us wall_us) (vdso_page p)\<rparr>)) (processes s)\<rparr>"

definition set_unblocked :: "Process \<Rightarrow> unit \<times> Process" where
  "set_unblocked p = ((), if pstate p = Blocked then p\<lparr>pstate := Ready\<rparr> else p)"

definition unblock_process :: "ProcessId \<Rightarrow> 'a SchedulerContext_scheme \<Rightarrow> 'a SchedulerContext_scheme" where
  "unblock_process pid s = snd (with_process pid set_unblocked s)"

definition unblock_waiting_parents :: "ProcessId \<Rightarrow> 'a SchedulerContext_scheme \<Rightarrow> 'a SchedulerContext_scheme" where
  "unblock_waiting_parents child s =
     (case Option.bind (find_process child (processes s)) parent_id of
        None \<Rightarrow> s
      | Some pp \<Rightarrow>
          (case find_process pp (processes s) of
             None \<Rightarrow> s
           | Some p \<Rightarrow> if pstate p = Blocked then unblock_process pp s else s))"

definition pid_of :: "'a SchedulerContext_scheme \<Rightarrow> ProcessId option" where
  "pid_of s = (if current_pid s = 0 then None else Some (current_pid s))"


section \<open>The machine\<close>

record Machine = SchedulerContext +
  cpu :: ProcessContext
  cr3 :: u64
  secret :: u64
  events :: "nat \<rightharpoonup> EventInner"
  threads :: "nat \<rightharpoonup> ThreadInner"
  channels :: "nat \<rightharpoonup> ChannelInner"
  pipes :: "nat \<rightharpoonup> bytes"
  next_ref :: nat
  hidden_windows :: "u64 list"
  freed_stacks :: "u64 list"
  freed_page_tables :: "u64 list"

definition switch_context :: "ProcessId option \<Rightarrow> ProcessContext \<Rightarrow> Machine \<Rightarrow> Machine" where
  "switch_context old new m =
     (let m1 = (case old of
        None \<Rightarrow> m
      | Some pid \<Rightarrow> snd (with_process pid (\<lambda>p. ((), p\<lparr>pcontext := cpu m\<rparr>)) m))
      in m1\<lparr>cpu := new\<rparr>)"

definition context_switch :: "ProcessId option \<Rightarrow> ProcessId \<Rightarrow> Machine \<Rightarrow> Machine" where
  "context_switch old_pid new_pid m =
     (if old_pid = Some new_pid then m
      else case find_process new_pid (processes m) of
        None \<Rightarrow> m
      | Some p \<Rightarrow>
          let pt = page_table_phys_addr p;
              m1 = (if pt \<noteq> 0 then m\<lparr>cr3 := pt AND NOT 0xFFF\<rparr> else m)
          in switch_context old_pid (pcontext p) m1)"

definition schedule_and_switch :: "Machine \<Rightarrow> Machine option" where
  "schedule_and_switch m = (case schedule_next m of
     None \<Rightarrow> None
   | Some ((old, new), m1) \<Rightarrow>
       (case old of
          Some oldp \<Rightarrow> if oldp \<noteq> new then Some (context_switch (Some oldp) new m1) else Some m1
        | None \<Rightarrow> Some m1))"

definition block_current :: "Machine \<Rightarrow> Machine option" where
  "block_current m =
     (if current_pid m = 0 then Some m
      else schedule_and_switch (snd (with_process (current_pid m) (\<lambda>p. ((), p\<lparr>pstate := Blocked\<rparr>)) m)))"

definition sched_yield_current :: "Machine \<Rightarrow> Machine option" where
  "sched_yield_current m = (if current_pid m = 0 then Some m else schedule_and_switch m)"

text \<open>\<open>process::yield_current\<close> panics without a current process; the outer option is a panic.\<close>

definition yield_current :: "Machine \<Rightarrow> Machine option option" where
  "yield_current m = (case pid_of m of
     None \<Rightarrow> None
   | Some old \<Rightarrow> (case schedule_next m of
       None \<Rightarrow> Some None
     | Some (_, m1) \<Rightarrow> (case pid_of m1 of
         None \<Rightarrow> None
       | Some new \<Rightarrow> Some (Some (context_switch (Some old) new m1)))))"

end
