(* ===== verification/Kernel_Sched.thy ===== *)
theory Kernel_Sched
  imports Kernel_Process
begin

text \<open>
  Round-robin selection of \<open>src/fullerene-kernel/src/scheduler_context.rs\<close>: the scan always returns,
  it takes the next ready process in cyclic order, and it is fair.
\<close>

section \<open>The scan\<close>

definition ready_at :: "(ProcessId \<times> Process) list \<Rightarrow> nat \<Rightarrow> bool" where
  "ready_at procs i \<longleftrightarrow> pstate (snd (procs ! i)) = Ready"

definition fallback :: "(ProcessId \<times> Process) list \<Rightarrow> nat \<Rightarrow> nat" where
  "fallback procs start = (case position (\<lambda>(_, p). proc_name p = ''idle'') procs of Some i \<Rightarrow> i | None \<Rightarrow> start)"

lemma position_Some: "position P xs = Some i \<Longrightarrow> i < length xs \<and> P (xs ! i)"
  unfolding position_def find_upt_Some by simp

lemma position_None: "position P xs = None \<longleftrightarrow> (\<forall>x \<in> set xs. \<not> P x)"
  unfolding position_def find_upt_None by (auto simp: all_set_conv_all_nth)

lemma fallback_less: "start < length procs \<Longrightarrow> fallback procs start < length procs"
  by (auto simp: fallback_def dest: position_Some split: option.split)

lemma schedule_scan_result:
  assumes "start < length procs" and "j < length procs"
  shows "(\<exists>k. j < k \<and> k \<le> length procs \<and> ready_at procs ((start + k) mod length procs) \<and>
       (\<forall>i. j < i \<and> i < k \<longrightarrow> \<not> ready_at procs ((start + i) mod length procs)) \<and>
       schedule_scan procs start ((start + j) mod length procs) = Some ((start + k) mod length procs)) \<or>
     (\<forall>k. j < k \<and> k \<le> length procs \<longrightarrow> \<not> ready_at procs ((start + k) mod length procs)) \<and>
       schedule_scan procs start ((start + j) mod length procs) = Some (fallback procs start)"
  using assms
proof (induction "length procs - j" arbitrary: j rule: less_induct)
  case less
  let ?n = "length procs"
  let ?next = "(start + Suc j) mod ?n"
  have nxt: "((start + j) mod ?n + 1) mod ?n = ?next" by (simp add: mod_Suc_eq)
  have unf: "schedule_scan procs start ((start + j) mod ?n) =
     (if ready_at procs ?next then Some ?next
      else if ?next = start then Some (fallback procs start) else schedule_scan procs start ?next)"
    by (subst schedule_scan.simps, unfold Let_def nxt)
      (simp add: ready_at_def fallback_def split: option.split)
  show ?case
  proof (cases "ready_at procs ?next")
    case True
    then show ?thesis using unf less.prems by (intro disjI1 exI [of _ "Suc j"]) auto
  next
    case notready: False
    show ?thesis
    proof (cases "Suc j = ?n")
      case True
      then have "?next = start" using less.prems by simp
      then have "schedule_scan procs start ((start + j) mod ?n) = Some (fallback procs start)"
        using notready unf by simp
      moreover have "\<forall>k. j < k \<and> k \<le> ?n \<longrightarrow> \<not> ready_at procs ((start + k) mod ?n)"
      proof (intro allI impI)
        fix k assume "j < k \<and> k \<le> ?n"
        then have "k = Suc j" using True by linarith
        then show "\<not> ready_at procs ((start + k) mod ?n)" using notready by simp
      qed
      ultimately show ?thesis by blast
    next
      case False
      then have j: "Suc j < ?n" using less.prems by simp
      have "?next \<noteq> start"
      proof (cases "start + Suc j < ?n")
        case False
        then have "?next = start + Suc j - ?n" using j less.prems(1) by (simp add: le_mod_geq)
        then show ?thesis using j False by linarith
      qed simp
      then have step: "schedule_scan procs start ((start + j) mod ?n) = schedule_scan procs start ?next"
        using notready unf by simp
      have "?n - Suc j < ?n - j" using j by simp
      note IH = less.hyps [OF this less.prems(1) j]
      have split: "j < i \<longleftrightarrow> i = Suc j \<or> Suc j < i" for i by auto
      show ?thesis unfolding step split using IH notready by blast
    qed
  qed
qed

lemma schedule_next_result:
  assumes "processes s \<noteq> []"
  defines "n \<equiv> length (processes s)"
  defines "cur \<equiv> min (schedule_index s) (length (processes s) - 1)"
  obtains nxt where "nxt < n" "cur < n"
    "schedule_next s = Some ((Some (fst (processes s ! cur)), fst (processes s ! nxt)),
       s\<lparr>schedule_index := nxt, current_pid := fst (processes s ! nxt), processes := switch_states cur nxt (processes s)\<rparr>)"
    "(\<exists>k. 1 \<le> k \<and> k \<le> n \<and> nxt = (cur + k) mod n \<and> ready_at (processes s) nxt \<and>
        (\<forall>i. 1 \<le> i \<and> i < k \<longrightarrow> \<not> ready_at (processes s) ((cur + i) mod n))) \<or>
     (\<forall>i < n. \<not> ready_at (processes s) i) \<and> nxt = fallback (processes s) cur"
proof -
  note outer = that
  have n: "0 < n" "cur < n" using assms(1) by (cases "processes s"; auto simp: n_def cur_def)+
  have cm: "(cur + 0) mod n = cur" using n by simp
  have all: "\<forall>i < n. \<not> ready_at (processes s) i"
    if none: "\<forall>k. 0 < k \<and> k \<le> n \<longrightarrow> \<not> ready_at (processes s) ((cur + k) mod n)"
  proof (intro allI impI)
    fix i assume i: "i < n"
    show "\<not> ready_at (processes s) i"
    proof (cases "i \<le> cur")
      case True
      have "(cur + (n + i - cur)) mod n = i" using i n True by simp
      moreover have "0 < n + i - cur" "n + i - cur \<le> n" using True n by auto
      ultimately show ?thesis using none by metis
    next
      case False
      have "(cur + (i - cur)) mod n = i" using i False by simp
      moreover have "0 < i - cur" "i - cur \<le> n" using False i by auto
      ultimately show ?thesis using none by metis
    qed
  qed
  have fin: thesis if sc: "schedule_scan (processes s) cur cur = Some nxt" and l: "nxt < n" and
    p: "(\<exists>k. 1 \<le> k \<and> k \<le> n \<and> nxt = (cur + k) mod n \<and> ready_at (processes s) nxt \<and>
        (\<forall>i. 1 \<le> i \<and> i < k \<longrightarrow> \<not> ready_at (processes s) ((cur + i) mod n))) \<or>
     (\<forall>i < n. \<not> ready_at (processes s) i) \<and> nxt = fallback (processes s) cur" for nxt
    using outer [of nxt] sc l n(2) p assms(1)
    unfolding schedule_next_def Let_def cur_def [symmetric] by simp
  from schedule_scan_result [of cur "processes s" 0] n
  have "(\<exists>k. 0 < k \<and> k \<le> n \<and> ready_at (processes s) ((cur + k) mod n) \<and>
       (\<forall>i. 0 < i \<and> i < k \<longrightarrow> \<not> ready_at (processes s) ((cur + i) mod n)) \<and>
       schedule_scan (processes s) cur cur = Some ((cur + k) mod n)) \<or>
     (\<forall>k. 0 < k \<and> k \<le> n \<longrightarrow> \<not> ready_at (processes s) ((cur + k) mod n)) \<and>
       schedule_scan (processes s) cur cur = Some (fallback (processes s) cur)"
    unfolding n_def [symmetric] cm by blast
  then show thesis
  proof
    assume "\<exists>k. 0 < k \<and> k \<le> n \<and> ready_at (processes s) ((cur + k) mod n) \<and>
       (\<forall>i. 0 < i \<and> i < k \<longrightarrow> \<not> ready_at (processes s) ((cur + i) mod n)) \<and>
       schedule_scan (processes s) cur cur = Some ((cur + k) mod n)"
    then obtain k where k: "1 \<le> k" "k \<le> n" "ready_at (processes s) ((cur + k) mod n)"
      "\<forall>i. 1 \<le> i \<and> i < k \<longrightarrow> \<not> ready_at (processes s) ((cur + i) mod n)"
      "schedule_scan (processes s) cur cur = Some ((cur + k) mod n)" by (auto simp: Suc_le_eq)
    have "(cur + k) mod n < n" using n by simp
    then show thesis using k by (intro fin [OF k(5)] disjI1 exI [of _ k]) simp_all
  next
    assume "(\<forall>k. 0 < k \<and> k \<le> n \<longrightarrow> \<not> ready_at (processes s) ((cur + k) mod n)) \<and>
       schedule_scan (processes s) cur cur = Some (fallback (processes s) cur)"
    then have f: "schedule_scan (processes s) cur cur = Some (fallback (processes s) cur)"
      and none: "\<forall>i < n. \<not> ready_at (processes s) i" using all by blast+
    have "fallback (processes s) cur < n" using fallback_less [of cur "processes s"] n(2) by (simp add: n_def)
    then show thesis using none by (intro fin [OF f] disjI2) simp_all
  qed
qed



section \<open>Fairness\<close>

fun schedule_n :: "nat \<Rightarrow> 'a SchedulerContext_scheme \<Rightarrow> 'a SchedulerContext_scheme option" where
  "schedule_n 0 s = Some s"
| "schedule_n (Suc m) s = (case schedule_next s of None \<Rightarrow> None | Some (_, s') \<Rightarrow> schedule_n m s')"

lemma switch_states_length [simp]: "length (switch_states cur nxt procs) = length procs"
  by (simp add: switch_states_def Let_def)

lemma switch_states_Nil [simp]: "switch_states cur nxt procs = [] \<longleftrightarrow> procs = []"
  by (metis switch_states_length length_0_conv)

lemma fst_set_pstate [simp]: "fst (set_pstate st ip) = fst ip"
  by (simp add: set_pstate_def)

lemma switch_states_nth:
  assumes "cur < length procs" and "nxt < length procs" and "i < length procs"
  shows "switch_states cur nxt procs ! i =
    (if cur = nxt then procs ! i else if i = nxt then set_pstate Running (procs ! i)
     else if i = cur \<and> pstate (snd (procs ! cur)) = Running then set_pstate Ready (procs ! i) else procs ! i)"
  using assms by (auto simp: switch_states_def Let_def)

lemma switch_states_fst: "i < length procs \<Longrightarrow> cur < length procs \<Longrightarrow> nxt < length procs \<Longrightarrow>
    fst (switch_states cur nxt procs ! i) = fst (procs ! i)"
  by (simp add: switch_states_nth)

lemma ready_at_switch:
  assumes "cur < length procs" "nxt < length procs" "i < length procs" "ready_at procs i" "i \<noteq> nxt"
  shows "ready_at (switch_states cur nxt procs) i"
  using assms by (simp add: ready_at_def switch_states_nth set_pstate_def)

lemma mod_add_distinct:
  assumes "(c + j) mod n = (c + k) mod (n::nat)" and "1 \<le> j" "j \<le> n" "1 \<le> k" "k \<le> n"
  shows "j = k"
proof -
  have "n dvd (c + j) - (c + k)" "n dvd (c + k) - (c + j)"
    using assms(1) by (metis mod_eq_dvd_iff_nat nat_le_linear diff_is_0_eq dvd_0_right)+
  then have "n dvd j - k" "n dvd k - j" by simp_all
  moreover have "j - k < n" "k - j < n" using assms by auto
  ultimately show ?thesis by (metis diffs0_imp_equal nat_dvd_not_less neq0_conv)
qed

lemma schedule_reaches:
  assumes "processes s \<noteq> []" and "1 \<le> d" and "d \<le> length (processes s)"
    and "ready_at (processes s) ((min (schedule_index s) (length (processes s) - 1) + d) mod length (processes s))"
  shows "\<exists>m s'. 1 \<le> m \<and> m \<le> d \<and> schedule_n m s = Some s' \<and>
    schedule_index s' = (min (schedule_index s) (length (processes s) - 1) + d) mod length (processes s) \<and>
    current_pid s' = fst (processes s ! schedule_index s')"
  using assms
proof (induction d arbitrary: s rule: less_induct)
  case (less d)
  let ?n = "length (processes s)" and ?cur = "min (schedule_index s) (length (processes s) - 1)"
  let ?j = "(?cur + d) mod ?n"
  have j: "?j < ?n" using less.prems(1) by simp
  from schedule_next_result [OF less.prems(1)] obtain nxt where nxt: "nxt < ?n" "?cur < ?n"
    and sn: "schedule_next s = Some ((Some (fst (processes s ! ?cur)), fst (processes s ! nxt)),
       s\<lparr>schedule_index := nxt, current_pid := fst (processes s ! nxt), processes := switch_states ?cur nxt (processes s)\<rparr>)"
    and ch: "(\<exists>k. 1 \<le> k \<and> k \<le> ?n \<and> nxt = (?cur + k) mod ?n \<and> ready_at (processes s) nxt \<and>
        (\<forall>i. 1 \<le> i \<and> i < k \<longrightarrow> \<not> ready_at (processes s) ((?cur + i) mod ?n))) \<or>
     (\<forall>i < ?n. \<not> ready_at (processes s) i) \<and> nxt = fallback (processes s) ?cur" by blast
  then obtain k where k: "1 \<le> k" "k \<le> ?n" "nxt = (?cur + k) mod ?n"
    "\<forall>i. 1 \<le> i \<and> i < k \<longrightarrow> \<not> ready_at (processes s) ((?cur + i) mod ?n)"
    using less.prems(4) j by blast
  have kd: "k \<le> d" using k(4) less.prems(2,4) by (meson not_le)
  let ?s1 = "s\<lparr>schedule_index := nxt, current_pid := fst (processes s ! nxt), processes := switch_states ?cur nxt (processes s)\<rparr>"
  show ?case
  proof (cases "k = d")
    case True
    have "schedule_n (Suc 0) s = Some ?s1" using sn by simp
    moreover have "schedule_index ?s1 = ?j" using k(3) True by simp
    moreover have "current_pid ?s1 = fst (processes s ! schedule_index ?s1)" by simp
    moreover have "1 \<le> Suc 0" "Suc 0 \<le> d" using less.prems(2) by simp_all
    ultimately show ?thesis by blast
  next
    case False
    then have lt: "k < d" using kd by simp
    have ne: "nxt \<noteq> ?j" using mod_add_distinct [of ?cur k ?n d] k lt less.prems(2,3) by auto
    have cur1: "min (schedule_index ?s1) (length (processes ?s1) - 1) = nxt" using nxt by simp
    have idx: "(nxt + (d - k)) mod ?n = ?j"
      unfolding k(3) mod_add_left_eq using lt by (simp only: add.assoc le_add_diff_inverse less_imp_le)
    have r1: "ready_at (processes ?s1) ((min (schedule_index ?s1) (length (processes ?s1) - 1) + (d - k)) mod length (processes ?s1))"
      unfolding cur1 using ready_at_switch [OF nxt(2,1) j less.prems(4) ne[symmetric]] idx by simp
    have ne1: "processes ?s1 \<noteq> []" using less.prems(1) by simp
    have d1: "d - k < d" "1 \<le> d - k" "d - k \<le> length (processes ?s1)" using lt k(1) less.prems(3) by auto
    have len1: "length (processes ?s1) = ?n" by simp
    obtain m s' where m: "1 \<le> m" "m \<le> d - k" "schedule_n m ?s1 = Some s'"
      "schedule_index s' = (min (schedule_index ?s1) (length (processes ?s1) - 1) + (d - k)) mod length (processes ?s1)"
      "current_pid s' = fst (processes ?s1 ! schedule_index s')"
      using less.IH [OF d1(1) ne1 d1(2,3) r1] by (elim exE conjE) (rule that)
    have ij: "schedule_index s' = ?j" using m(4) [unfolded cur1, unfolded len1 idx] .
    have "current_pid s' = fst (processes s ! schedule_index s')"
      using m(5) switch_states_fst [OF j nxt(2,1)] unfolding ij by simp
    moreover have "schedule_n (Suc m) s = Some s'" using sn m(3) by simp
    moreover have "1 \<le> Suc m" "Suc m \<le> d" using m(1,2) k(1) lt by auto
    ultimately show ?thesis using ij by blast
  qed
qed

text \<open>
  C9. Round robin is fair: whatever the states of the other processes, a process that is ready is
  selected within as many calls of \<open>schedule_next\<close> as there are processes; every one of these calls
  returns.
\<close>

theorem schedule_fair:
  assumes "j < length (processes s)" and "pstate (snd (processes s ! j)) = Ready"
  shows "\<exists>m s'. 1 \<le> m \<and> m \<le> length (processes s) \<and> schedule_n m s = Some s' \<and>
    schedule_index s' = j \<and> current_pid s' = fst (processes s ! j)"
proof -
  let ?n = "length (processes s)" and ?cur = "min (schedule_index s) (length (processes s) - 1)"
  define d where "d = (if ?cur < j then j - ?cur else ?n + j - ?cur)"
  have cur: "?cur < ?n" using assms(1) by linarith
  have d: "1 \<le> d" "d \<le> ?n" "(?cur + d) mod ?n = j"
    using assms(1) cur by (auto simp: d_def)
  have ne: "processes s \<noteq> []" using assms(1) by auto
  have "ready_at (processes s) ((?cur + d) mod ?n)" using assms(2) d(3) by (simp add: ready_at_def)
  from schedule_reaches [OF ne d(1,2) this] obtain m s' where "1 \<le> m" "m \<le> d" "schedule_n m s = Some s'"
    "schedule_index s' = j" "current_pid s' = fst (processes s ! schedule_index s')"
    unfolding d(3) by (elim exE conjE) (rule that)
  then show ?thesis using d(2) by (intro exI [of _ m] exI [of _ s']) simp
qed


definition demo_process :: "u64 \<Rightarrow> string \<Rightarrow> ProcessState \<Rightarrow> ProcessId \<times> Process" where
  "demo_process pid name st = (pid,
     (process_new \<lparr>gdt_code = None, gdt_kernel_data = None, gdt_user_code = None, gdt_user_data = None\<rparr> pid name 0 False)
       \<lparr>pstate := st\<rparr>)"

definition demo_sched :: SchedulerContext where
  "demo_sched = sched_new\<lparr>processes := [demo_process 1 ''idle'' Running, demo_process 2 ''a'' Blocked,
     demo_process 3 ''b'' Ready], next_pid := 4, current_pid := 1\<rparr>"

theorem schedule_fair_witness:
  "\<exists>m s'. m \<le> 3 \<and> schedule_n m demo_sched = Some s' \<and> current_pid s' = 3"
proof -
  have "length (processes demo_sched) = 3" "pstate (snd (processes demo_sched ! 2)) = Ready"
    "fst (processes demo_sched ! 2) = 3"
    by (simp_all add: demo_sched_def sched_new_def demo_process_def)
  then show ?thesis using schedule_fair [of 2 demo_sched] by auto
qed

end
