(* ===== verification/Kernel_Life.thy ===== *)
theory Kernel_Life
  imports Kernel_Sched
begin

text \<open>
  The life of a process: creation of the idle process, release of resources, termination, faults and
  the operations that block and unblock, from \<open>src/fullerene-kernel/src/process.rs\<close> and the fault path of
  \<open>src/fullerene-kernel/src/interrupts/exceptions.rs\<close>. The result \<open>None\<close> is a scan that does not return or
  a halted machine. Freed stacks and page tables are recorded in the machine.
\<close>

section \<open>Operations\<close>

definition KERNEL_STACK_SIZE :: nat where
  "KERNEL_STACK_SIZE = 4096 * 64"

text \<open>The flag is \<open>IDLE_INIT\<close>; \<open>None\<close> is the failed expectation that the list has room.\<close>

definition process_init :: "Gdt \<Rightarrow> u64 \<Rightarrow> bool \<times> Machine \<Rightarrow> (bool \<times> Machine) option" where
  "process_init g idle_addr st = (case st of (idle_init, m) \<Rightarrow>
     if idle_init then Some (idle_init, m)
     else
       let (pid, m1) = allocate_pid m;
           ctx = \<lparr>regs = replicate 16 0, rflags = 0x0202, rip = idle_addr,
                  segments = [selector (gdt_code g) 1, selector (gdt_kernel_data g) 2, 0, 0, 0, 0],
                  tss = 0, ctx_is_user = False\<rparr>;
           idle = \<lparr>proc_id = pid, proc_name = ''idle'', pstate = Running, pcontext = ctx,
                   page_table_phys_addr = 0, page_table = None, kernel_stack = 0, user_stack = 0,
                   entry_point = idle_addr, is_user = False, exit_code = None, parent_id = None,
                   task_data = 0, vdso_page = None, resources = resources_new\<rparr>
       in case sched_add idle m1 of
            (Inl _, _) \<Rightarrow> None
          | (Inr _, m2) \<Rightarrow> Some (True, m2\<lparr>current_pid := pid\<rparr>))"

text \<open>
  What the heap, the page table builder and the VDSO builder answer to \<open>create_process\<close>: the base of
  each stack, the physical address of the page table with its top frame, whether the frame allocator
  is there, and the VDSO page.
\<close>

record Allocations =
  kstack :: "SystemError + u64"
  ustack :: "SystemError + u64"
  ptable :: "SystemError + u64 \<times> u64 option"
  frame_allocator :: bool
  vdso :: "VdsoPage option"

definition free_stacks :: "u64 list \<Rightarrow> Machine \<Rightarrow> Machine" where
  "free_stacks bases m = m\<lparr>freed_stacks := freed_stacks m @ bases\<rparr>"

definition free_page_table :: "u64 option \<Rightarrow> Machine \<Rightarrow> Machine" where
  "free_page_table frame m = (case frame of
     None \<Rightarrow> m
   | Some f \<Rightarrow> m\<lparr>freed_page_tables := freed_page_tables m @ [f]\<rparr>)"

definition finish_process :: "Gdt \<Rightarrow> u64 \<Rightarrow> Process \<Rightarrow> Machine \<Rightarrow> (SystemError + ProcessId) \<times> Machine" where
  "finish_process g kernel_stack_top p m = (case sched_add (init_context g kernel_stack_top p) m of
     (Inl e, m') \<Rightarrow> (Inl e, m')
   | (Inr _, m') \<Rightarrow> (Inr (proc_id p), m'))"

definition create_process ::
    "Gdt \<Rightarrow> Allocations \<Rightarrow> string \<Rightarrow> u64 \<Rightarrow> bool \<Rightarrow> Machine \<Rightarrow> (SystemError + ProcessId) \<times> Machine" where
  "create_process g al name entry user m =
     (let (pid, m1) = allocate_pid m;
          p = process_new g pid name entry user
      in case kstack al of
           Inl e \<Rightarrow> (Inl e, m1)
         | Inr sp \<Rightarrow>
             let top = sp + of_nat KERNEL_STACK_SIZE in
             if user then
               (case ustack al of
                  Inl e \<Rightarrow> (Inl e, free_stacks [sp] m1)
                | Inr us \<Rightarrow> (case ptable al of
                    Inl e \<Rightarrow> (Inl e, free_stacks [us, sp] m1)
                  | Inr (phys, frame) \<Rightarrow>
                      if \<not> frame_allocator al
                      then (Inl InternalError, free_page_table frame (free_stacks [us, sp] m1))
                      else (case vdso al of
                        None \<Rightarrow> (Inl SysFrameAllocationFailed, free_page_table frame (free_stacks [us, sp] m1))
                      | Some v \<Rightarrow> finish_process g top
                          (p\<lparr>user_stack := us + of_nat KERNEL_STACK_SIZE, page_table_phys_addr := phys,
                             page_table := Some frame, vdso_page := Some (v\<lparr>vdso_pid := pid\<rparr>)\<rparr>) m1)))
             else
               (case ptable al of
                  Inl e \<Rightarrow> (Inl e, free_stacks [sp] m1)
                | Inr (phys, frame) \<Rightarrow>
                    finish_process g top (p\<lparr>page_table_phys_addr := phys, page_table := Some frame\<rparr>) m1))"

text \<open>
  What the memory manager answers to \<open>syscall_fork\<close>: whether it is there, the address of the cloned
  table, whether that table initialises, the new kernel stack, the frame allocator and the VDSO page.
\<close>

record ForkOutcome =
  fork_manager :: bool
  fork_clone :: "SyscallError + u64"
  fork_table_init :: bool
  fork_stack :: "u64 option"
  fork_frame_allocator :: bool
  fork_vdso :: "VdsoPage option"

definition fork_child :: "ProcessId \<Rightarrow> ProcessId \<Rightarrow> Process \<Rightarrow> u64 \<Rightarrow> u64 \<Rightarrow> VdsoPage option \<Rightarrow> Process" where
  "fork_child pid cur pa addr sp v =
     (let c = pcontext pa in
      \<lparr>proc_id = pid, proc_name = ''child'', pstate = Ready,
       pcontext = c\<lparr>regs := (regs c)[0 := 0, 7 := user_stack pa]\<rparr>,
       page_table_phys_addr = addr, page_table = Some (Some (addr AND NOT 0xFFF)),
       kernel_stack = sp + of_nat KERNEL_STACK_SIZE, user_stack = user_stack pa,
       entry_point = entry_point pa, is_user = ctx_is_user c, exit_code = None, parent_id = Some cur,
       task_data = 0, vdso_page = v, resources = resources_new\<rparr>)"

definition syscall_fork :: "ForkOutcome \<Rightarrow> Machine \<Rightarrow> (SyscallError + u64) \<times> Machine" where
  "syscall_fork fo m = (case pid_of m of
     None \<Rightarrow> (Inl NoSuchProcess, m)
   | Some cur \<Rightarrow> (case find_process cur (processes m) of
       None \<Rightarrow> (Inl NoSuchProcess, m)
     | Some pa \<Rightarrow>
         if \<not> fork_manager fo then (Inl OutOfMemory, m)
         else (case fork_clone fo of
           Inl e \<Rightarrow> (Inl e, m)
         | Inr addr \<Rightarrow>
             let frame = Some (addr AND NOT 0xFFF) in
             if \<not> fork_table_init fo then (Inl InvalidArgument, free_page_table frame m)
             else (case fork_stack fo of
               None \<Rightarrow> (Inl OutOfMemory, free_page_table frame m)
             | Some sp \<Rightarrow>
                 let (pid, m1) = allocate_pid m;
                     undo = free_page_table frame (free_stacks [sp] m1);
                     user = ctx_is_user (pcontext pa)
                 in if user \<and> (\<not> fork_frame_allocator fo \<or> fork_vdso fo = None) then (Inl OutOfMemory, undo)
                    else let v = (if user then map_option (\<lambda>w. w\<lparr>vdso_pid := pid\<rparr>) (fork_vdso fo) else None)
                         in (case sched_add (fork_child pid cur pa addr sp v) m1 of
                               (Inl _, _) \<Rightarrow> (Inl OutOfMemory, undo)
                             | (Inr _, m2) \<Rightarrow> (Inr pid, m2))))))"

text \<open>The waiters of an object are moved out of it when its handle is removed.\<close>

definition take_waiters :: "KernelObject \<Rightarrow> Machine \<Rightarrow> ProcessId list \<times> Machine" where
  "take_waiters obj m = (case obj of
     Event r \<Rightarrow> (case events m r of
         None \<Rightarrow> ([], m)
       | Some e \<Rightarrow> (ev_waiters e, m\<lparr>events := (events m)(r \<mapsto> e\<lparr>ev_waiters := []\<rparr>)\<rparr>))
   | Thread r \<Rightarrow> (case threads m r of
         None \<Rightarrow> ([], m)
       | Some t \<Rightarrow> (th_waiters t, m\<lparr>threads := (threads m)(r \<mapsto> t\<lparr>th_waiters := []\<rparr>)\<rparr>))
   | Channel r \<Rightarrow> (case channels m r of
         None \<Rightarrow> ([], m)
       | Some c \<Rightarrow> (ch_waiters c, m\<lparr>channels := (channels m)(r \<mapsto> c\<lparr>ch_waiters := []\<rparr>)\<rparr>))
   | Window w _ \<Rightarrow> ([], m\<lparr>hidden_windows := hidden_windows m @ [w]\<rparr>)
   | _ \<Rightarrow> ([], m))"

fun cleanup_handles ::
    "Handle list \<Rightarrow> HandleTable \<Rightarrow> ProcessId list \<Rightarrow> Machine \<Rightarrow> ProcessId list \<times> HandleTable \<times> Machine" where
  "cleanup_handles [] ht ws m = (ws, ht, m)"
| "cleanup_handles (h # hs) ht ws m = (case ht_remove (secret m) h ht of
     (None, ht') \<Rightarrow> cleanup_handles hs ht' ws m
   | (Some obj, ht') \<Rightarrow> (case take_waiters obj m of (w, m') \<Rightarrow> cleanup_handles hs ht' (ws @ w) m'))"

definition resources_cleanup :: "ProcessResources \<Rightarrow> Machine \<Rightarrow> ProcessId list \<times> ProcessResources \<times> Machine" where
  "resources_cleanup r m =
     (case cleanup_handles (map fst (ht_entries (secret m) (handle_table r))) (handle_table r) [] m of
        (ws, ht, m') \<Rightarrow> (ws, r\<lparr>handle_table := ht, fd_table := fds_clear (fd_table r)\<rparr>, m'))"

definition free_process_memory :: "Process \<Rightarrow> Machine \<Rightarrow> Machine" where
  "free_process_memory p m =
     (let base = unat (kernel_stack p) - KERNEL_STACK_SIZE;
          m1 = (if KERNEL_STACK_SIZE < unat (kernel_stack p)
                then m\<lparr>freed_stacks := freed_stacks m @ [of_nat base]\<rparr> else m)
      in case page_table p of
           Some (Some frame) \<Rightarrow> m1\<lparr>freed_page_tables := freed_page_tables m1 @ [frame]\<rparr>
         | _ \<Rightarrow> m1)"

definition terminate_entry :: "ProcessId \<Rightarrow> u32 \<Rightarrow> Machine \<Rightarrow> ProcessId list \<times> Machine" where
  "terminate_entry pid code m = (case find_process pid (processes m) of
     None \<Rightarrow> ([], m)
   | Some p \<Rightarrow>
       if proc_name p = ''idle'' then ([], m)
       else case resources_cleanup (resources p) m of (ws, res, m1) \<Rightarrow>
         let m2 = free_process_memory p m1;
             q = p\<lparr>pstate := Terminated, exit_code := Some code, resources := res, page_table := None\<rparr>
         in (ws, m2\<lparr>processes := update_process pid q (processes m2)\<rparr>))"

definition terminate_process :: "ProcessId \<Rightarrow> u32 \<Rightarrow> Machine \<Rightarrow> Machine option" where
  "terminate_process pid code m =
     (let (ws, m1) = terminate_entry pid code m;
          m2 = fold unblock_process ws m1;
          m3 = unblock_waiting_parents pid m2
      in if current_pid m3 = pid then map_option snd (schedule_next m3) else Some m3)"

definition set_faulted :: "Process \<Rightarrow> unit \<times> Process" where
  "set_faulted p = ((), p\<lparr>pstate := Terminated, exit_code := Some 1\<rparr>)"

text \<open>Without a current process or without a registered trampoline the machine halts.\<close>

definition terminate_and_recover :: "u64 option \<Rightarrow> Machine \<Rightarrow> Machine option" where
  "terminate_and_recover tramp m =
     (if current_pid m = 0 then None
      else let m1 = snd (with_process (current_pid m) set_faulted m)
           in case tramp of None \<Rightarrow> None | Some _ \<Rightarrow> Some m1)"

definition exception_recovery_trampoline :: "Machine \<Rightarrow> Machine option" where
  "exception_recovery_trampoline m = (case schedule_next (sched_cleanup m) of
     None \<Rightarrow> None
   | Some (_, m1) \<Rightarrow> (case pid_of m1 of
       None \<Rightarrow> None
     | Some new \<Rightarrow> Some (context_switch None new m1)))"

text \<open>A fault in user mode: the handler returns into the trampoline.\<close>

definition user_fault :: "u64 option \<Rightarrow> Machine \<Rightarrow> Machine option" where
  "user_fault tramp m = Option.bind (terminate_and_recover tramp m) exception_recovery_trampoline"


section \<open>The process list\<close>

definition list_inv :: "(ProcessId \<times> Process) list \<Rightarrow> u64 \<Rightarrow> bool" where
  "list_inv procs npid \<longleftrightarrow> distinct (map fst procs) \<and> length procs \<le> MAX_PROCESSES \<and>
     (\<forall>(i, p) \<in> set procs. proc_id p = i \<and> i \<noteq> 0 \<and> i < npid) \<and>
     (\<exists>(i, p) \<in> set procs. proc_name p = ''idle'' \<and> pstate p \<noteq> Terminated)"

definition only_running :: "(ProcessId \<times> Process) list \<Rightarrow> ProcessId \<Rightarrow> bool" where
  "only_running procs pid \<longleftrightarrow> (\<forall>(i, p) \<in> set procs. pstate p = Running \<longrightarrow> i = pid)"

definition kernel_inv :: "'a SchedulerContext_scheme \<Rightarrow> bool" where
  "kernel_inv s \<longleftrightarrow> list_inv (processes s) (next_pid s) \<and> schedule_index s < length (processes s) \<and>
     fst (processes s ! schedule_index s) = current_pid s \<and> only_running (processes s) (current_pid s)"

text \<open>What the invariant reads of a process.\<close>

definition same_role :: "Process \<Rightarrow> Process \<Rightarrow> bool" where
  "same_role p q \<longleftrightarrow> proc_id q = proc_id p \<and> proc_name q = proc_name p \<and>
     (pstate q = Running \<longrightarrow> pstate p = Running) \<and>
     (proc_name p = ''idle'' \<and> pstate q = Terminated \<longrightarrow> pstate p = Terminated)"

definition roles_kept :: "(ProcessId \<times> Process) list \<Rightarrow> (ProcessId \<times> Process) list \<Rightarrow> bool" where
  "roles_kept ps qs \<longleftrightarrow> list_all2 (\<lambda>(i, p) (j, q). i = j \<and> same_role p q) ps qs"

lemma same_role_refl [simp]: "same_role p p"
  by (simp add: same_role_def)

lemma roles_kept_refl [simp]: "roles_kept ps ps"
  by (auto simp: roles_kept_def list_all2_same)

lemma roles_kept_trans: "roles_kept ps qs \<Longrightarrow> roles_kept qs rs \<Longrightarrow> roles_kept ps rs"
  unfolding roles_kept_def
  by (erule list_all2_trans [rotated], assumption) (auto simp: same_role_def)

lemma roles_kept_fst: "roles_kept ps qs \<Longrightarrow> map fst qs = map fst ps"
  unfolding roles_kept_def by (induction rule: list_all2_induct) auto

lemma roles_kept_length: "roles_kept ps qs \<Longrightarrow> length qs = length ps"
  by (metis roles_kept_fst length_map)

lemma roles_kept_back:
  "roles_kept ps qs \<Longrightarrow> (i, q) \<in> set qs \<Longrightarrow> \<exists>p. (i, p) \<in> set ps \<and> same_role p q"
  unfolding roles_kept_def by (induction rule: list_all2_induct) auto

lemma roles_kept_forth:
  "roles_kept ps qs \<Longrightarrow> (i, p) \<in> set ps \<Longrightarrow> \<exists>q. (i, q) \<in> set qs \<and> same_role p q"
  unfolding roles_kept_def by (induction rule: list_all2_induct) auto

lemma list_inv_kept: "roles_kept ps qs \<Longrightarrow> list_inv ps n \<Longrightarrow> list_inv qs n"
proof -
  assume k: "roles_kept ps qs" and inv: "list_inv ps n"
  have "proc_id q = i \<and> i \<noteq> 0 \<and> i < n" if "(i, q) \<in> set qs" for i q
    using roles_kept_back [OF k that] inv by (fastforce simp: list_inv_def same_role_def)
  moreover have "\<exists>(i, q) \<in> set qs. proc_name q = ''idle'' \<and> pstate q \<noteq> Terminated"
    using inv roles_kept_forth [OF k] by (fastforce simp: list_inv_def same_role_def)
  ultimately show ?thesis
    using inv roles_kept_fst [OF k] roles_kept_length [OF k] by (auto simp: list_inv_def)
qed

lemma only_running_kept: "roles_kept ps qs \<Longrightarrow> only_running ps c \<Longrightarrow> only_running qs c"
  unfolding only_running_def same_role_def by (fastforce dest: roles_kept_back simp: same_role_def)

lemma kernel_inv_kept:
  fixes s :: "'a SchedulerContext_scheme" and s' :: "'b SchedulerContext_scheme"
  assumes "kernel_inv s" and "roles_kept (processes s) (processes s')" and "next_pid s' = next_pid s"
    and "schedule_index s' = schedule_index s" and "current_pid s' = current_pid s"
  shows "kernel_inv s'"
proof -
  have "fst (processes s' ! schedule_index s) = fst (processes s ! schedule_index s)"
    using roles_kept_fst [OF assms(2)] assms(1) roles_kept_length [OF assms(2)]
    by (metis kernel_inv_def nth_map)
  then show ?thesis
    using assms list_inv_kept [OF assms(2)] only_running_kept [OF assms(2)] roles_kept_length [OF assms(2)]
    by (simp add: kernel_inv_def)
qed

lemma find_process_Some: "find_process pid ps = Some p \<Longrightarrow> (pid, p) \<in> set ps"
  by (auto simp: find_process_def find_Some_iff) (metis nth_mem prod.collapse)

lemma find_process_distinct:
  "distinct (map fst ps) \<Longrightarrow> (pid, p) \<in> set ps \<Longrightarrow> find_process pid ps = Some p"
  unfolding find_process_def by (induction ps) (auto simp: rev_image_eqI)

lemma find_update_process:
  "find_process pid ps = Some p \<Longrightarrow> find_process pid (update_process pid q ps) = Some q"
  unfolding find_process_def by (induction pid q ps rule: update_process.induct) auto

lemma find_update_other:
  "i \<noteq> pid \<Longrightarrow> find_process i (update_process pid q ps) = find_process i ps"
  unfolding find_process_def by (induction pid q ps rule: update_process.induct) auto

lemma roles_kept_update:
  "find_process pid ps = Some p \<Longrightarrow> same_role p q \<Longrightarrow> roles_kept ps (update_process pid q ps)"
  unfolding roles_kept_def find_process_def
  by (induction pid q ps rule: update_process.induct) (auto simp: list_all2_same split: if_splits)

lemma roles_kept_with_process:
  assumes "\<And>p. same_role p (snd (f p))"
  shows "roles_kept (processes s) (processes (snd (with_process pid f s)))"
  using assms by (auto simp: with_process_def roles_kept_update split: option.split prod.split)
    (metis roles_kept_update snd_conv)

lemma with_process_frame [simp]:
  "next_pid (snd (with_process pid f s)) = next_pid s" "schedule_index (snd (with_process pid f s)) = schedule_index s"
  "current_pid (snd (with_process pid f s)) = current_pid s"
  by (auto simp: with_process_def split: option.split prod.split)


section \<open>Operations keep the invariant\<close>

lemma unblock_kept:
  "roles_kept (processes s) (processes (unblock_process pid s))"
  unfolding unblock_process_def by (rule roles_kept_with_process) (simp add: same_role_def set_unblocked_def)

lemma unblock_frame [simp]:
  "next_pid (unblock_process pid s) = next_pid s" "schedule_index (unblock_process pid s) = schedule_index s"
  "current_pid (unblock_process pid s) = current_pid s"
  by (simp_all add: unblock_process_def)

lemma unblock_inv: "kernel_inv s \<Longrightarrow> kernel_inv (unblock_process pid s)"
  by (rule kernel_inv_kept [OF _ unblock_kept]) simp_all

lemma unblock_fold_inv: "kernel_inv s \<Longrightarrow> kernel_inv (fold unblock_process ws s)"
  by (induction ws arbitrary: s) (simp_all add: unblock_inv)

lemma unblock_parents_inv: "kernel_inv s \<Longrightarrow> kernel_inv (unblock_waiting_parents pid s)"
  by (simp add: unblock_waiting_parents_def unblock_inv split: option.split)

text \<open>What the stores of kernel objects and the lists of freed memory leave alone.\<close>

definition core :: "Machine \<Rightarrow> (ProcessId \<times> Process) list \<times> u64 \<times> nat \<times> u64 \<times> ProcessContext \<times> u64" where
  "core m = (processes m, next_pid m, schedule_index m, current_pid m, cpu m, cr3 m)"

lemma take_waiters_core: "take_waiters obj m = (w, m') \<Longrightarrow> core m' = core m"
  by (auto simp: take_waiters_def core_def split: KernelObject.splits option.splits)

lemma cleanup_handles_core: "cleanup_handles hs ht ws m = (ws', ht', m') \<Longrightarrow> core m' = core m"
proof (induction hs arbitrary: ht ws m)
  case (Cons h hs)
  obtain r t where r: "ht_remove (secret m) h ht = (r, t)" by fastforce
  show ?case
  proof (cases r)
    case None
    then show ?thesis using Cons.prems Cons.IH r by simp
  next
    case (Some obj)
    obtain w m1 where "take_waiters obj m = (w, m1)" by fastforce
    then show ?thesis using Cons.prems Cons.IH [of t "ws @ w" m1] r Some take_waiters_core by simp
  qed
qed simp

lemma resources_cleanup_core: "resources_cleanup r m = (ws, r', m') \<Longrightarrow> core m' = core m"
  by (auto simp: resources_cleanup_def dest: cleanup_handles_core split: prod.splits)

lemma free_process_memory_core: "core (free_process_memory p m) = core m"
  by (simp add: free_process_memory_def core_def Let_def split: option.split)

lemma kernel_inv_core: "core m' = core m \<Longrightarrow> kernel_inv m' = kernel_inv m"
  by (simp add: core_def kernel_inv_def)

lemma terminate_entry_kept:
  assumes "terminate_entry pid code m = (ws, m')"
  shows "roles_kept (processes m) (processes m') \<and> next_pid m' = next_pid m \<and>
    schedule_index m' = schedule_index m \<and> current_pid m' = current_pid m \<and> cpu m' = cpu m \<and> cr3 m' = cr3 m"
proof (cases "find_process pid (processes m)")
  case None
  then show ?thesis using assms by (simp add: terminate_entry_def)
next
  case (Some p)
  obtain ws1 r m1 where c: "resources_cleanup (resources p) m = (ws1, r, m1)" by (metis prod_cases3)
  have core: "core (free_process_memory p m1) = core m"
    using resources_cleanup_core [OF c] free_process_memory_core by simp
  then have eq: "processes (free_process_memory p m1) = processes m" by (simp add: core_def)
  show ?thesis
  proof (cases "proc_name p = ''idle''")
    case True
    then show ?thesis using assms Some by (simp add: terminate_entry_def)
  next
    case False
    let ?q = "p\<lparr>pstate := Terminated, exit_code := Some code, resources := r, page_table := None\<rparr>"
    have "m' = (free_process_memory p m1)\<lparr>processes := update_process pid ?q (processes m)\<rparr>"
      using assms Some False c eq by (simp add: terminate_entry_def Let_def)
    moreover have "roles_kept (processes m) (update_process pid ?q (processes m))"
      using Some False by (intro roles_kept_update) (auto simp: same_role_def)
    ultimately show ?thesis using core by (simp add: core_def)
  qed
qed

lemma list_inv_nonempty: "list_inv ps n \<Longrightarrow> ps \<noteq> []"
  by (auto simp: list_inv_def)

lemma distinct_fst_index: "distinct (map fst ps) \<Longrightarrow> i < length ps \<Longrightarrow> j < length ps \<Longrightarrow>
    fst (ps ! i) = fst (ps ! j) \<Longrightarrow> i = j"
  by (metis length_map nth_eq_iff_index_eq nth_map)

lemma list_inv_entry: "list_inv ps n \<Longrightarrow> i < length ps \<Longrightarrow>
    proc_id (snd (ps ! i)) = fst (ps ! i) \<and> fst (ps ! i) \<noteq> 0 \<and> fst (ps ! i) < n"
proof -
  assume inv: "list_inv ps n" and i: "i < length ps"
  have "(fst (ps ! i), snd (ps ! i)) \<in> set ps" using i by simp
  then show ?thesis using inv unfolding list_inv_def by blast
qed

lemma switch_states_list_inv:
  assumes "list_inv ps n" and "cur < length ps" and "nxt < length ps"
  shows "list_inv (switch_states cur nxt ps) n"
proof -
  let ?qs = "switch_states cur nxt ps"
  have fst: "map fst ?qs = map fst ps"
    using assms by (intro nth_equalityI) (simp_all add: switch_states_fst)
  have nth: "fst (?qs ! i) = fst (ps ! i) \<and> proc_id (snd (?qs ! i)) = proc_id (snd (ps ! i)) \<and>
      proc_name (snd (?qs ! i)) = proc_name (snd (ps ! i)) \<and>
      (pstate (snd (?qs ! i)) = Terminated \<longrightarrow> pstate (snd (ps ! i)) = Terminated)" if "i < length ps" for i
    using switch_states_nth [OF assms(2,3) that] by (simp add: set_pstate_def)
  have "proc_id q = j \<and> j \<noteq> 0 \<and> j < n" if "(j, q) \<in> set ?qs" for j q
  proof -
    obtain i where i: "i < length ps" "?qs ! i = (j, q)" using \<open>(j, q) \<in> set ?qs\<close> by (auto simp: in_set_conv_nth)
    show ?thesis using list_inv_entry [OF assms(1) i(1)] nth [OF i(1)] i(2) by simp
  qed
  moreover have "\<exists>(j, q) \<in> set ?qs. proc_name q = ''idle'' \<and> pstate q \<noteq> Terminated"
  proof -
    obtain i where i: "i < length ps" "proc_name (snd (ps ! i)) = ''idle''" "pstate (snd (ps ! i)) \<noteq> Terminated"
      using assms(1) by (auto simp: list_inv_def in_set_conv_nth)
    have "?qs ! i \<in> set ?qs" using i by simp
    then show ?thesis using nth [OF i(1)] i(2,3) by (auto intro!: bexI [of _ "?qs ! i"] split: prod.splits)
  qed
  ultimately show ?thesis using assms(1) fst by (auto simp: list_inv_def)
qed

lemma schedule_next_inv:
  fixes s :: "'a SchedulerContext_scheme"
  assumes "list_inv (processes s) (next_pid s)"
    and "only_running (processes s) (fst (processes s ! min (schedule_index s) (length (processes s) - 1)))"
  shows "\<exists>old new s'. schedule_next s = Some ((Some old, new), s') \<and> kernel_inv s' \<and> current_pid s' = new \<and>
    map fst (processes s') = map fst (processes s) \<and> next_pid s' = next_pid s \<and>
    old = fst (processes s ! min (schedule_index s) (length (processes s) - 1))"
proof -
  let ?ps = "processes s" let ?cur = "min (schedule_index s) (length ?ps - 1)"
  obtain nxt where l: "nxt < length ?ps" "?cur < length ?ps"
    and sn: "schedule_next s = Some ((Some (fst (?ps ! ?cur)), fst (?ps ! nxt)),
       s\<lparr>schedule_index := nxt, current_pid := fst (?ps ! nxt), processes := switch_states ?cur nxt ?ps\<rparr>)"
    using schedule_next_result [OF list_inv_nonempty [OF assms(1)]] by metis
  have fst: "map fst (switch_states ?cur nxt ?ps) = map fst ?ps"
    using l by (intro nth_equalityI) (simp_all add: switch_states_fst)
  have run: "only_running (switch_states ?cur nxt ?ps) (fst (?ps ! nxt))"
    unfolding only_running_def
  proof (intro ballI, clarify)
    fix j q assume "(j, q) \<in> set (switch_states ?cur nxt ?ps)" and r: "pstate q = Running"
    then obtain i where i: "i < length ?ps" "switch_states ?cur nxt ?ps ! i = (j, q)"
      by (auto simp: in_set_conv_nth)
    have "pstate (snd (?ps ! i)) = Running \<longrightarrow> fst (?ps ! i) = fst (?ps ! ?cur)"
      using assms(2) nth_mem [OF i(1)] by (auto simp: only_running_def split: prod.splits)
    moreover have "distinct (map fst ?ps)" using assms(1) by (simp add: list_inv_def)
    ultimately have "pstate (snd (?ps ! i)) = Running \<longrightarrow> i = ?cur"
      using distinct_fst_index [of ?ps i ?cur] i(1) l(2) by blast
    then have "i = nxt" using switch_states_nth [OF l(2,1) i(1)] i(2) r
      by (auto simp: set_pstate_def split: if_splits)
    then show "j = fst (?ps ! nxt)" using switch_states_fst [OF i(1) l(2,1)] i(2) by simp
  qed
  show ?thesis unfolding sn
    using switch_states_list_inv [OF assms(1) l(2,1)] run l fst
    by (simp add: kernel_inv_def switch_states_fst)
qed

lemma context_switch_kept:
  "roles_kept (processes m) (processes (context_switch old new m)) \<and>
   next_pid (context_switch old new m) = next_pid m \<and>
   schedule_index (context_switch old new m) = schedule_index m \<and>
   current_pid (context_switch old new m) = current_pid m"
proof -
  have "roles_kept (processes m') (processes (switch_context o' c m')) \<and>
      next_pid (switch_context o' c m') = next_pid m' \<and>
      schedule_index (switch_context o' c m') = schedule_index m' \<and>
      current_pid (switch_context o' c m') = current_pid m'" for o' c and m' :: Machine
    using roles_kept_with_process [of "\<lambda>p. ((), p\<lparr>pcontext := cpu m'\<rparr>)" m']
    by (cases o') (simp_all add: switch_context_def same_role_def)
  from this [of m] this [of "m\<lparr>cr3 := _\<rparr>"] show ?thesis
    by (simp add: context_switch_def Let_def split: option.split)
qed

lemma context_switch_inv: "kernel_inv m \<Longrightarrow> kernel_inv (context_switch old new m)"
  using context_switch_kept [of m old new] by - (rule kernel_inv_kept [of m], simp_all)

lemma kernel_inv_index:
  "kernel_inv s \<Longrightarrow> min (schedule_index s) (length (processes s) - 1) = schedule_index s"
  by (auto simp: kernel_inv_def)

lemma kernel_inv_current: "kernel_inv s \<Longrightarrow> current_pid s \<noteq> 0"
  unfolding kernel_inv_def using list_inv_entry by metis

lemma schedule_next_keeps:
  assumes "kernel_inv s"
  shows "\<exists>new s'. schedule_next s = Some ((Some (current_pid s), new), s') \<and> kernel_inv s' \<and> current_pid s' = new"
  using schedule_next_inv [of s] assms kernel_inv_index [OF assms] unfolding kernel_inv_def by auto

lemma schedule_and_switch_inv:
  assumes "kernel_inv m"
  shows "\<exists>m'. schedule_and_switch m = Some m' \<and> kernel_inv m'"
  using schedule_next_keeps [OF assms] by (auto simp: schedule_and_switch_def context_switch_inv)

lemma yield_inv: "kernel_inv m \<Longrightarrow> \<exists>m'. yield_current m = Some (Some m') \<and> kernel_inv m'"
  using schedule_next_keeps [of m] kernel_inv_current [of m]
  by (auto simp: yield_current_def pid_of_def context_switch_inv dest: kernel_inv_current)

lemma sched_yield_inv: "kernel_inv m \<Longrightarrow> \<exists>m'. sched_yield_current m = Some m' \<and> kernel_inv m'"
  using schedule_and_switch_inv [of m] kernel_inv_current [of m] by (simp add: sched_yield_current_def)

lemma block_inv:
  assumes "kernel_inv m"
  shows "\<exists>m'. block_current m = Some m' \<and> kernel_inv m'"
proof -
  let ?m = "snd (with_process (current_pid m) (\<lambda>p. ((), p\<lparr>pstate := Blocked\<rparr>)) m)"
  have "roles_kept (processes m) (processes ?m)"
    by (rule roles_kept_with_process) (simp add: same_role_def)
  then have "kernel_inv ?m" using assms by - (rule kernel_inv_kept [of m], simp_all)
  then show ?thesis
    using schedule_and_switch_inv kernel_inv_current [OF assms] by (simp add: block_current_def)
qed

lemma terminate_inv:
  assumes "kernel_inv m"
  shows "\<exists>m'. terminate_process pid code m = Some m' \<and> kernel_inv m'"
proof -
  obtain ws m1 where t: "terminate_entry pid code m = (ws, m1)" by fastforce
  have "kernel_inv m1" using terminate_entry_kept [OF t] assms by - (rule kernel_inv_kept [of m], simp_all)
  then have "kernel_inv (unblock_waiting_parents pid (fold unblock_process ws m1))"
    by (intro unblock_parents_inv unblock_fold_inv)
  then show ?thesis using schedule_next_keeps [of "unblock_waiting_parents pid (fold unblock_process ws m1)"]
    by (auto simp: terminate_process_def t Let_def)
qed

lemma list_inv_filter:
  "list_inv ps n \<Longrightarrow> list_inv (filter (\<lambda>(_, p). pstate p \<noteq> Terminated) ps) n"
  by (auto simp: list_inv_def distinct_map inj_on_def intro: order_trans [OF length_filter_le])

lemma fault_schedules:
  assumes "kernel_inv m" and "find_process (current_pid m) (processes m) = Some p" and "proc_name p \<noteq> ''idle''"
  defines "ps \<equiv> update_process (current_pid m) (snd (set_faulted p)) (processes m)"
  shows "\<exists>old new m3. schedule_next (sched_cleanup (m\<lparr>processes := ps\<rparr>)) = Some ((Some old, new), m3) \<and> kernel_inv m3 \<and>
    current_pid m3 = new \<and> list_inv (processes (sched_cleanup (m\<lparr>processes := ps\<rparr>))) (next_pid m) \<and>
    map fst (processes m3) = map fst (processes (sched_cleanup (m\<lparr>processes := ps\<rparr>)))"
proof -
  let ?m2 = "sched_cleanup (m\<lparr>processes := ps\<rparr>)"
  have k: "roles_kept (processes m) ps"
    unfolding ps_def using assms(2,3) by (intro roles_kept_update) (auto simp: same_role_def set_faulted_def)
  have none: "pstate q \<noteq> Running" if "(i, q) \<in> set (processes ?m2)" for i q
  proof -
    have q: "(i, q) \<in> set ps" "pstate q \<noteq> Terminated" using that by (auto simp: sched_cleanup_def)
    have "distinct (map fst ps)" "only_running ps (current_pid m)"
      using assms(1) roles_kept_fst [OF k] only_running_kept [OF k] by (simp_all add: kernel_inv_def list_inv_def)
    moreover have "find_process (current_pid m) ps = Some (snd (set_faulted p))"
      unfolding ps_def using assms(2) by (rule find_update_process)
    ultimately show ?thesis
      using q find_process_distinct [of ps i q] by (auto simp: only_running_def set_faulted_def)
  qed
  have l: "list_inv (processes ?m2) (next_pid ?m2)"
    using list_inv_filter [OF list_inv_kept [OF k]] assms(1) by (simp add: sched_cleanup_def kernel_inv_def)
  moreover have "only_running (processes ?m2) c" for c using none by (auto simp: only_running_def)
  moreover have "next_pid ?m2 = next_pid m" by (simp add: sched_cleanup_def)
  ultimately show ?thesis using schedule_next_inv [of ?m2] by auto
qed

lemma fault_inv:
  assumes "kernel_inv m" and "find_process (current_pid m) (processes m) = Some p" and "proc_name p \<noteq> ''idle''"
    and "tramp \<noteq> None"
  shows "\<exists>m'. user_fault tramp m = Some m' \<and> kernel_inv m'"
proof -
  let ?m1 = "m\<lparr>processes := update_process (current_pid m) (snd (set_faulted p)) (processes m)\<rparr>"
  have w: "snd (with_process (current_pid m) set_faulted m) = ?m1"
    using assms(2) by (simp add: with_process_def split: prod.split)
  obtain old new m3 where "schedule_next (sched_cleanup ?m1) = Some ((Some old, new), m3)" "kernel_inv m3"
    "current_pid m3 = new"
    using fault_schedules [OF assms(1-3)] by blast
  then show ?thesis using assms(4) w kernel_inv_current [OF assms(1)] kernel_inv_current [of m3]
    by (auto simp: user_fault_def terminate_and_recover_def exception_recovery_trampoline_def pid_of_def context_switch_inv)
qed


section \<open>Adding a process\<close>

lemma sched_add_fresh:
  assumes "proc_id p \<notin> fst ` set (processes s)"
  shows "sched_add p s = (if MAX_PROCESSES \<le> length (processes s) then (Inl TooManyProcesses, s)
    else (Inr (), s\<lparr>processes := processes s @ [(proc_id p, p)]\<rparr>))"
proof -
  have "position (\<lambda>(i, _). i = proc_id p) (processes s) = None"
    using assms by (force simp: position_None)
  then show ?thesis by (simp add: sched_add_def)
qed

lemma sched_add_inv:
  assumes "kernel_inv s" and "proc_id p \<notin> fst ` set (processes s)" and "proc_id p \<noteq> 0"
    and "proc_id p < next_pid s" and "pstate p = Ready"
  shows "kernel_inv (snd (sched_add p s))"
  using assms unfolding sched_add_fresh [OF assms(2)]
  by (auto simp: kernel_inv_def list_inv_def only_running_def nth_append)

lemma free_core [simp]: "core (free_stacks bs m) = core m" "core (free_page_table f m) = core m"
  by (simp_all add: core_def free_stacks_def free_page_table_def split: option.split)

lemma allocate_pid_inv:
  assumes "kernel_inv m" and "next_pid m \<noteq> - 1"
  shows "kernel_inv (snd (allocate_pid m))" and "next_pid m \<notin> fst ` set (processes m)" and "next_pid m \<noteq> 0"
    and "next_pid m < next_pid m + 1"
proof -
  show lt: "next_pid m < next_pid m + 1"
    using unatSuc [of "next_pid m"] assms(2) by (simp add: word_less_nat_alt eq_neg_iff_add_eq_0 add.commute)
  show "kernel_inv (snd (allocate_pid m))"
    using assms(1) lt by (auto simp: kernel_inv_def allocate_pid_def list_inv_def)
  show "next_pid m \<notin> fst ` set (processes m)" "next_pid m \<noteq> 0"
    using assms(1) by (auto simp: kernel_inv_def list_inv_def)
qed

end
