(* ===== verification/Kernel_Ipc.thy ===== *)
theory Kernel_Ipc
  imports Kernel_Life Petroleum_UserMem
begin

text \<open>
  The system calls on kernel objects (\<open>syscall/event.rs\<close>, \<open>ipc.rs\<close>, \<open>cap.rs\<close>, \<open>thread.rs\<close> and the waiting
  calls of \<open>syscall/process.rs\<close>). A call that may block is two definitions: the part up to
  \<open>block_current\<close>, whose result is \<open>Done\<close> or \<open>Suspended\<close>, and the part that runs when the process is
  current again. A call works on the address space that is loaded; \<open>system_queue\<close> of the kernel's event
  context is \<open>None\<close> before that context exists. Objects that no handle refers to any more stay in
  the stores; a reference without an object, which does not occur, is answered like a bad handle.
\<close>

section \<open>The handle table of the running process\<close>

definition with_current_handle_table ::
    "(HandleTable \<Rightarrow> (SyscallError + 'r) \<times> HandleTable) \<Rightarrow> Machine \<Rightarrow> (SyscallError + 'r) \<times> Machine" where
  "with_current_handle_table f m = (case pid_of m of
     None \<Rightarrow> (Inl NoSuchProcess, m)
   | Some pid \<Rightarrow>
       (case with_process pid (\<lambda>p. case f (handle_table (resources p)) of
              (r, ht) \<Rightarrow> (r, p\<lparr>resources := (resources p)\<lparr>handle_table := ht\<rparr>\<rparr>)) m of
          (None, m1) \<Rightarrow> (Inl NoSuchProcess, m1)
        | (Some r, m1) \<Rightarrow> (r, m1)))"

definition alloc_handle :: "KernelObject \<Rightarrow> Machine \<Rightarrow> (SyscallError + u64) \<times> Machine" where
  "alloc_handle obj m =
     with_current_handle_table (\<lambda>ht. case ht_alloc (secret m) obj ht of (h, ht') \<Rightarrow> (Inr h, ht')) m"

text \<open>The callers of \<open>with_handle_mut\<close> change the shared object behind the handle, not the handle's entry.\<close>

definition with_handle_mut ::
    "Handle \<Rightarrow> (KernelObject \<Rightarrow> Machine \<Rightarrow> (SyscallError + 'r) \<times> Machine) \<Rightarrow> Machine \<Rightarrow> (SyscallError + 'r) \<times> Machine" where
  "with_handle_mut h f m = (case pid_of m of
     None \<Rightarrow> (Inl NoSuchProcess, m)
   | Some pid \<Rightarrow> (case find_process pid (processes m) of
       None \<Rightarrow> (Inl NoSuchProcess, m)
     | Some p \<Rightarrow> (case ht_get (secret m) (handle_table (resources p)) h of
         Some obj \<Rightarrow> f obj m
       | None \<Rightarrow> (Inl BadHandle, m))))"

definition check_handle_permission :: "Handle \<Rightarrow> u8 \<Rightarrow> Machine \<Rightarrow> SyscallError + unit" where
  "check_handle_permission h required m =
     fst (with_current_handle_table (\<lambda>ht.
       (if \<not> check_perm (secret m) ht h required then Inl SyscallError.PermissionDenied else Inr (), ht)) m)"

text \<open>The macro \<open>map_handle\<close>.\<close>

definition event_of :: "KernelObject \<Rightarrow> SyscallError + nat" where
  "event_of obj = (case obj of Event r \<Rightarrow> Inr r | _ \<Rightarrow> Inl BadHandle)"

definition thread_of :: "KernelObject \<Rightarrow> SyscallError + nat" where
  "thread_of obj = (case obj of Thread r \<Rightarrow> Inr r | _ \<Rightarrow> Inl BadHandle)"

definition channel_of :: "KernelObject \<Rightarrow> SyscallError + nat" where
  "channel_of obj = (case obj of Channel r \<Rightarrow> Inr r | _ \<Rightarrow> Inl BadHandle)"

definition with_ref ::
    "(KernelObject \<Rightarrow> SyscallError + nat) \<Rightarrow> Handle \<Rightarrow> (nat \<Rightarrow> Machine \<Rightarrow> (SyscallError + 'r) \<times> Machine) \<Rightarrow>
     Machine \<Rightarrow> (SyscallError + 'r) \<times> Machine" where
  "with_ref sel h f = with_handle_mut h (\<lambda>obj m. case sel obj of Inl e \<Rightarrow> (Inl e, m) | Inr r \<Rightarrow> f r m)"


section \<open>Events\<close>

datatype SystemEvent = Shutdown | Reboot | Panic | Suspend | Resume

definition MAX_EVENTS :: nat where
  "MAX_EVENTS = 256"

definition push_system :: "SystemEvent \<Rightarrow> SystemEvent list \<Rightarrow> SystemEvent list" where
  "push_system e q = (if MAX_EVENTS \<le> length q then tl q else q) @ [e]"

datatype 'r blocking = Done "SyscallError + 'r" | Suspended

definition syscall_create_event ::
    "u64 \<Rightarrow> Machine \<times> SystemEvent list option \<Rightarrow> (SyscallError + u64) \<times> Machine \<times> SystemEvent list option" where
  "syscall_create_event flags = (\<lambda>(m, q).
     let r = next_ref m;
         e = \<lparr>signaled = False, manual_reset = (flags AND 1 \<noteq> 0), ev_waiters = []\<rparr>
     in case alloc_handle (Event r) (m\<lparr>events := (events m)(r \<mapsto> e), next_ref := r + 1\<rparr>) of
          (Inl er, m1) \<Rightarrow> (Inl er, m1, q)
        | (Inr h, m1) \<Rightarrow> (Inr h, m1, map_option (push_system Resume) q))"

text \<open>A signalled event is taken; an automatic one is reset by that.\<close>

definition take_signal :: "nat \<Rightarrow> Machine \<Rightarrow> bool \<times> Machine" where
  "take_signal r m = (case events m r of
     None \<Rightarrow> (False, m)
   | Some e \<Rightarrow>
       if signaled e
       then (True, if manual_reset e then m else m\<lparr>events := (events m)(r \<mapsto> e\<lparr>signaled := False\<rparr>)\<rparr>)
       else (False, m))"

definition event_add_waiter :: "nat \<Rightarrow> ProcessId \<Rightarrow> Machine \<Rightarrow> Machine" where
  "event_add_waiter r pid m = (case events m r of
     None \<Rightarrow> m
   | Some e \<Rightarrow> m\<lparr>events := (events m)(r \<mapsto> e\<lparr>ev_waiters := ev_waiters e @ [pid]\<rparr>)\<rparr>)"

definition wait_event_resume :: "Handle \<Rightarrow> Machine \<Rightarrow> (SyscallError + u64) \<times> Machine" where
  "wait_event_resume h = with_ref event_of h (\<lambda>r m.
     case take_signal r m of
       (True, m1) \<Rightarrow> (Inr 0, m1)
     | (False, m1) \<Rightarrow> (case pid_of m1 of
         None \<Rightarrow> (Inl NoSuchProcess, m1)
       | Some pid \<Rightarrow> (case events m1 r of
           None \<Rightarrow> (Inl BadHandle, m1)
         | Some e \<Rightarrow>
             if pid \<notin> set (ev_waiters e) then (Inr 0, m1)
             else (Inl TimedOut, m1\<lparr>events := (events m1)(r \<mapsto> e\<lparr>ev_waiters := filter (\<lambda>p. p \<noteq> pid) (ev_waiters e)\<rparr>)\<rparr>))))"

definition syscall_wait_event :: "Handle \<Rightarrow> u64 \<Rightarrow> Machine \<Rightarrow> (u64 blocking \<times> Machine) option" where
  "syscall_wait_event h timeout_us m = (case check_handle_permission h PERM_READ m of
     Inl e \<Rightarrow> Some (Done (Inl e), m)
   | Inr _ \<Rightarrow>
       (case with_ref event_of h (\<lambda>r m. case take_signal r m of (b, m') \<Rightarrow> (Inr b, m')) m of
          (Inl e, m1) \<Rightarrow> Some (Done (Inl e), m1)
        | (Inr already_signaled, m1) \<Rightarrow>
            if already_signaled then Some (Done (Inr 0), m1)
            else if timeout_us = 0 then Some (Done (Inl WouldBlock), m1)
            else (case pid_of m1 of
              None \<Rightarrow> Some (Done (Inl NoSuchProcess), m1)
            | Some pid \<Rightarrow>
                (case with_ref event_of h (\<lambda>r m. case take_signal r m of
                       (True, m') \<Rightarrow> (Inr False, m')
                     | (False, m') \<Rightarrow> (Inr True, event_add_waiter r pid m')) m1 of
                   (Inl e, m2) \<Rightarrow> Some (Done (Inl e), m2)
                 | (Inr should_block, m2) \<Rightarrow>
                     if should_block then map_option (\<lambda>m3. (Suspended, m3)) (block_current m2)
                     else (case wait_event_resume h m2 of (res, m3) \<Rightarrow> Some (Done res, m3))))))"

definition signal_inner :: "nat \<Rightarrow> Machine \<Rightarrow> ProcessId list \<times> Machine" where
  "signal_inner r m = (case events m r of
     None \<Rightarrow> ([], m)
   | Some e \<Rightarrow>
       let ws = ev_waiters e;
           (out, rest) = (if manual_reset e then (ws, []) else if ws = [] then ([], []) else ([last ws], butlast ws))
       in (out, m\<lparr>events := (events m)(r \<mapsto> e\<lparr>signaled := True, ev_waiters := rest\<rparr>)\<rparr>))"

definition syscall_signal_event ::
    "Handle \<Rightarrow> Machine \<times> SystemEvent list option \<Rightarrow> (SyscallError + u64) \<times> Machine \<times> SystemEvent list option" where
  "syscall_signal_event h = (\<lambda>(m, q). case check_handle_permission h PERM_SIGNAL m of
     Inl e \<Rightarrow> (Inl e, m, q)
   | Inr _ \<Rightarrow>
       (case with_ref event_of h (\<lambda>r m. case signal_inner r m of (ws, m') \<Rightarrow> (Inr ws, m')) m of
          (Inl e, m1) \<Rightarrow> (Inl e, m1, q)
        | (Inr pids, m1) \<Rightarrow> (Inr 0, fold unblock_process pids m1, map_option (push_system Resume) q)))"

definition MAX_SUBSCRIPTIONS :: nat where
  "MAX_SUBSCRIPTIONS = 64"

definition subscribe :: "u64 \<Rightarrow> u64 \<Rightarrow> u64 \<Rightarrow> Process \<Rightarrow> (SyscallError + unit) \<times> Process" where
  "subscribe key event_type event_handle p =
     (let res = resources p;
          subs = filter (\<lambda>(_, h). ht_get key (handle_table res) h \<noteq> None) (subscriptions res);
          put = (\<lambda>s. p\<lparr>resources := res\<lparr>subscriptions := s\<rparr>\<rparr>)
      in if (event_type, event_handle) \<in> set subs then (Inr (), put subs)
         else if MAX_SUBSCRIPTIONS \<le> length subs then (Inl SyscallError.OutOfMemory, put subs)
         else (Inr (), put (subs @ [(event_type, event_handle)])))"

definition syscall_subscribe_event :: "u64 \<Rightarrow> u64 \<Rightarrow> Machine \<Rightarrow> (SyscallError + u64) \<times> Machine" where
  "syscall_subscribe_event event_type event_handle m =
     (case with_ref event_of event_handle (\<lambda>r m. (Inr (), m)) m of
        (Inl e, m1) \<Rightarrow> (Inl e, m1)
      | (Inr _, m1) \<Rightarrow> (case pid_of m1 of
          None \<Rightarrow> (Inl NoSuchProcess, m1)
        | Some pid \<Rightarrow> (case with_process pid (subscribe (secret m1) event_type event_handle) m1 of
            (None, m2) \<Rightarrow> (Inl NoSuchProcess, m2)
          | (Some (Inl e), m2) \<Rightarrow> (Inl e, m2)
          | (Some (Inr _), m2) \<Rightarrow> (Inr 0, m2))))"


section \<open>Handles\<close>

definition syscall_handle_revoke :: "Handle \<Rightarrow> Machine \<Rightarrow> (SyscallError + u64) \<times> Machine" where
  "syscall_handle_revoke h m =
     with_current_handle_table (\<lambda>ht. case ht_remove (secret m) h ht of
         (None, ht') \<Rightarrow> (Inl BadHandle, ht')
       | (Some _, ht') \<Rightarrow> (Inr 0, ht')) m"

definition syscall_handle_transfer :: "u64 \<Rightarrow> Handle \<Rightarrow> Machine \<Rightarrow> (SyscallError + u64) \<times> Machine" where
  "syscall_handle_transfer target_pid h m = (case check_handle_permission h PERM_TRANSFER m of
     Inl e \<Rightarrow> (Inl e, m)
   | Inr _ \<Rightarrow>
       if find_process target_pid (processes m) = None then (Inl NoSuchProcess, m)
       else (case with_current_handle_table (\<lambda>ht. case ht_remove (secret m) h ht of
                  (None, ht') \<Rightarrow> (Inl BadHandle, ht')
                | (Some obj, ht') \<Rightarrow> (Inr obj, ht')) m of
          (Inl e, m1) \<Rightarrow> (Inl e, m1)
        | (Inr obj, m1) \<Rightarrow>
            (case with_process target_pid (\<lambda>p. case ht_alloc (secret m) obj (handle_table (resources p)) of
                   (h', ht) \<Rightarrow> (h', p\<lparr>resources := (resources p)\<lparr>handle_table := ht\<rparr>\<rparr>)) m1 of
               (Some new_h, m2) \<Rightarrow> (Inr new_h, m2)
             | (None, m2) \<Rightarrow> (Inl NoSuchProcess, snd (alloc_handle obj m2)))))"

definition duplicate_object :: "KernelObject \<Rightarrow> SyscallError + KernelObject" where
  "duplicate_object obj = (case obj of
     Event r \<Rightarrow> Inr (Event r)
   | Thread r \<Rightarrow> Inr (Thread r)
   | Channel r \<Rightarrow> Inr (Channel r)
   | Window w pid \<Rightarrow> Inr (Window w pid)
   | Pipe r rd \<Rightarrow> Inr (Pipe r rd)
   | _ \<Rightarrow> Inl SyscallError.NotSupported)"

definition syscall_handle_duplicate :: "Handle \<Rightarrow> Machine \<Rightarrow> (SyscallError + u64) \<times> Machine" where
  "syscall_handle_duplicate h m = (case check_handle_permission h PERM_DUPLICATE m of
     Inl e \<Rightarrow> (Inl e, m)
   | Inr _ \<Rightarrow>
       (case with_current_handle_table (\<lambda>ht. (case ht_get (secret m) ht h of
                None \<Rightarrow> Inl BadHandle
              | Some obj \<Rightarrow> duplicate_object obj, ht)) m of
          (Inl e, m1) \<Rightarrow> (Inl e, m1)
        | (Inr obj, m1) \<Rightarrow> alloc_handle obj m1))"


section \<open>Channels and pipes\<close>

definition syscall_channel_create :: "u64 \<Rightarrow> Machine \<Rightarrow> (SyscallError + u64) \<times> Machine" where
  "syscall_channel_create flags m =
     (let r = next_ref m; c = \<lparr>messages = [], ch_waiters = [], max_messages = 64\<rparr>
      in alloc_handle (Channel r) (m\<lparr>channels := (channels m)(r \<mapsto> c), next_ref := r + 1\<rparr>))"

definition channel_push :: "bytes \<Rightarrow> nat \<Rightarrow> Machine \<Rightarrow> (SyscallError + ProcessId list) \<times> Machine" where
  "channel_push msg r m = (case channels m r of
     None \<Rightarrow> (Inl BadHandle, m)
   | Some c \<Rightarrow>
       if max_messages c \<le> length (messages c) then (Inl Again, m)
       else (Inr (ch_waiters c), m\<lparr>channels := (channels m)(r \<mapsto> c\<lparr>messages := messages c @ [msg], ch_waiters := []\<rparr>)\<rparr>))"

definition syscall_channel_send ::
    "(u64 \<Rightarrow> bool) \<Rightarrow> Handle \<Rightarrow> u64 \<Rightarrow> u64 \<Rightarrow> UserSpace \<Rightarrow> Machine \<Rightarrow> (SyscallError + u64) \<times> Machine" where
  "syscall_channel_send virt_ok h data_ptr data_size sp m = (case check_handle_permission h PERM_WRITE m of
     Inl e \<Rightarrow> (Inl e, m)
   | Inr _ \<Rightarrow>
       let len = unat data_size in
       if len = 0 \<or> len > 65536 then (Inl InvalidArgument, m)
       else (case user_slice_new virt_ok sp data_ptr len False of
         Inl _ \<Rightarrow> (Inl InvalidArgument, m)
       | Inr sl \<Rightarrow>
           let msg = us_copy_from_user sp sl (replicate len 0) in
           (case with_ref channel_of h (channel_push msg) m of
              (Inl e, m1) \<Rightarrow> (Inl e, m1)
            | (Inr ws, m1) \<Rightarrow> (Inr data_size, fold unblock_process ws m1))))"

definition channel_pop :: "nat \<Rightarrow> Machine \<Rightarrow> (SyscallError + bytes option) \<times> Machine" where
  "channel_pop r m = (case channels m r of
     None \<Rightarrow> (Inl BadHandle, m)
   | Some c \<Rightarrow> (case messages c of
       [] \<Rightarrow> (Inr None, m)
     | msg # rest \<Rightarrow> (Inr (Some msg), m\<lparr>channels := (channels m)(r \<mapsto> c\<lparr>messages := rest\<rparr>)\<rparr>)))"

definition syscall_channel_recv ::
    "(u64 \<Rightarrow> bool) \<Rightarrow> Handle \<Rightarrow> u64 \<Rightarrow> u64 \<Rightarrow> UserSpace \<times> Machine \<Rightarrow> (SyscallError + u64) \<times> UserSpace \<times> Machine" where
  "syscall_channel_recv virt_ok h buf buf_size = (\<lambda>(sp, m). case check_handle_permission h PERM_READ m of
     Inl e \<Rightarrow> (Inl e, sp, m)
   | Inr _ \<Rightarrow>
       let max_len = unat buf_size in
       if buf = 0 \<or> max_len = 0 \<or> max_len > 65536 then (Inl InvalidArgument, sp, m)
       else (case validate_user_buffer virt_ok buf max_len False of
         Inl e \<Rightarrow> (Inl (from_system_error e), sp, m)
       | Inr _ \<Rightarrow> (case user_slice_new virt_ok sp buf max_len True of
           Inl _ \<Rightarrow> (Inl InvalidArgument, sp, m)
         | Inr sl \<Rightarrow> (case with_ref channel_of h channel_pop m of
             (Inl e, m1) \<Rightarrow> (Inl e, sp, m1)
           | (Inr None, m1) \<Rightarrow> (Inl WouldBlock, sp, m1)
           | (Inr (Some msg), m1) \<Rightarrow>
               let copy_len = min (length msg) max_len;
                   kernel_buf = take copy_len msg @ replicate (max_len - copy_len) 0
               in (Inr (of_nat copy_len), us_copy_to_user sl kernel_buf sp, m1)))))"

text \<open>\<open>copy_to_user\<close> never fails; the path that would revoke both handles after it is dead.\<close>

definition syscall_pipe_create ::
    "(u64 \<Rightarrow> bool) \<Rightarrow> u64 \<Rightarrow> UserSpace \<times> Machine \<Rightarrow> (SyscallError + u64) \<times> UserSpace \<times> Machine" where
  "syscall_pipe_create virt_ok buf = (\<lambda>(sp, m).
     if buf = 0 then (Inl InvalidArgument, sp, m)
     else (case validate_user_buffer virt_ok buf 16 False of
       Inl e \<Rightarrow> (Inl (from_system_error e), sp, m)
     | Inr _ \<Rightarrow>
         let r = next_ref m; m0 = m\<lparr>pipes := (pipes m)(r \<mapsto> []), next_ref := r + 1\<rparr> in
         (case alloc_handle (Pipe r True) m0 of
            (Inl e, m1) \<Rightarrow> (Inl e, sp, m1)
          | (Inr read_h, m1) \<Rightarrow> (case alloc_handle (Pipe r False) m1 of
              (Inl e, m2) \<Rightarrow> (Inl e, sp, snd (syscall_handle_revoke read_h m2))
            | (Inr write_h, m2) \<Rightarrow> (case user_slice_new virt_ok sp buf 16 True of
                Inl _ \<Rightarrow> (Inl InvalidArgument, sp, m2)
              | Inr sl \<Rightarrow> (Inr 0, us_copy_to_user sl (to_le 8 (unat read_h) @ to_le 8 (unat write_h)) sp, m2))))))"


section \<open>Threads\<close>

text \<open>\<open>kernel_stack_ptr\<close> is the answer of the allocator of kernel stacks.\<close>

definition thread_process :: "ProcessId \<Rightarrow> ProcessId \<Rightarrow> Process \<Rightarrow> u64 \<Rightarrow> u64 \<Rightarrow> u64 \<Rightarrow> Process" where
  "thread_process pid cur pa entry stack kernel_stack_ptr =
     (let c = pcontext pa in
      \<lparr>proc_id = pid, proc_name = ''thread'', pstate = Ready,
       pcontext = c\<lparr>regs := (regs c)[0 := 0, 7 := stack], rip := entry\<rparr>,
       page_table_phys_addr = page_table_phys_addr pa, page_table = None,
       kernel_stack = kernel_stack_ptr + of_nat KERNEL_STACK_SIZE, user_stack = stack, entry_point = entry,
       is_user = True, exit_code = None, parent_id = Some cur, task_data = 0, vdso_page = None,
       resources = resources_new\<rparr>)"

definition remove_process :: "ProcessId \<Rightarrow> 'a SchedulerContext_scheme \<Rightarrow> 'a SchedulerContext_scheme" where
  "remove_process pid s = (case position (\<lambda>(i, _). i = pid) (processes s) of
     Some pos \<Rightarrow> s\<lparr>processes := swap_remove pos (processes s)\<rparr>
   | None \<Rightarrow> s)"

definition syscall_create_thread ::
    "(u64 \<Rightarrow> bool) \<Rightarrow> u64 option \<Rightarrow> u64 \<Rightarrow> u64 \<Rightarrow> Machine \<Rightarrow> (SyscallError + u64) \<times> Machine" where
  "syscall_create_thread virt_ok kernel_stack_ptr entry stack m =
     (if \<not> virt_ok entry \<or> \<not> virt_ok stack then (Inl InvalidArgument, m)
      else if \<not> is_user_address entry then (Inl InvalidArgument, m)
      else if \<not> is_user_address stack then (Inl InvalidArgument, m)
      else (case pid_of m of
        None \<Rightarrow> (Inl NoSuchProcess, m)
      | Some cur \<Rightarrow> (case find_process cur (processes m) of
          None \<Rightarrow> (Inl NoSuchProcess, m)
        | Some pa \<Rightarrow> (case kernel_stack_ptr of
            None \<Rightarrow> (Inl SyscallError.OutOfMemory, m)
          | Some ks \<Rightarrow>
              let (pid, m1) = allocate_pid m in
              (case sched_add (thread_process pid cur pa entry stack ks) m1 of
                 (Inl _, m2) \<Rightarrow> (Inl SyscallError.OutOfMemory, free_stacks [ks] m2)
               | (Inr _, m2) \<Rightarrow>
                   let r = next_ref m2;
                       t = \<lparr>th_pid = pid, detached = False, th_exit_code = None, th_waiters = []\<rparr>
                   in (case alloc_handle (Thread r) (m2\<lparr>threads := (threads m2)(r \<mapsto> t), next_ref := r + 1\<rparr>) of
                         (Inr h, m3) \<Rightarrow> (Inr h, m3)
                       | (Inl e, m3) \<Rightarrow> (Inl e, free_stacks [ks] (remove_process pid m3))))))))"

text \<open>The exit code is sign-extended from 32 bits by the conversion to \<open>u64\<close>.\<close>

definition syscall_join_thread :: "Handle \<Rightarrow> Machine \<Rightarrow> (u64 blocking \<times> Machine) option" where
  "syscall_join_thread h m =
     (case with_ref thread_of h (\<lambda>r m. case threads m r of
            None \<Rightarrow> (Inl BadHandle, m)
          | Some t \<Rightarrow> (case th_exit_code t of
              Some code \<Rightarrow> (Inr (Some code), m)
            | None \<Rightarrow> (case pid_of m of
                None \<Rightarrow> (Inl NoSuchProcess, m)
              | Some pid \<Rightarrow> (Inr None, m\<lparr>threads := (threads m)(r \<mapsto> t\<lparr>th_waiters := th_waiters t @ [pid]\<rparr>)\<rparr>)))) m of
        (Inl e, m1) \<Rightarrow> Some (Done (Inl e), m1)
      | (Inr (Some code), m1) \<Rightarrow> Some (Done (Inr (scast code)), m1)
      | (Inr None, m1) \<Rightarrow> map_option (\<lambda>m2. (Suspended, m2)) (block_current m1))"

definition join_thread_resume :: "Handle \<Rightarrow> Machine \<Rightarrow> (SyscallError + u64) \<times> Machine" where
  "join_thread_resume h = with_ref thread_of h (\<lambda>r m. case threads m r of
     None \<Rightarrow> (Inl BadHandle, m)
   | Some t \<Rightarrow> (case th_exit_code t of
       Some code \<Rightarrow> (Inr (scast code), m)
     | None \<Rightarrow> (Inl NoSuchProcess, m)))"

definition syscall_detach_thread :: "Handle \<Rightarrow> Machine \<Rightarrow> (SyscallError + u64) \<times> Machine" where
  "syscall_detach_thread h = with_ref thread_of h (\<lambda>r m. case threads m r of
     None \<Rightarrow> (Inl BadHandle, m)
   | Some t \<Rightarrow> (Inr 0, m\<lparr>threads := (threads m)(r \<mapsto> t\<lparr>detached := True\<rparr>)\<rparr>))"

fun finish_threads :: "ProcessId \<Rightarrow> u32 \<Rightarrow> KernelObject list \<Rightarrow> Machine \<Rightarrow> ProcessId list \<times> Machine" where
  "finish_threads pid code [] m = ([], m)"
| "finish_threads pid code (obj # objs) m =
     (let (ws, m1) = (case obj of
        Thread r \<Rightarrow> (case threads m r of
            Some t \<Rightarrow> if th_pid t = pid
              then (th_waiters t, m\<lparr>threads := (threads m)(r \<mapsto> t\<lparr>th_exit_code := Some code, th_waiters := []\<rparr>)\<rparr>)
              else ([], m)
          | None \<Rightarrow> ([], m))
      | _ \<Rightarrow> ([], m));
          (ws', m2) = finish_threads pid code objs m1
      in (ws @ ws', m2))"

definition syscall_exit_thread :: "u32 \<Rightarrow> Machine \<Rightarrow> ((SyscallError + u64) \<times> Machine) option" where
  "syscall_exit_thread code m = (case pid_of m of
     None \<Rightarrow> Some (Inl NoSuchProcess, m)
   | Some pid \<Rightarrow>
       let objs = concat (map (\<lambda>(_, p). ht_objects (handle_table (resources p))) (processes m));
           (ws, m1) = finish_threads pid code objs m
       in map_option (\<lambda>m2. (Inr 0, m2)) (terminate_process pid code (fold unblock_process ws m1)))"


section \<open>Processes\<close>

definition syscall_exit :: "u32 \<Rightarrow> Machine \<Rightarrow> ((SyscallError + u64) \<times> Machine) option" where
  "syscall_exit code m = (case pid_of m of
     None \<Rightarrow> Some (Inl NoSuchProcess, m)
   | Some pid \<Rightarrow> map_option (\<lambda>m1. (Inr 0, m1)) (terminate_process pid code m))"

definition syscall_yield :: "Machine \<Rightarrow> ((SyscallError + u64) \<times> Machine) option" where
  "syscall_yield m = (case yield_current m of Some (Some m1) \<Rightarrow> Some (Inr 0, m1) | _ \<Rightarrow> None)"

text \<open>One round of the loop: a process that is woken up runs the call again.\<close>

definition syscall_wait :: "u64 \<Rightarrow> Machine \<Rightarrow> (u64 blocking \<times> Machine) option" where
  "syscall_wait pid m =
     (if pid = 0 then (case yield_current m of Some (Some m1) \<Rightarrow> Some (Done (Inr 0), m1) | _ \<Rightarrow> None)
      else (case find_process pid (processes m) of
        None \<Rightarrow> Some (Done (Inl NoSuchProcess), m)
      | Some p \<Rightarrow>
          if pstate p = Terminated
          then Some (Done (Inr (scast (case exit_code p of None \<Rightarrow> 0 | Some c \<Rightarrow> c))), m)
          else map_option (\<lambda>m1. (Suspended, m1)) (block_current m)))"

definition syscall_getpid :: "Machine \<Rightarrow> SyscallError + u64" where
  "syscall_getpid m = Inr (case pid_of m of None \<Rightarrow> 0 | Some pid \<Rightarrow> pid)"

definition syscall_get_process_name ::
    "(u64 \<Rightarrow> bool) \<Rightarrow> u64 \<Rightarrow> nat \<Rightarrow> Machine \<Rightarrow> UserSpace \<Rightarrow> (SyscallError + u64) \<times> UserSpace" where
  "syscall_get_process_name virt_ok buffer len m sp =
     (if len = 0 then (Inl InvalidArgument, sp)
      else (case validate_user_buffer virt_ok buffer len False of
        Inl e \<Rightarrow> (Inl (from_system_error e), sp)
      | Inr _ \<Rightarrow> (case pid_of m of
          None \<Rightarrow> (Inl NoSuchProcess, sp)
        | Some pid \<Rightarrow> (case find_process pid (processes m) of
            None \<Rightarrow> (Inl NoSuchProcess, sp)
          | Some p \<Rightarrow>
              let name = map of_char (proc_name p);
                  copy_len = min (length name) (len - 1);
                  kernel_buf = take copy_len name @ [0]
              in (case user_slice_new virt_ok sp buffer (copy_len + 1) True of
                    Inl _ \<Rightarrow> (Inl InvalidArgument, sp)
                  | Inr sl \<Rightarrow> (Inr (of_nat copy_len), us_copy_to_user sl kernel_buf sp))))))"


section \<open>The calls keep the invariant\<close>

text \<open>A quiet change touches neither who runs nor which processes there are.\<close>

definition quiet :: "Machine \<Rightarrow> Machine \<Rightarrow> bool" where
  "quiet m m' \<longleftrightarrow> roles_kept (processes m) (processes m') \<and> next_pid m' = next_pid m \<and>
     schedule_index m' = schedule_index m \<and> current_pid m' = current_pid m"

lemma quiet_refl [simp]: "quiet m m"
  by (simp add: quiet_def)

lemma quiet_trans: "quiet m m1 \<Longrightarrow> quiet m1 m2 \<Longrightarrow> quiet m m2"
  by (auto simp: quiet_def intro: roles_kept_trans)

lemma quiet_stores [simp]:
  "quiet m (m'\<lparr>events := ev\<rparr>) = quiet m m'" "quiet m (m'\<lparr>threads := th\<rparr>) = quiet m m'"
  "quiet m (m'\<lparr>channels := ch\<rparr>) = quiet m m'" "quiet m (m'\<lparr>pipes := pi\<rparr>) = quiet m m'"
  "quiet m (m'\<lparr>next_ref := r\<rparr>) = quiet m m'"
  by (simp_all add: quiet_def)

lemma quiet_stores_left [simp]: "quiet (m\<lparr>threads := th\<rparr>) m' = quiet m m'"
  by (simp add: quiet_def)

lemma quiet_inv: "kernel_inv m \<Longrightarrow> quiet m m' \<Longrightarrow> kernel_inv m'"
  by (rule kernel_inv_kept [of m]) (simp_all add: quiet_def)

lemma quiet_with_process: "(\<And>p. same_role p (snd (f p))) \<Longrightarrow> quiet m (snd (with_process pid f m))"
  by (simp add: quiet_def roles_kept_with_process)

lemma quiet_unblock: "quiet m (fold unblock_process ws m)"
proof (induction ws arbitrary: m)
  case (Cons w ws)
  have "quiet m (unblock_process w m)" by (simp add: quiet_def unblock_kept)
  then show ?case using quiet_trans [OF _ Cons.IH] by simp
qed simp

lemma quiet_table: "with_current_handle_table f m = (r, m') \<Longrightarrow> quiet m m'"
  using quiet_with_process [of "\<lambda>p. case f (handle_table (resources p)) of
      (r, ht) \<Rightarrow> (r, p\<lparr>resources := (resources p)\<lparr>handle_table := ht\<rparr>\<rparr>)" m "current_pid m"]
  by (auto simp: with_current_handle_table_def pid_of_def same_role_def split: option.splits prod.splits if_splits)

lemma quiet_alloc: "alloc_handle obj m1 = (r, m') \<Longrightarrow> quiet m m1 \<Longrightarrow> quiet m m'"
  unfolding alloc_handle_def by (drule quiet_table) (rule quiet_trans)

lemma quiet_ref:
  assumes "with_ref sel h f m = (r, m')" and "\<And>x. quiet m (snd (f x m))"
  shows "quiet m m'"
  using assms(1) assms(2)
  by (auto simp: with_ref_def with_handle_mut_def split: option.splits sum.splits) (metis snd_conv)

lemma quiet_take_signal: "quiet m (snd (take_signal r m))"
  by (simp add: take_signal_def split: option.split)

lemma quiet_event_calls:
  "syscall_create_event flags (m, q) = (res, m', q') \<Longrightarrow> quiet m m'"
  "syscall_signal_event h (m, q) = (res, m', q') \<Longrightarrow> quiet m m'"
  "wait_event_resume h m = (res, m') \<Longrightarrow> quiet m m'"
proof -
  assume "syscall_create_event flags (m, q) = (res, m', q')"
  then show "quiet m m'"
    by (auto simp: syscall_create_event_def Let_def split: prod.splits sum.splits elim!: quiet_alloc)
next
  assume c: "syscall_signal_event h (m, q) = (res, m', q')"
  let ?f = "\<lambda>r m. case signal_inner r m of (ws, m') \<Rightarrow> (Inr ws :: SyscallError + ProcessId list, m')"
  obtain res1 m1 where w: "with_ref event_of h ?f m = (res1, m1)" by fastforce
  have "quiet m (snd (?f r m))" for r
    by (simp add: signal_inner_def Let_def split: option.split prod.split)
  then have "quiet m m1" by (rule quiet_ref [OF w])
  then have "quiet m (fold unblock_process ws m1)" for ws using quiet_unblock quiet_trans by blast
  with c w \<open>quiet m m1\<close> show "quiet m m'" by (auto simp: syscall_signal_event_def split: sum.splits)
next
  assume "wait_event_resume h m = (res, m')"
  then show "quiet m m'" unfolding wait_event_resume_def
  proof (rule quiet_ref)
    fix r
    show "quiet m (snd (case take_signal r m of
       (True, m1) \<Rightarrow> (Inr 0, m1)
     | (False, m1) \<Rightarrow> (case pid_of m1 of
         None \<Rightarrow> (Inl NoSuchProcess, m1)
       | Some pid \<Rightarrow> (case events m1 r of
           None \<Rightarrow> (Inl BadHandle, m1)
         | Some e \<Rightarrow>
             if pid \<notin> set (ev_waiters e) then (Inr 0, m1)
             else (Inl TimedOut, m1\<lparr>events := (events m1)(r \<mapsto> e\<lparr>ev_waiters := filter (\<lambda>p. p \<noteq> pid) (ev_waiters e)\<rparr>)\<rparr>)))))"
      using quiet_take_signal [of m r] by (auto split: prod.split bool.split option.split)
  qed
qed

lemma wait_event_inv:
  assumes "kernel_inv m"
  shows "\<exists>res m'. syscall_wait_event h t m = Some (res, m') \<and> kernel_inv m'"
proof -
  let ?f = "\<lambda>r m. case take_signal r m of (b, m') \<Rightarrow> (Inr b :: SyscallError + bool, m')"
  let ?g = "\<lambda>pid r m. case take_signal r m of
      (True, m') \<Rightarrow> (Inr False :: SyscallError + bool, m') | (False, m') \<Rightarrow> (Inr True, event_add_waiter r pid m')"
  obtain r1 m1 where w1: "with_ref event_of h ?f m = (r1, m1)" by fastforce
  have "quiet m (snd (?f r m))" for r using quiet_take_signal [of m r] by (auto split: prod.split)
  then have i1: "kernel_inv m1" using quiet_inv [OF assms] quiet_ref [OF w1] by blast
  have i2: "kernel_inv m2" if "with_ref event_of h (?g pid) m1 = (r2, m2)" for pid r2 m2
  proof -
    have "quiet m1 (snd (?g pid r m1))" for r
      using quiet_take_signal [of m1 r] by (auto simp: event_add_waiter_def split: prod.split bool.split option.split)
    then show ?thesis using quiet_inv [OF i1] quiet_ref [OF that] by blast
  qed
  have i3: "kernel_inv m3" if "wait_event_resume h m2 = (r3, m3)" "kernel_inv m2" for r3 m2 m3
    using that quiet_event_calls(3) quiet_inv by blast
  show ?thesis
    using assms i1 i2 i3 block_inv
    by (simp add: syscall_wait_event_def w1 split: sum.split option.split prod.split)
qed

lemma quiet_subscribe: "syscall_subscribe_event ty h m = (res, m') \<Longrightarrow> quiet m m'"
proof -
  assume c: "syscall_subscribe_event ty h m = (res, m')"
  obtain r1 m1 where w: "with_ref event_of h (\<lambda>r m. (Inr () :: SyscallError + unit, m)) m = (r1, m1)" by fastforce
  have q: "quiet m m1" by (rule quiet_ref [OF w]) simp
  have sub: "quiet m1 (snd (with_process pid (subscribe k ty h) m1))" for pid k
    by (rule quiet_with_process) (simp add: subscribe_def same_role_def Let_def)
  have "quiet m m2" if "with_process pid (subscribe k ty h) m1 = (r2, m2)" for pid k r2 m2
    using quiet_trans [OF q, of m2] sub [of pid k] that by simp
  then show ?thesis using c w q
    by (simp add: syscall_subscribe_event_def split: sum.splits option.splits prod.splits)
qed

lemma quiet_revoke: "syscall_handle_revoke h m = (res, m') \<Longrightarrow> quiet m m'"
  unfolding syscall_handle_revoke_def by (rule quiet_table)

lemma quiet_transfer: "syscall_handle_transfer tp h m = (res, m') \<Longrightarrow> quiet m m'"
proof -
  assume c: "syscall_handle_transfer tp h m = (res, m')"
  let ?f = "\<lambda>ht. case ht_remove (secret m) h ht of
      (None, ht') \<Rightarrow> (Inl BadHandle, ht') | (Some obj, ht') \<Rightarrow> (Inr obj :: SyscallError + KernelObject, ht')"
  let ?g = "\<lambda>obj p. case ht_alloc (secret m) obj (handle_table (resources p)) of
      (h', ht) \<Rightarrow> (h', p\<lparr>resources := (resources p)\<lparr>handle_table := ht\<rparr>\<rparr>)"
  obtain r1 m1 where w: "with_current_handle_table ?f m = (r1, m1)" by fastforce
  have q1: "quiet m m1" using w by (rule quiet_table)
  have put: "quiet m1 (snd (with_process tp (?g obj) m1))" for obj
    by (rule quiet_with_process) (simp add: same_role_def split: prod.split)
  have q2: "quiet m m2" if "with_process tp (?g obj) m1 = (r2, m2)" for obj r2 m2
    using quiet_trans [OF q1, of m2] put [of obj] that by simp
  have q3: "quiet m (snd (alloc_handle obj m2))" if "quiet m m2" for obj m2
    using quiet_alloc [OF _ that, of obj "fst (alloc_handle obj m2)"] by simp
  show ?thesis
  proof (cases r1)
    case (Inr obj)
    obtain r2 m2 where w2: "with_process tp (?g obj) m1 = (r2, m2)" by fastforce
    show ?thesis using c w w2 Inr q2 [OF w2] q3 [OF q2 [OF w2]]
      by (auto simp: syscall_handle_transfer_def split: sum.splits option.splits if_splits)
  qed (use c w q1 in \<open>auto simp: syscall_handle_transfer_def split: sum.splits if_splits\<close>)
qed

lemma quiet_duplicate: "syscall_handle_duplicate h m = (res, m') \<Longrightarrow> quiet m m'"
proof -
  assume c: "syscall_handle_duplicate h m = (res, m')"
  let ?f = "\<lambda>ht. (case ht_get (secret m) ht h of None \<Rightarrow> Inl BadHandle | Some obj \<Rightarrow> duplicate_object obj, ht)"
  obtain r1 m1 where w: "with_current_handle_table ?f m = (r1, m1)" by fastforce
  show ?thesis using c w quiet_table [OF w]
    by (auto simp: syscall_handle_duplicate_def split: sum.splits elim!: quiet_alloc)
qed

lemma quiet_channel_calls:
  "syscall_channel_create flags m = (res, m') \<Longrightarrow> quiet m m'"
  "syscall_channel_send v h p n sp m = (res, m') \<Longrightarrow> quiet m m'"
  "syscall_channel_recv v h p n (sp, m) = (res, sp', m') \<Longrightarrow> quiet m m'"
  "syscall_pipe_create v p (sp, m) = (res, sp', m') \<Longrightarrow> quiet m m'"
proof -
  assume "syscall_channel_create flags m = (res, m')"
  then show "quiet m m'" by (auto simp: syscall_channel_create_def Let_def elim!: quiet_alloc)
next
  assume c: "syscall_channel_send v h p n sp m = (res, m')"
  have q: "quiet m m1" if "with_ref channel_of h (channel_push msg) m = (r1, m1)" for msg r1 m1
    using that by (rule quiet_ref) (simp add: channel_push_def split: option.split)
  then have "quiet m (fold unblock_process ws m1)" if "with_ref channel_of h (channel_push msg) m = (r1, m1)"
    for ws msg r1 m1 using that quiet_unblock quiet_trans by blast
  then show "quiet m m'" using c q
    by (auto simp: syscall_channel_send_def Let_def split: sum.splits prod.splits if_splits)
next
  assume c: "syscall_channel_recv v h p n (sp, m) = (res, sp', m')"
  have "quiet m m1" if "with_ref channel_of h channel_pop m = (r1, m1)" for r1 m1
    using that by (rule quiet_ref) (simp add: channel_pop_def split: option.split list.split)
  then show "quiet m m'" using c
    by (auto simp: syscall_channel_recv_def Let_def split: sum.splits prod.splits if_splits option.splits)
next
  assume c: "syscall_pipe_create v p (sp, m) = (res, sp', m')"
  have rv: "quiet m (snd (syscall_handle_revoke rh m2))" if "quiet m m2" for rh m2
    using that quiet_trans quiet_revoke by (metis prod.collapse)
  show "quiet m m'" using c
    by (auto simp: syscall_pipe_create_def Let_def split: sum.splits prod.splits if_splits intro!: rv elim!: quiet_alloc)
qed

lemma kernel_inv_running: "kernel_inv s \<Longrightarrow> \<exists>p. find_process (current_pid s) (processes s) = Some p"
proof -
  assume inv: "kernel_inv s"
  obtain p where "processes s ! schedule_index s = (current_pid s, p)"
    using inv by (cases "processes s ! schedule_index s") (auto simp: kernel_inv_def)
  then have "(current_pid s, p) \<in> set (processes s)" using inv nth_mem by (fastforce simp: kernel_inv_def)
  then show ?thesis using inv find_process_distinct by (auto simp: kernel_inv_def list_inv_def)
qed

lemma alloc_handle_running:
  assumes "kernel_inv m"
  shows "\<exists>h m'. alloc_handle obj m = (Inr h, m')"
  using kernel_inv_running [OF assms] kernel_inv_current [OF assms]
  by (auto simp: alloc_handle_def with_current_handle_table_def pid_of_def with_process_def case_prod_unfold)

lemma create_thread_inv:
  assumes "kernel_inv m" and "next_pid m \<noteq> - 1"
  shows "kernel_inv (snd (syscall_create_thread v ks entry us m))"
proof -
  define m1 where "m1 = m\<lparr>next_pid := next_pid m + 1\<rparr>"
  have m1: "kernel_inv m1" and fresh: "next_pid m \<notin> fst ` set (processes m1)" and nz: "next_pid m \<noteq> 0"
    and lt: "next_pid m < next_pid m1"
    using allocate_pid_inv [OF assms] by (simp_all add: m1_def allocate_pid_def)
  have m2: "kernel_inv m2" if "sched_add (thread_process (next_pid m) cur pa entry us k) m1 = (r, m2)" for cur pa k r m2
    using sched_add_inv [OF m1, of "thread_process (next_pid m) cur pa entry us k"] that fresh nz lt
    by (simp add: thread_process_def Let_def)
  have fr: "kernel_inv (free_stacks bs m2)" if "kernel_inv m2" for bs m2
    using that kernel_inv_core [of "free_stacks bs m2" m2] by simp
  have m3: "\<exists>h m3. alloc_handle (Thread x) (m2\<lparr>threads := t, next_ref := n\<rparr>) = (Inr h, m3) \<and> kernel_inv m3"
    if "kernel_inv m2" for x t n m2
  proof -
    have k: "kernel_inv (m2\<lparr>threads := t, next_ref := n\<rparr>)" by (rule quiet_inv [OF that]) simp
    show ?thesis using alloc_handle_running [OF k, of "Thread x"] quiet_inv [OF k] quiet_alloc [OF _ quiet_refl] by blast
  qed
  show ?thesis
  proof (cases "\<exists>cur pa k. pid_of m = Some cur \<and> find_process cur (processes m) = Some pa \<and> ks = Some k")
    case True
    then obtain cur pa k where eq: "pid_of m = Some cur" "find_process cur (processes m) = Some pa" "ks = Some k" by blast
    obtain r m2' where a: "sched_add (thread_process (next_pid m) cur pa entry us k) m1 = (r, m2')" by fastforce
    let ?t = "\<lparr>th_pid = next_pid m, detached = False, th_exit_code = None, th_waiters = []\<rparr>"
    obtain h m3' where "alloc_handle (Thread (next_ref m2')) (m2'\<lparr>threads := (threads m2')(next_ref m2' \<mapsto> ?t),
        next_ref := next_ref m2' + 1\<rparr>) = (Inr h, m3')" "kernel_inv m3'"
      using m3 [OF m2 [OF a]] by blast
    then show ?thesis using assms(1) fr [OF m2 [OF a]] eq a
      by (simp add: syscall_create_thread_def allocate_pid_def m1_def Let_def split: sum.split)
  next
    case False
    then show ?thesis using assms(1)
      by (auto simp: syscall_create_thread_def split: option.split)
  qed
qed

lemma join_thread_inv:
  assumes "kernel_inv m"
  shows "\<exists>res m'. syscall_join_thread h m = Some (res, m') \<and> kernel_inv m'"
proof -
  let ?f = "\<lambda>r m. case threads m r of
      None \<Rightarrow> (Inl BadHandle, m)
    | Some t \<Rightarrow> (case th_exit_code t of
        Some code \<Rightarrow> (Inr (Some code) :: SyscallError + u32 option, m)
      | None \<Rightarrow> (case pid_of m of
          None \<Rightarrow> (Inl NoSuchProcess, m)
        | Some pid \<Rightarrow> (Inr None, m\<lparr>threads := (threads m)(r \<mapsto> t\<lparr>th_waiters := th_waiters t @ [pid]\<rparr>)\<rparr>)))"
  obtain r1 m1 where w: "with_ref thread_of h ?f m = (r1, m1)" by fastforce
  have "quiet m (snd (?f r m))" for r by (simp split: option.split)
  then have "kernel_inv m1" using quiet_inv [OF assms] quiet_ref [OF w] by blast
  then show ?thesis using block_inv [of m1]
    by (auto simp: syscall_join_thread_def w split: sum.split option.split)
qed

lemma quiet_thread_calls:
  "join_thread_resume h m = (res, m') \<Longrightarrow> quiet m m'"
  "syscall_detach_thread h m = (res, m') \<Longrightarrow> quiet m m'"
  unfolding join_thread_resume_def syscall_detach_thread_def
  by (erule quiet_ref, simp split: option.split)+

lemma quiet_finish_threads: "quiet m (snd (finish_threads pid code objs m))"
proof (induction objs arbitrary: m)
  case (Cons obj objs)
  show ?case
    using Cons.IH [of m] Cons.IH [of "m\<lparr>threads := _\<rparr>"]
    by (simp add: Let_def case_prod_unfold split: KernelObject.split option.split)
qed simp

lemma exit_thread_inv:
  assumes "kernel_inv m"
  shows "\<exists>res m'. syscall_exit_thread code m = Some (res, m') \<and> kernel_inv m'"
proof -
  have "kernel_inv (fold unblock_process ws (snd (finish_threads pid code objs m)))" for ws pid objs
    using assms quiet_inv quiet_finish_threads unblock_fold_inv by blast
  then have "\<exists>m'. terminate_process pid code (fold unblock_process ws (snd (finish_threads pid code objs m))) = Some m' \<and> kernel_inv m'"
    for ws pid objs by (rule terminate_inv)
  then show ?thesis using assms by (simp add: syscall_exit_thread_def Let_def case_prod_unfold split: option.split)
qed

lemma process_calls_inv:
  assumes "kernel_inv m"
  shows "\<exists>res m'. syscall_exit code m = Some (res, m') \<and> kernel_inv m'"
    and "\<exists>res m'. syscall_yield m = Some (res, m') \<and> kernel_inv m'"
    and "\<exists>res m'. syscall_wait pid m = Some (res, m') \<and> kernel_inv m'"
proof -
  show "\<exists>res m'. syscall_exit code m = Some (res, m') \<and> kernel_inv m'"
    using assms terminate_inv [OF assms, of _ code] by (simp add: syscall_exit_def split: option.split)
  show "\<exists>res m'. syscall_yield m = Some (res, m') \<and> kernel_inv m'"
    using yield_inv [OF assms] by (auto simp: syscall_yield_def)
  show "\<exists>res m'. syscall_wait pid m = Some (res, m') \<and> kernel_inv m'"
    using assms yield_inv [OF assms] block_inv [OF assms] by (auto simp: syscall_wait_def split: option.split)
qed


section \<open>System calls as steps\<close>

inductive ipc_step :: "Machine \<Rightarrow> Machine \<Rightarrow> bool" where
  create_event: "syscall_create_event flags (m, q) = (res, m', q') \<Longrightarrow> ipc_step m m'"
| wait_event: "syscall_wait_event h t m = Some (bres, m') \<Longrightarrow> ipc_step m m'"
| wait_event_resume: "wait_event_resume h m = (res, m') \<Longrightarrow> ipc_step m m'"
| signal_event: "syscall_signal_event h (m, q) = (res, m', q') \<Longrightarrow> ipc_step m m'"
| subscribe_event: "syscall_subscribe_event ty h m = (res, m') \<Longrightarrow> ipc_step m m'"
| handle_revoke: "syscall_handle_revoke h m = (res, m') \<Longrightarrow> ipc_step m m'"
| handle_transfer: "syscall_handle_transfer tp h m = (res, m') \<Longrightarrow> ipc_step m m'"
| handle_duplicate: "syscall_handle_duplicate h m = (res, m') \<Longrightarrow> ipc_step m m'"
| channel_create: "syscall_channel_create flags m = (res, m') \<Longrightarrow> ipc_step m m'"
| channel_send: "syscall_channel_send v h p n sp m = (res, m') \<Longrightarrow> ipc_step m m'"
| channel_recv: "syscall_channel_recv v h p n (sp, m) = (res, sp', m') \<Longrightarrow> ipc_step m m'"
| pipe_create: "syscall_pipe_create v p (sp, m) = (res, sp', m') \<Longrightarrow> ipc_step m m'"
| create_thread: "next_pid m \<noteq> - 1 \<Longrightarrow> syscall_create_thread v ks entry us m = (res, m') \<Longrightarrow> ipc_step m m'"
| join_thread: "syscall_join_thread h m = Some (bres, m') \<Longrightarrow> ipc_step m m'"
| join_thread_resume: "join_thread_resume h m = (res, m') \<Longrightarrow> ipc_step m m'"
| detach_thread: "syscall_detach_thread h m = (res, m') \<Longrightarrow> ipc_step m m'"
| exit_thread: "syscall_exit_thread code m = Some (res, m') \<Longrightarrow> ipc_step m m'"
| exit: "syscall_exit code m = Some (res, m') \<Longrightarrow> ipc_step m m'"
| yield: "syscall_yield m = Some (res, m') \<Longrightarrow> ipc_step m m'"
| wait: "syscall_wait pid m = Some (bres, m') \<Longrightarrow> ipc_step m m'"

lemmas quiet_calls = quiet_event_calls quiet_subscribe quiet_revoke quiet_transfer quiet_duplicate
  quiet_channel_calls quiet_thread_calls

lemma ipc_step_inv: "ipc_step m m' \<Longrightarrow> kernel_inv m \<Longrightarrow> kernel_inv m'"
proof (induction rule: ipc_step.induct)
  case (wait_event h t m bres m')
  then show ?case using wait_event_inv [of m h t] by auto
next
  case (create_thread m v ks entry us res m')
  then show ?case using create_thread_inv [of m v ks entry us] by simp
next
  case (join_thread h m bres m')
  then show ?case using join_thread_inv [of m h] by auto
next
  case (exit_thread code m res m')
  then show ?case using exit_thread_inv [of m code] by auto
next
  case (exit code m res m')
  then show ?case using process_calls_inv(1) [of m code] by auto
next
  case (yield m res m')
  then show ?case using process_calls_inv(2) [of m] by auto
next
  case (wait pid m bres m')
  then show ?case using process_calls_inv(3) [of m pid] by auto
qed (erule quiet_inv, erule quiet_calls)+


section \<open>Channels are bounded queues\<close>

text \<open>The running process has a handle of an object, with the permissions every new handle gets.\<close>

definition holds :: "Machine \<Rightarrow> Handle \<Rightarrow> KernelObject \<Rightarrow> bool" where
  "holds m h obj \<longleftrightarrow> current_pid m \<noteq> 0 \<and> (\<exists>p e. find_process (current_pid m) (processes m) = Some p \<and>
     ht_entry (secret m) (handle_table (resources p)) h = Some e \<and> he_object e = obj \<and> he_permissions e = owner_perms)"

lemma holds_stores [simp]:
  "holds (m\<lparr>events := ev\<rparr>) h obj = holds m h obj" "holds (m\<lparr>channels := ch\<rparr>) h obj = holds m h obj"
  by (simp_all add: holds_def)

lemma owner_perms_all: "perm \<in> {PERM_READ, PERM_WRITE, PERM_SIGNAL, PERM_DUPLICATE, PERM_TRANSFER} \<Longrightarrow>
    owner_perms AND perm = perm"
  by (auto simp: owner_perms_def PERM_READ_def PERM_WRITE_def PERM_SIGNAL_def PERM_DUPLICATE_def PERM_TRANSFER_def)

lemma holds_permission:
  assumes "holds m h obj" and "perm \<in> {PERM_READ, PERM_WRITE, PERM_SIGNAL, PERM_DUPLICATE, PERM_TRANSFER}"
  shows "check_handle_permission h perm m = Inr ()"
  using assms owner_perms_all [OF assms(2)]
  by (auto simp: holds_def check_handle_permission_def with_current_handle_table_def pid_of_def with_process_def check_perm_def)

lemma holds_with: "holds m h obj \<Longrightarrow> with_handle_mut h f m = f obj m"
  by (auto simp: holds_def with_handle_mut_def pid_of_def ht_get_def)

lemma holds_with_ref: "holds m h obj \<Longrightarrow> sel obj = Inr r \<Longrightarrow> with_ref sel h f m = f r m"
  by (simp add: with_ref_def holds_with)

lemma holds_event: "holds m h (Event r) \<Longrightarrow> with_ref event_of h f m = f r m"
  by (erule holds_with_ref) (simp add: event_of_def)

lemma holds_channel: "holds m h (Channel r) \<Longrightarrow> with_ref channel_of h f m = f r m"
  by (erule holds_with_ref) (simp add: channel_of_def)

lemma unblock_stores [simp]:
  "events (unblock_process pid m) = events m" "channels (unblock_process pid m) = channels m"
  "secret (unblock_process pid m) = secret m"
  by (simp_all add: unblock_process_def with_process_def split: option.split prod.split)

lemma fold_unblock_stores [simp]:
  "events (fold unblock_process ws m) = events m" "channels (fold unblock_process ws m) = channels m"
  "secret (fold unblock_process ws m) = secret m" "current_pid (fold unblock_process ws m) = current_pid m"
  by (induction ws arbitrary: m) simp_all

lemma holds_unblock: "holds m h obj \<Longrightarrow> holds (unblock_process pid m) h obj"
proof (cases "find_process pid (processes m)")
  case (Some q)
  assume "holds m h obj"
  then show ?thesis using Some find_update_process [OF Some] find_update_other [of "current_pid m" pid]
    by (cases "pid = current_pid m")
      (auto simp: holds_def unblock_process_def with_process_def set_unblocked_def)
qed (simp add: unblock_process_def with_process_def)

lemma holds_fold_unblock: "holds m h obj \<Longrightarrow> holds (fold unblock_process ws m) h obj"
  by (induction ws arbitrary: m) (simp_all add: holds_unblock)

text \<open>A machine that answers calls like an abstract one, also over a sequence of calls.\<close>

fun run_calls :: "('c \<Rightarrow> 's \<Rightarrow> 'r \<times> 's) \<Rightarrow> 'c list \<Rightarrow> 's \<Rightarrow> 'r list \<times> 's" where
  "run_calls step [] s = ([], s)"
| "run_calls step (c # cs) s = (case step c s of (r, s1) \<Rightarrow> case run_calls step cs s1 of (rs, s2) \<Rightarrow> (r # rs, s2))"

locale simulation =
  fixes conc :: "'c \<Rightarrow> 's \<Rightarrow> 'r \<times> 's" and spec :: "'c \<Rightarrow> 'a \<Rightarrow> 'r \<times> 'a"
    and ok :: "'s \<Rightarrow> bool" and view :: "'s \<Rightarrow> 'a"
  assumes step_law: "ok s \<Longrightarrow> conc c s = (r, s') \<Longrightarrow> ok s' \<and> spec c (view s) = (r, view s')"
begin

lemma run_law: "ok s \<Longrightarrow> run_calls conc cs s = (rs, s') \<Longrightarrow> ok s' \<and> run_calls spec cs (view s) = (rs, view s')"
proof (induction cs arbitrary: s rs s')
  case (Cons c cs)
  obtain r s1 where c: "conc c s = (r, s1)" by fastforce
  obtain rs1 s2 where cs: "run_calls conc cs s1 = (rs1, s2)" by fastforce
  then have "s2 = s'" "rs = r # rs1" using Cons.prems(2) c by simp_all
  then show ?case using Cons.IH [of s1 rs1 s'] step_law [OF Cons.prems(1) c] cs by simp
qed simp

end

datatype channel_call = Send u64 u64 | Recv u64 u64

definition channel_step ::
    "(u64 \<Rightarrow> bool) \<Rightarrow> Handle \<Rightarrow> channel_call \<Rightarrow> UserSpace \<times> Machine \<Rightarrow> (SyscallError + u64) \<times> UserSpace \<times> Machine" where
  "channel_step virt_ok h c s = (case c of
     Send p n \<Rightarrow> (case syscall_channel_send virt_ok h p n (fst s) (snd s) of (r, m) \<Rightarrow> (r, fst s, m))
   | Recv p n \<Rightarrow> syscall_channel_recv virt_ok h p n s)"

text \<open>A first-in-first-out queue of at most 64 messages, next to the user memory.\<close>

definition queue_step :: "channel_call \<Rightarrow> UserSpace \<times> bytes list \<Rightarrow> (SyscallError + u64) \<times> UserSpace \<times> bytes list" where
  "queue_step c s = (case s of (sp, q) \<Rightarrow> (case c of
     Send p n \<Rightarrow>
       if p = 0 \<or> n = 0 \<or> 65536 < unat n \<or> \<not> user_bytes sp False p (unat n) then (Inl InvalidArgument, sp, q)
       else if 64 \<le> length q then (Inl Again, sp, q)
       else (Inr n, sp, q @ [umem_read sp p (unat n)])
   | Recv p n \<Rightarrow>
       if p = 0 \<or> n = 0 \<or> 65536 < unat n \<or> \<not> user_bytes sp True p (unat n) then (Inl InvalidArgument, sp, q)
       else (case q of
         [] \<Rightarrow> (Inl WouldBlock, sp, q)
       | msg # rest \<Rightarrow> (Inr (of_nat (min (length msg) (unat n))),
           umem_write p (take (unat n) msg @ replicate (unat n - length msg) 0) sp, rest))))"

definition channel_ok :: "(u64 \<Rightarrow> bool) \<Rightarrow> Handle \<Rightarrow> nat \<Rightarrow> UserSpace \<times> Machine \<Rightarrow> bool" where
  "channel_ok virt_ok h r s \<longleftrightarrow> (\<forall>a. is_user_address a \<longrightarrow> virt_ok a) \<and> holds (snd s) h (Channel r) \<and>
     (\<exists>c. channels (snd s) r = Some c \<and> max_messages c = 64)"

definition channel_view :: "nat \<Rightarrow> UserSpace \<times> Machine \<Rightarrow> UserSpace \<times> bytes list" where
  "channel_view r s = (fst s, case channels (snd s) r of None \<Rightarrow> [] | Some c \<Rightarrow> messages c)"

lemma validate_user_buffer_error:
  "validate_user_buffer v p n False = Inr () \<or> validate_user_buffer v p n False = Inl SysInvalidArgument"
  by (simp add: validate_user_buffer_def split: option.split)

lemma validate_user_buffer_ok:
  assumes "\<forall>a. is_user_address a \<longrightarrow> v a" and "p \<noteq> 0" and "unat p + n \<le> 2 ^ 47" and "0 < n"
  shows "validate_user_buffer v p n False = Inr ()"
proof -
  have sm: "unat p + (n - 1) < 2 ^ 64" "n - 1 < 2 ^ 64" using assms(3,4) by simp_all
  then have n: "unat (of_nat (n - 1) :: u64) = n - 1" by (simp add: unat_of_nat take_bit_nat_eq_self)
  have e: "unat (p + of_nat (n - 1)) = unat p + (n - 1)" using sm(1) by (rule unat_plus_small)
  have "checked_add p (of_nat (n - 1)) = Some (p + of_nat (n - 1))"
    using sm(1) n by (simp add: checked_add_def)
  moreover have "is_user_address (p + of_nat (n - 1))" "is_user_address p"
    using e assms(3,4) by (simp_all add: is_user_address_def word_less_nat_alt)
  ultimately show ?thesis using assms(1,2) by (simp add: validate_user_buffer_def del: of_nat_diff)
qed

lemma channel_send_queue:
  assumes "channel_ok v h r (sp, m)" and "syscall_channel_send v h p n sp m = (res, m')"
  shows "channel_ok v h r (sp, m') \<and> queue_step (Send p n) (channel_view r (sp, m)) = (res, channel_view r (sp, m'))"
proof -
  have v: "\<forall>a. is_user_address a \<longrightarrow> v a" and hl: "holds m h (Channel r)" using assms(1) by (simp_all add: channel_ok_def)
  obtain c where c: "channels m r = Some c" "max_messages c = 64" using assms(1) by (auto simp: channel_ok_def)
  note ref = holds_channel [OF hl]
  have perm: "check_handle_permission h PERM_WRITE m = Inr ()" using hl by (rule holds_permission) simp
  have lt: "unat n < 2 ^ 64" using unsigned_less [of n] by simp
  note sl = user_slice_new_cases [OF v lt, of p sp False]
  have z: "unat n = 0 \<longleftrightarrow> n = 0" by (simp add: unat_eq_0)
  show ?thesis using assms(2) sl hl v c
    by (auto simp: syscall_channel_send_def perm ref channel_push_def Let_def z us_copy_from_user_def
        channel_ok_def channel_view_def queue_step_def holds_fold_unblock split: if_splits)
qed

lemma channel_recv_queue:
  assumes "channel_ok v h r (sp, m)" and "syscall_channel_recv v h p n (sp, m) = (res, sp', m')"
  shows "channel_ok v h r (sp', m') \<and> queue_step (Recv p n) (channel_view r (sp, m)) = (res, channel_view r (sp', m'))"
proof -
  have v: "\<forall>a. is_user_address a \<longrightarrow> v a" and hl: "holds m h (Channel r)" using assms(1) by (simp_all add: channel_ok_def)
  obtain c where c: "channels m r = Some c" "max_messages c = 64" using assms(1) by (auto simp: channel_ok_def)
  note ref = holds_channel [OF hl]
  have perm: "check_handle_permission h PERM_READ m = Inr ()" using hl by (rule holds_permission) simp
  have lt: "unat n < 2 ^ 64" using unsigned_less [of n] by simp
  have z: "unat n = 0 \<longleftrightarrow> n = 0" by (simp add: unat_eq_0)
  consider "p = 0 \<or> n = 0 \<or> 65536 < unat n"
    | "p \<noteq> 0" "n \<noteq> 0" "unat n \<le> 65536" "\<not> user_bytes sp True p (unat n)"
    | "p \<noteq> 0" "n \<noteq> 0" "unat n \<le> 65536" "user_bytes sp True p (unat n)" by linarith
  then show ?thesis
  proof cases
    case 1
    then show ?thesis using assms
      by (auto simp: syscall_channel_recv_def perm Let_def z queue_step_def channel_view_def)
  next
    case 2
    then show ?thesis using assms user_slice_new_cases [OF v lt, of p sp True]
        validate_user_buffer_error [of v p "unat n"]
      by (auto simp: syscall_channel_recv_def perm Let_def z queue_step_def channel_view_def from_system_error_def)
  next
    case 3
    have "validate_user_buffer v p (unat n) False = Inr ()"
      using 3 v by (intro validate_user_buffer_ok) (simp_all add: user_bytes_def z unat_gt_0)
    then show ?thesis using assms(2) 3 user_slice_new_cases [OF v lt, of p sp True] hl v c
      by (cases "messages c")
        (auto simp: syscall_channel_recv_def perm ref channel_pop_def Let_def z us_copy_to_user_def
          channel_ok_def channel_view_def queue_step_def min_def)
  qed
qed

interpretation channel: simulation "channel_step v h" queue_step "channel_ok v h r" "channel_view r" for v h r
proof unfold_locales
  fix s c res s'
  assume "channel_ok v h r s" "channel_step v h c s = (res, s')"
  then show "channel_ok v h r s' \<and> queue_step c (channel_view r s) = (res, channel_view r s')"
    using channel_send_queue [of v h r "fst s" "snd s"] channel_recv_queue [of v h r "fst s" "snd s" _ _ res "fst s'" "snd s'"]
    by (cases c) (auto simp: channel_step_def split: prod.splits)
qed

text \<open>Two processes, each with one handle of the same object.\<close>

definition demo_handle :: Handle where
  "demo_handle = handle_new 7 0 1 owner_perms"

definition demo_client :: "ProcessId \<Rightarrow> KernelObject \<Rightarrow> ProcessId \<times> Process" where
  "demo_client pid obj = (pid, (process_new \<lparr>gdt_code = None, gdt_kernel_data = None, gdt_user_code = None, gdt_user_data = None\<rparr>
     pid ''client'' 0x1000 True)\<lparr>resources := resources_new\<lparr>handle_table := snd (ht_alloc 7 obj [])\<rparr>\<rparr>)"

definition demo_ipc :: "ProcessId \<Rightarrow> KernelObject \<Rightarrow> Machine" where
  "demo_ipc pid obj = SchedulerContext.extend (sched_new\<lparr>processes := [demo_client 1 obj, demo_client 2 obj],
       current_pid := pid, next_pid := 3\<rparr>)
     \<lparr>cpu = pcontext (snd (demo_client pid obj)), cr3 = 0, secret = 7,
      events = [0 \<mapsto> \<lparr>signaled = False, manual_reset = False, ev_waiters = [2]\<rparr>], threads = Map.empty,
      channels = [0 \<mapsto> \<lparr>messages = [], ch_waiters = [], max_messages = 64\<rparr>], pipes = Map.empty, next_ref = 1,
      hidden_windows = [], freed_stacks = [], freed_page_tables = []\<rparr>"

lemma demo_table: "ht_alloc 7 obj [] = (demo_handle, [\<lparr>hs_generation = 1, hs_entry = Some
    \<lparr>he_generation = 1, he_permissions = owner_perms, he_object = obj\<rparr>\<rparr>])"
  by (simp add: ht_alloc_def find_free_slot_def demo_handle_def Let_def)

lemma demo_ipc_fields [simp]:
  "current_pid (demo_ipc pid obj) = pid" "secret (demo_ipc pid obj) = 7"
  "events (demo_ipc pid obj) 0 = Some \<lparr>signaled = False, manual_reset = False, ev_waiters = [2]\<rparr>"
  "channels (demo_ipc pid obj) 0 = Some \<lparr>messages = [], ch_waiters = [], max_messages = 64\<rparr>"
  "find_process 1 (processes (demo_ipc pid obj)) = Some (snd (demo_client 1 obj))"
  "find_process 2 (processes (demo_ipc pid obj)) = Some (snd (demo_client 2 obj))"
  by (simp_all add: demo_ipc_def SchedulerContext.extend_def sched_new_def find_process_def demo_client_def)

lemma demo_holds: "pid = 1 \<or> pid = 2 \<Longrightarrow> holds (demo_ipc pid obj) demo_handle obj"
  by (auto simp: holds_def demo_client_def demo_table ht_entry_def demo_handle_def resources_new_def)

text \<open>
  C8. A channel is a first-in-first-out queue of at most 64 messages. Any sequence of sends and receives
  by a process that holds a handle of the channel gets the answers of that queue, errors included: a
  full channel answers \<open>Again\<close>, an empty one \<open>WouldBlock\<close>, and memory that is not the caller's or a length
  of 0 or over 65536 bytes \<open>InvalidArgument\<close>. A received message longer than the buffer is cut off, and the
  part of the buffer behind a shorter one is filled with zeros.
\<close>

theorem channel_is_queue:
  assumes "\<forall>a. is_user_address a \<longrightarrow> v a" and "holds m h (Channel r)"
    and "channels m r = Some c" and "max_messages c = 64"
    and "run_calls (channel_step v h) calls (sp, m) = (results, sp', m')"
  shows "\<exists>c'. channels m' r = Some c' \<and>
    run_calls queue_step calls (sp, messages c) = (results, sp', messages c')"
proof -
  have "channel_ok v h r (sp, m)" using assms(1-4) by (simp add: channel_ok_def)
  from channel.run_law [OF this assms(5)] show ?thesis using assms(3)
    by (auto simp: channel_ok_def channel_view_def)
qed

theorem channel_is_queue_witness:
  "fst (run_calls (channel_step is_user_address demo_handle) [Send 0x4000 2, Recv 0x5000 4, Recv 0x5000 4]
     (demo_space, demo_ipc 1 (Channel 0))) = [Inr 2, Inr 2, Inl WouldBlock]"
proof -
  let ?calls = "[Send 0x4000 2, Recv 0x5000 4, Recv 0x5000 4]"
  obtain rs sp m where r: "run_calls (channel_step is_user_address demo_handle) ?calls
      (demo_space, demo_ipc 1 (Channel 0)) = (rs, sp, m)" by (metis prod_cases3)
  have ub: "user_bytes demo_space w 0x4000 2" "user_bytes demo_space w 0x5000 4" for w
    by (simp_all add: user_bytes_def demo_page_ok)
  have "fst (run_calls queue_step ?calls (demo_space, [])) = [Inr 2, Inr 2, Inl WouldBlock]"
    by (simp add: queue_step_def ub umem_read_def)
  then show ?thesis
    using channel_is_queue [OF _ demo_holds [of 1 "Channel 0"] _ _ r, of "\<lparr>messages = [], ch_waiters = [], max_messages = 64\<rparr>"] r
    by auto
qed


section \<open>Events\<close>

text \<open>
  C27. One signal of an automatic event can end two waits. It marks the event and wakes the last waiter; a
  process that waits before the woken one runs takes the mark and returns at once; the woken process
  then finds the event not marked but itself no longer among the waiters, and returns as well.
\<close>

theorem one_signal_two_waits:
  assumes "holds m h (Event r)"
    and "events m r = Some \<lparr>signaled = False, manual_reset = False, ev_waiters = ws @ [w]\<rparr>" and "w \<notin> set ws"
  shows "\<exists>m1 q1 m2. syscall_signal_event h (m, q) = (Inr 0, m1, q1) \<and>
    syscall_wait_event h t m1 = Some (Done (Inr 0), m2) \<and>
    (\<forall>m3 h3. current_pid m3 = w \<and> holds m3 h3 (Event r) \<and> events m3 r = events m2 r \<longrightarrow>
       fst (wait_event_resume h3 m3) = Inr 0)"
proof -
  let ?e = "\<lambda>b. \<lparr>signaled = b, manual_reset = False, ev_waiters = ws\<rparr>"
  define m1 where "m1 = unblock_process w (m\<lparr>events := (events m)(r \<mapsto> ?e True)\<rparr>)"
  define m2 where "m2 = m1\<lparr>events := (events m1)(r \<mapsto> ?e False)\<rparr>"
  have "check_handle_permission h PERM_SIGNAL m = Inr ()" using assms(1) by (rule holds_permission) simp
  then have 1: "syscall_signal_event h (m, q) = (Inr 0, m1, map_option (push_system Resume) q)"
    using assms(2) by (simp add: syscall_signal_event_def holds_event [OF assms(1)] signal_inner_def m1_def)
  have h1: "holds m1 h (Event r)" using assms(1) by (simp add: holds_unblock m1_def)
  then have "check_handle_permission h PERM_READ m1 = Inr ()" by (rule holds_permission) simp
  moreover have "events m1 r = Some (?e True)" by (simp add: m1_def)
  ultimately have 2: "syscall_wait_event h t m1 = Some (Done (Inr 0), m2)"
    by (simp add: syscall_wait_event_def holds_event [OF h1] take_signal_def m2_def)
  have "fst (wait_event_resume h3 m3) = Inr 0"
    if "current_pid m3 = w \<and> holds m3 h3 (Event r) \<and> events m3 r = events m2 r" for m3 h3
  proof -
    have h3: "holds m3 h3 (Event r)" using that by simp
    then have "current_pid m3 \<noteq> 0" by (simp add: holds_def)
    then show ?thesis using that assms(3)
      by (simp add: wait_event_resume_def holds_event [OF h3] take_signal_def pid_of_def m2_def)
  qed
  then show ?thesis using 1 2 by blast
qed

theorem one_signal_two_waits_witness:
  "\<exists>m1 q1 m2. syscall_signal_event demo_handle (demo_ipc 1 (Event 0), None) = (Inr 0, m1, q1) \<and>
    syscall_wait_event demo_handle 5 m1 = Some (Done (Inr 0), m2) \<and>
    fst (wait_event_resume demo_handle ((demo_ipc 2 (Event 0))\<lparr>events := events m2\<rparr>)) = Inr 0"
proof -
  have "holds ((demo_ipc 2 (Event 0))\<lparr>events := ev\<rparr>) demo_handle (Event 0)" for ev by (simp add: demo_holds)
  then show ?thesis
    using one_signal_two_waits [OF demo_holds [of 1 "Event 0"], of "[]" 2 None 5] by fastforce
qed


section \<open>Transfer of handles\<close>

lemma short_table_room: "length t < 256 \<Longrightarrow> ht_room t"
  by (rule free_index_cases [of t]) (simp_all add: ht_room_def)

lemma current_table:
  assumes "current_pid m \<noteq> 0" and "find_process (current_pid m) (processes m) = Some p"
    and "f (handle_table (resources p)) = (res, ht)"
  shows "with_current_handle_table f m =
    (res, m\<lparr>processes := update_process (current_pid m) (p\<lparr>resources := (resources p)\<lparr>handle_table := ht\<rparr>\<rparr>) (processes m)\<rparr>)"
  using assms by (simp add: with_current_handle_table_def pid_of_def with_process_def)

text \<open>
  C17. Transferring a handle moves its object: it succeeds when the target process is another one with room
  in its table, the caller's handle then finds nothing, the new handle finds the object in the target,
  and no other handle of the two and no other process changes.
\<close>

theorem transfer_moves:
  assumes "holds m h obj" and "find_process (current_pid m) (processes m) = Some p"
    and "tp \<noteq> current_pid m" and "find_process tp (processes m) = Some q" and "ht_room (handle_table (resources q))"
  shows "\<exists>h' m' p' q'. syscall_handle_transfer tp h m = (Inr h', m') \<and>
    find_process (current_pid m) (processes m') = Some p' \<and> find_process tp (processes m') = Some q' \<and>
    ht_get (secret m) (handle_table (resources p')) h = None \<and>
    ht_get (secret m) (handle_table (resources q')) h' = Some obj \<and>
    (\<forall>g. handle_key g \<noteq> handle_key h \<longrightarrow>
       ht_get (secret m) (handle_table (resources p')) g = ht_get (secret m) (handle_table (resources p)) g) \<and>
    (\<forall>g. handle_key g \<noteq> handle_key h' \<longrightarrow>
       ht_get (secret m) (handle_table (resources q')) g = ht_get (secret m) (handle_table (resources q)) g) \<and>
    (\<forall>i. i \<noteq> current_pid m \<and> i \<noteq> tp \<longrightarrow> find_process i (processes m') = find_process i (processes m))"
proof -
  let ?put = "\<lambda>t p. p\<lparr>resources := (resources p)\<lparr>handle_table := t\<rparr>\<rparr>"
  have perm: "check_handle_permission h PERM_TRANSFER m = Inr ()" using assms(1) by (rule holds_permission) simp
  have c: "current_pid m \<noteq> 0" using assms(1) by (simp add: holds_def)
  have look: "ht_get (secret m) (handle_table (resources p)) h = Some obj"
    using assms(1,2) by (auto simp: holds_def ht_get_def)
  obtain r t1 where rm: "ht_remove (secret m) h (handle_table (resources p)) = (r, t1)" by fastforce
  obtain h' t2 where al: "ht_alloc (secret m) obj (handle_table (resources q)) = (h', t2)" by fastforce
  note d = ht.del_law [OF rm] and n = ht.new_law [OF assms(5) al]
  then have r: "r = Some obj" using look by simp
  let ?ps = "update_process (current_pid m) (?put t1 p) (processes m)"
  have cur: "find_process (current_pid m) ?ps = Some (?put t1 p)" by (rule find_update_process [OF assms(2)])
  have tgt: "find_process tp ?ps = Some q" using find_update_other [OF assms(3)] assms(4) by simp
  let ?qs = "update_process tp (?put t2 q) ?ps"
  have "syscall_handle_transfer tp h m = (Inr h', m\<lparr>processes := ?qs\<rparr>)"
    using current_table [OF c assms(2), where f = "\<lambda>ht. case ht_remove (secret m) h ht of
        (None, ht') \<Rightarrow> (Inl BadHandle, ht') | (Some obj, ht') \<Rightarrow> (Inr obj :: SyscallError + KernelObject, ht')"]
    by (simp add: syscall_handle_transfer_def perm assms(4) rm r with_process_def tgt al)
  moreover have "find_process (current_pid m) ?qs = Some (?put t1 p)" using find_update_other [of "current_pid m" tp] assms(3) cur by simp
  moreover have "find_process tp ?qs = Some (?put t2 q)" by (rule find_update_process [OF tgt])
  moreover have "find_process i ?qs = find_process i (processes m)" if "i \<noteq> current_pid m \<and> i \<noteq> tp" for i
    using that by (simp add: find_update_other)
  ultimately show ?thesis using d n r
    by (intro exI [of _ h'] exI [of _ "m\<lparr>processes := ?qs\<rparr>"] exI [of _ "?put t1 p"] exI [of _ "?put t2 q"]) simp
qed

theorem transfer_moves_witness:
  "\<exists>h' m'. syscall_handle_transfer 2 demo_handle (demo_ipc 1 (Channel 0)) = (Inr h', m') \<and>
    (\<exists>p'. find_process 1 (processes m') = Some p' \<and> ht_get 7 (handle_table (resources p')) demo_handle = None)"
proof -
  have "ht_room (handle_table (resources (snd (demo_client 2 (Channel 0)))))"
    by (intro short_table_room) (simp add: demo_client_def demo_table)
  then show ?thesis
    using transfer_moves [OF demo_holds [of 1 "Channel 0"], of "snd (demo_client 1 (Channel 0))" 2 "snd (demo_client 2 (Channel 0))"]
    by auto
qed


section \<open>Pipes\<close>

lemma alloc_current:
  assumes "current_pid m \<noteq> 0" and "find_process (current_pid m) (processes m) = Some p"
    and "ht_alloc (secret m) obj (handle_table (resources p)) = (h, ht)"
  shows "alloc_handle obj m =
    (Inr h, m\<lparr>processes := update_process (current_pid m) (p\<lparr>resources := (resources p)\<lparr>handle_table := ht\<rparr>\<rparr>) (processes m)\<rparr>)"
  unfolding alloc_handle_def by (rule current_table [OF assms(1,2)]) (simp add: assms(3))

lemma alloc_length: "ht_alloc sec obj t = (h, t') \<Longrightarrow> length t' \<le> Suc (length t)"
  using grow_facts(5) [of t] by (auto simp: ht_alloc_def find_free_slot_eq Let_def)



end
