(* ===== verification/Kernel_Reach.thy ===== *)
theory Kernel_Reach
  imports Kernel_Ipc
begin

text \<open>
  The machines the kernel can reach from boot: creation of processes keeps the invariant of
  \<open>Kernel_Life\<close>, and so does every other operation of the scheduler and of the life of a process. What
  follows for the processes: one of them runs, an exit does not leave the terminated process, a fault
  does not wake the parent that waits.
\<close>

section \<open>Creation\<close>

lemma init_context_same [simp]:
  "proc_id (init_context g tp p) = proc_id p" "pstate (init_context g tp p) = pstate p"
  by (simp_all add: init_context_def Let_def)

lemma finish_process_inv:
  assumes "kernel_inv s" and "proc_id p \<notin> fst ` set (processes s)" and "proc_id p \<noteq> 0"
    and "proc_id p < next_pid s" and "pstate p = Ready"
  shows "kernel_inv (snd (finish_process g tp p s))"
  using sched_add_inv [of s "init_context g tp p"] assms
  by (auto simp: finish_process_def split: prod.splits sum.splits)

lemma create_inv:
  assumes "kernel_inv m" and "next_pid m \<noteq> - 1"
  shows "kernel_inv (snd (create_process g al name entry user m))"
proof -
  define m1 where "m1 = m\<lparr>next_pid := next_pid m + 1\<rparr>"
  have m1: "kernel_inv m1" and fresh: "next_pid m \<notin> fst ` set (processes m)" and nz: "next_pid m \<noteq> 0"
    and lt: "next_pid m < next_pid m + 1"
    using allocate_pid_inv [OF assms] by (simp_all add: m1_def allocate_pid_def)
  have fin: "kernel_inv (snd (finish_process g tp p m1))" if "proc_id p = next_pid m" "pstate p = Ready" for tp p
    using finish_process_inv [OF m1, of p g tp] that fresh nz lt by (simp add: m1_def)
  have fr: "kernel_inv (free_stacks bs m1)" "kernel_inv (free_page_table f (free_stacks bs m1))" for bs f
    using kernel_inv_core [of "free_stacks bs m1" m1]
      kernel_inv_core [of "free_page_table f (free_stacks bs m1)" m1] m1 by simp_all
  show ?thesis
    unfolding create_process_def allocate_pid_def Let_def case_prod_conv m1_def [symmetric]
    using m1 fr by (auto split: sum.split option.split prod.split intro!: fin simp: process_new_def)
qed

lemma fork_inv:
  assumes "kernel_inv m" and "next_pid m \<noteq> - 1"
  shows "kernel_inv (snd (syscall_fork fo m))"
proof -
  define m1 where "m1 = m\<lparr>next_pid := next_pid m + 1\<rparr>"
  have m1: "kernel_inv m1" and fresh: "next_pid m \<notin> fst ` set (processes m1)" and nz: "next_pid m \<noteq> 0"
    and lt: "next_pid m < next_pid m1"
    using allocate_pid_inv [OF assms] by (simp_all add: m1_def allocate_pid_def)
  have add: "kernel_inv (snd (sched_add (fork_child (next_pid m) cur pa addr sp v) m1))" for cur pa addr sp v
    using m1 fresh nz lt by (intro sched_add_inv) (simp_all add: fork_child_def Let_def)
  have fr: "kernel_inv (free_page_table f m)" "kernel_inv (free_page_table f (free_stacks bs m1))" for f bs
    using kernel_inv_core [of "free_page_table f m" m] assms(1)
      kernel_inv_core [of "free_page_table f (free_stacks bs m1)" m1] m1 by simp_all
  have out: "kernel_inv (snd (case sched_add p m1 of (Inl _, _) \<Rightarrow> (Inl SyscallError.OutOfMemory, free_page_table f (free_stacks bs m1))
      | (Inr _, m2) \<Rightarrow> (Inr pid, m2)))" if "kernel_inv (snd (sched_add p m1))" for p f bs and pid :: u64
    using that fr by (cases "sched_add p m1") (auto split: sum.split)
  show ?thesis
    unfolding syscall_fork_def allocate_pid_def Let_def case_prod_conv m1_def [symmetric]
    using assms(1) fr out [OF add] by (simp split: sum.split option.split)
qed


section \<open>Reachable machines\<close>

inductive kstep :: "Machine \<Rightarrow> Machine \<Rightarrow> bool" where
  create: "next_pid m \<noteq> - 1 \<Longrightarrow> kstep m (snd (create_process g al name entry user m))"
| fork: "next_pid m \<noteq> - 1 \<Longrightarrow> kstep m (snd (syscall_fork fo m))"
| yield: "yield_current m = Some (Some m') \<Longrightarrow> kstep m m'"
| sched_yield: "sched_yield_current m = Some m' \<Longrightarrow> kstep m m'"
| block: "block_current m = Some m' \<Longrightarrow> kstep m m'"
| unblock: "kstep m (unblock_process pid m)"
| terminate: "terminate_process pid code m = Some m' \<Longrightarrow> kstep m m'"
| fault: "find_process (current_pid m) (processes m) = Some p \<Longrightarrow> proc_name p \<noteq> ''idle'' \<Longrightarrow>
    user_fault tramp m = Some m' \<Longrightarrow> kstep m m'"
| vdso: "kstep m (update_vdso_all now wall m)"
| tick: "kstep m (snd (advance_tick m))"
| ipc: "ipc_step m m' \<Longrightarrow> kstep m m'"

inductive kernel_reachable :: "Machine \<Rightarrow> bool" where
  boot: "processes b = [] \<Longrightarrow> next_pid b = 1 \<Longrightarrow> schedule_index b = 0 \<Longrightarrow>
    process_init g idle_addr (False, b) = Some (True, m) \<Longrightarrow> kernel_reachable m"
| step: "kernel_reachable m \<Longrightarrow> kstep m m' \<Longrightarrow> kernel_reachable m'"

lemma vdso_inv: "kernel_inv s \<Longrightarrow> kernel_inv (update_vdso_all now wall s)"
proof (erule kernel_inv_kept)
  show "roles_kept (processes s) (processes (update_vdso_all now wall s))"
    by (auto simp: roles_kept_def update_vdso_all_def list_all2_map2 list_all2_same same_role_def)
qed (simp_all add: update_vdso_all_def)

lemma user_fault_trampoline: "user_fault tramp m = Some m' \<Longrightarrow> tramp \<noteq> None"
  by (cases tramp) (auto simp: user_fault_def terminate_and_recover_def Let_def split: if_splits)

lemma kstep_inv: "kstep m m' \<Longrightarrow> kernel_inv m \<Longrightarrow> kernel_inv m'"
proof (erule kstep.cases, goal_cases)
  case (1 m1 g al name entry user)
  then show ?case using create_inv [of m1] by simp
next
  case (2 m1 fo)
  then show ?case using fork_inv [of m1] by simp
next
  case (3 m1 m2)
  then show ?case using yield_inv [of m] by simp
next
  case (4 m1 m2)
  then show ?case using sched_yield_inv [of m] by simp
next
  case (5 m1 m2)
  then show ?case using block_inv [of m] by simp
next
  case (6 m1 pid)
  then show ?case using unblock_inv [of m] by simp
next
  case (7 pid code m1 m2)
  then show ?case using terminate_inv [of m pid code] by simp
next
  case (8 m1 p tramp m2)
  then show ?case using fault_inv [of m p tramp] user_fault_trampoline [of tramp m m'] by auto
next
  case (9 m1 now wall)
  then show ?case using vdso_inv [of m] by simp
next
  case (10 m1)
  then show ?case by (simp add: advance_tick_def kernel_inv_def)
next
  case (11 m1 m2)
  then show ?case using ipc_step_inv [of m m'] by simp
qed

lemma reachable_inv: "kernel_reachable m \<Longrightarrow> kernel_inv m"
proof (induction rule: kernel_reachable.induct)
  case (boot b g idle_addr m)
  have "sched_add p s = (Inr (), s\<lparr>processes := [(proc_id p, p)]\<rparr>)" if "processes s = []" for p and s :: Machine
    using that sched_add_fresh [of p s] by (simp add: MAX_PROCESSES_def)
  then show ?case using boot
    by (auto simp: process_init_def allocate_pid_def Let_def kernel_inv_def list_inv_def only_running_def MAX_PROCESSES_def)
qed (rule kstep_inv)



section \<open>Exits and faults\<close>

lemma unblock_find: "find_process i (processes (unblock_process j s)) =
    map_option (\<lambda>p. if i = j then snd (set_unblocked p) else p) (find_process i (processes s))"
proof (cases "find_process j (processes s)")
  case None
  then show ?thesis by (cases "i = j") (simp_all add: unblock_process_def with_process_def option.map_ident)
next
  case (Some p)
  then show ?thesis using find_update_process [OF Some] find_update_other [of i j]
    by (cases "i = j") (simp_all add: unblock_process_def with_process_def option.map_ident split: prod.split)
qed

text \<open>What waking processes up does to one of them.\<close>

definition woken :: "Process \<Rightarrow> Process \<Rightarrow> bool" where
  "woken p q \<longleftrightarrow> q = p \<or> pstate p = Blocked \<and> q = p\<lparr>pstate := Ready\<rparr>"

lemma woken_unblock: "woken p q \<Longrightarrow> woken p (snd (set_unblocked q))"
  by (auto simp: woken_def set_unblocked_def)

lemma unblock_fold_find:
  "find_process i (processes s) = Some q \<Longrightarrow> woken p q \<Longrightarrow>
   \<exists>q'. find_process i (processes (fold unblock_process ws s)) = Some q' \<and> woken p q'"
proof (induction ws arbitrary: s q)
  case (Cons w ws)
  have "find_process i (processes (unblock_process w s)) = Some (if i = w then snd (set_unblocked q) else q)"
    using Cons.prems(1) by (simp add: unblock_find)
  moreover have "woken p (if i = w then snd (set_unblocked q) else q)"
    using Cons.prems(2) woken_unblock by simp
  ultimately show ?case using Cons.IH by simp
qed auto

lemma schedule_next_find:
  assumes "list_inv (processes s) (next_pid s)" and "schedule_next s = Some (r, s')"
    and "find_process i (processes s) = Some p"
  shows "\<exists>q. find_process i (processes s') = Some q \<and>
    (pstate p = Blocked \<or> pstate p = Terminated \<longrightarrow> proc_name p \<noteq> ''idle'' \<longrightarrow> q = p \<and> current_pid s' \<noteq> i) \<and>
    (pstate p = Ready \<longrightarrow> pstate q = Ready \<or> pstate q = Running)"
proof -
  let ?ps = "processes s" let ?cur = "min (schedule_index s) (length ?ps - 1)"
  obtain nxt where l: "nxt < length ?ps" "?cur < length ?ps"
    and sn: "schedule_next s = Some ((Some (fst (?ps ! ?cur)), fst (?ps ! nxt)),
       s\<lparr>schedule_index := nxt, current_pid := fst (?ps ! nxt), processes := switch_states ?cur nxt ?ps\<rparr>)"
    and ch: "ready_at ?ps nxt \<or> nxt = fallback ?ps ?cur"
    using schedule_next_result [OF list_inv_nonempty [OF assms(1)]] by metis
  have s': "processes s' = switch_states ?cur nxt ?ps" "current_pid s' = fst (?ps ! nxt)" using sn assms(2) by auto
  obtain j where j: "j < length ?ps" "?ps ! j = (i, p)"
    using find_process_Some [OF assms(3)] by (auto simp: in_set_conv_nth)
  have "proc_name (snd (?ps ! nxt)) = ''idle''" if "nxt = fallback ?ps ?cur"
  proof -
    obtain k where k: "position (\<lambda>(_, p). proc_name p = ''idle'') ?ps = Some k"
      using assms(1) position_None [of "\<lambda>(_, p). proc_name p = ''idle''" ?ps] by (auto simp: list_inv_def)
    then show ?thesis using that position_Some [OF k] by (simp add: fallback_def case_prod_unfold)
  qed
  then have nxt: "pstate (snd (?ps ! nxt)) = Ready \<or> proc_name (snd (?ps ! nxt)) = ''idle''"
    using ch by (auto simp: ready_at_def)
  let ?q = "snd (switch_states ?cur nxt ?ps ! j)"
  have "distinct (map fst (processes s'))"
    using switch_states_list_inv [OF assms(1) l(2,1)] by (simp add: s' list_inv_def)
  moreover have "(i, ?q) \<in> set (processes s')"
    using j switch_states_fst [OF j(1) l(2,1)] by (metis s'(1) fst_conv nth_mem prod.collapse switch_states_length)
  ultimately have find: "find_process i (processes s') = Some ?q" by (rule find_process_distinct)
  have cur: "fst (?ps ! nxt) = i \<longleftrightarrow> j = nxt"
    using distinct_fst_index [of ?ps j nxt] j l(1) assms(1) by (auto simp: list_inv_def)
  have jth: "snd (?ps ! j) = p" using j(2) by simp
  show ?thesis
  proof (cases "j = nxt")
    case True
    then show ?thesis using find nxt jth switch_states_nth [OF l(2,1) j(1)] by (auto simp: set_pstate_def)
  next
    case False
    then show ?thesis using find jth cur switch_states_nth [OF l(2,1) j(1)] by (auto simp: set_pstate_def s'(2))
  qed
qed

lemma terminate_entry_find:
  assumes "terminate_entry pid code m = (ws, m')" and "find_process pid (processes m) = Some p"
    and "proc_name p \<noteq> ''idle''"
  shows "\<exists>q. find_process pid (processes m') = Some q \<and> pstate q = Terminated \<and> exit_code q = Some code \<and>
      parent_id q = parent_id p \<and> proc_name q = proc_name p"
    and "i \<noteq> pid \<Longrightarrow> find_process i (processes m') = find_process i (processes m)"
proof -
  obtain ws1 r m1 where c: "resources_cleanup (resources p) m = (ws1, r, m1)" by (metis prod_cases3)
  have "core (free_process_memory p m1) = core m"
    using resources_cleanup_core [OF c] free_process_memory_core by simp
  then have eq: "processes (free_process_memory p m1) = processes m" by (simp add: core_def)
  have m': "processes m' = update_process pid
      (p\<lparr>pstate := Terminated, exit_code := Some code, resources := r, page_table := None\<rparr>) (processes m)"
    using assms c eq by (auto simp: terminate_entry_def Let_def)
  show "\<exists>q. find_process pid (processes m') = Some q \<and> pstate q = Terminated \<and> exit_code q = Some code \<and>
      parent_id q = parent_id p \<and> proc_name q = proc_name p"
    unfolding m' find_update_process [OF assms(2)] by simp
  show "find_process i (processes m') = find_process i (processes m)" if "i \<noteq> pid"
    unfolding m' by (rule find_update_other [OF that])
qed

lemma unblock_cpu [simp]:
  fixes m :: Machine
  shows "cpu (unblock_process w m) = cpu m" "cr3 (unblock_process w m) = cr3 m"
  by (auto simp: unblock_process_def with_process_def split: option.split prod.split)

lemma unblock_fold_cpu [simp]:
  fixes m :: Machine
  shows "cpu (fold unblock_process ws m) = cpu m" "cr3 (fold unblock_process ws m) = cr3 m"
    "current_pid (fold unblock_process ws m) = current_pid m"
  by (induction ws arbitrary: m) simp_all

lemma unblock_parents_cpu [simp]:
  fixes m :: Machine
  shows "cpu (unblock_waiting_parents c m) = cpu m" "cr3 (unblock_waiting_parents c m) = cr3 m"
    "current_pid (unblock_waiting_parents c m) = current_pid m"
  by (simp_all add: unblock_waiting_parents_def split: option.split)

lemma schedule_next_cpu:
  fixes m :: Machine
  shows "schedule_next m = Some (r, m') \<Longrightarrow> cpu m' = cpu m \<and> cr3 m' = cr3 m"
  by (auto simp: schedule_next_def Let_def split: if_splits option.splits)

lemma unblock_parents_find:
  assumes "find_process i (processes s) = Some q" and "woken p q"
  shows "\<exists>q'. find_process i (processes (unblock_waiting_parents c s)) = Some q' \<and> woken p q'"
  using assms woken_unblock [OF assms(2)]
  by (auto simp: unblock_waiting_parents_def unblock_find split: option.split)

text \<open>The state of \<open>terminate_process\<close> before it schedules.\<close>

lemma terminate_before_schedule:
  assumes "kernel_inv m" and "find_process (current_pid m) (processes m) = Some p" and "proc_name p \<noteq> ''idle''"
  obtains m3 m' q r where "kernel_inv m3" "schedule_next m3 = Some (r, m')"
    "terminate_process (current_pid m) code m = Some m'"
    "cpu m3 = cpu m" "cr3 m3 = cr3 m" "find_process (current_pid m) (processes m3) = Some q"
    "pstate q = Terminated" "exit_code q = Some code" "proc_name q = proc_name p"
    "\<And>i a. i \<noteq> current_pid m \<Longrightarrow> find_process i (processes m) = Some a \<Longrightarrow> pstate a = Blocked \<Longrightarrow>
      parent_id p = Some i \<Longrightarrow> find_process i (processes m3) = Some (a\<lparr>pstate := Ready\<rparr>)"
proof -
  note outer = that
  let ?c = "current_pid m"
  obtain ws m1 where t: "terminate_entry ?c code m = (ws, m1)" by fastforce
  let ?m2 = "fold unblock_process ws m1" let ?m3 = "unblock_waiting_parents ?c ?m2"
  have kept: "current_pid m1 = ?c" "cpu m1 = cpu m" "cr3 m1 = cr3 m" using terminate_entry_kept [OF t] by auto
  have inv: "kernel_inv ?m3"
    using terminate_entry_kept [OF t] assms(1) kernel_inv_kept [of m m1] unblock_fold_inv unblock_parents_inv by metis
  obtain q where q: "find_process ?c (processes m1) = Some q" "pstate q = Terminated" "exit_code q = Some code"
    "parent_id q = parent_id p" "proc_name q = proc_name p"
    using terminate_entry_find(1) [OF t assms(2,3)] by auto
  have w: "woken q q' \<longleftrightarrow> q' = q" for q' using q(2) by (auto simp: woken_def)
  have q2: "find_process ?c (processes ?m2) = Some q" using unblock_fold_find [OF q(1), of q ws] w by auto
  have q3: "find_process ?c (processes ?m3) = Some q" using unblock_parents_find [OF q2, of q] w by auto
  obtain new m' where sn: "schedule_next ?m3 = Some ((Some (current_pid ?m3), new), m')"
    using schedule_next_keeps [OF inv] by auto
  have ready: "find_process i (processes ?m3) = Some (a\<lparr>pstate := Ready\<rparr>)"
    if i: "i \<noteq> ?c" "find_process i (processes m) = Some a" "pstate a = Blocked" "parent_id p = Some i" for i a
  proof -
    have "find_process i (processes m1) = Some a" using terminate_entry_find(2) [OF t assms(2,3) i(1)] i(2) by simp
    from unblock_fold_find [OF this, of a ws] obtain b where
      b: "find_process i (processes ?m2) = Some b" "woken a b" by (auto simp: woken_def)
    then show ?thesis using q2 q(4) i(3,4)
      by (auto simp: unblock_waiting_parents_def woken_def unblock_find set_unblocked_def)
  qed
  show thesis
    by (rule outer [OF inv sn _ _ _ q3 q(2,3,5) ready]) (use sn kept in \<open>simp_all add: terminate_process_def t Let_def\<close>)
qed

text \<open>
  C25. When the running process exits, \<open>terminate_process\<close> marks it \<open>Terminated\<close> with its exit code and
  makes another process current, but it does not switch: the registers and \<open>CR3\<close> are still those of the
  process that exited, so the system call returns to it.
\<close>

theorem exit_keeps_cpu:
  assumes "kernel_reachable m" and "find_process (current_pid m) (processes m) = Some p"
    and "proc_name p \<noteq> ''idle''"
  shows "\<exists>m' q. terminate_process (current_pid m) code m = Some m' \<and>
    find_process (current_pid m) (processes m') = Some q \<and> pstate q = Terminated \<and> exit_code q = Some code \<and>
    current_pid m' \<noteq> current_pid m \<and> cpu m' = cpu m \<and> cr3 m' = cr3 m"
proof -
  obtain m3 m' q r where m: "kernel_inv m3" "schedule_next m3 = Some (r, m')"
    "terminate_process (current_pid m) code m = Some m'"
    "cpu m3 = cpu m" "cr3 m3 = cr3 m" "find_process (current_pid m) (processes m3) = Some q"
    "pstate q = Terminated" "exit_code q = Some code" "proc_name q = proc_name p"
    by (rule terminate_before_schedule [OF reachable_inv [OF assms(1)] assms(2,3)])
  have "list_inv (processes m3) (next_pid m3)" using m(1) by (simp add: kernel_inv_def)
  from schedule_next_find [OF this m(2,6)] show ?thesis
    using m assms(3) schedule_next_cpu [OF m(2)] by auto
qed

lemma update_process_fst: "map fst (update_process pid q ps) = map fst ps"
  by (induction pid q ps rule: update_process.induct) auto

lemma find_process_None: "pid \<notin> set (map fst ps) \<Longrightarrow> find_process pid ps = None"
  by (force simp: find_process_def find_None_iff)

lemma context_switch_None_find: "processes (context_switch None new m) = processes m"
  by (simp add: context_switch_def switch_context_def Let_def split: option.split)

lemma fault_parent_blocked:
  assumes "kernel_inv m" and "find_process (current_pid m) (processes m) = Some p"
    and "proc_name p \<noteq> ''idle''" and "pp \<noteq> current_pid m"
    and "find_process pp (processes m) = Some a" and "pstate a = Blocked" and "proc_name a \<noteq> ''idle''"
  shows "\<exists>m2. user_fault (Some tramp) m = Some m2 \<and> find_process pp (processes m2) = Some a \<and>
    find_process (current_pid m) (processes m2) = None"
proof -
  let ?c = "current_pid m" let ?q = "snd (set_faulted p)"
  let ?ps = "update_process ?c ?q (processes m)" let ?m1 = "m\<lparr>processes := ?ps\<rparr>"
  have w: "snd (with_process ?c set_faulted m) = ?m1"
    using assms(2) by (simp add: with_process_def split: prod.split)
  obtain old new m3 where sn: "schedule_next (sched_cleanup ?m1) = Some ((Some old, new), m3)" "kernel_inv m3"
    "list_inv (processes (sched_cleanup ?m1)) (next_pid m)" "map fst (processes m3) = map fst (processes (sched_cleanup ?m1))"
    using fault_schedules [OF assms(1-3)] by blast
  have nz: "current_pid m3 \<noteq> 0" "?c \<noteq> 0" using kernel_inv_current sn(2) assms(1) by blast+
  have d: "distinct (map fst (processes (sched_cleanup ?m1)))" using sn(3) by (simp add: list_inv_def)
  have fp: "find_process pp ?ps = Some a" "find_process ?c ?ps = Some ?q"
    using find_update_other [OF assms(4)] find_update_process [OF assms(2)] assms(5) by simp_all
  have "(pp, a) \<in> set (processes (sched_cleanup ?m1))"
    using find_process_Some [OF fp(1)] assms(6) by (auto simp: sched_cleanup_def)
  from find_process_distinct [OF d this] have a1: "find_process pp (processes (sched_cleanup ?m1)) = Some a" .
  have "list_inv (processes (sched_cleanup ?m1)) (next_pid (sched_cleanup ?m1))"
    using sn(3) by (simp add: sched_cleanup_def)
  from schedule_next_find [OF this sn(1) a1] have a3: "find_process pp (processes m3) = Some a"
    using assms(6,7) by auto
  have "?c \<notin> set (map fst (processes (sched_cleanup ?m1)))"
  proof
    assume "?c \<in> set (map fst (processes (sched_cleanup ?m1)))"
    then obtain x where x: "(?c, x) \<in> set ?ps" "pstate x \<noteq> Terminated" by (auto simp: sched_cleanup_def)
    have "distinct (map fst ?ps)" using assms(1) update_process_fst by (simp add: kernel_inv_def list_inv_def)
    then have "x = ?q" using find_process_distinct [OF _ x(1)] fp(2) by simp
    then show False using x(2) by (simp add: set_faulted_def)
  qed
  then have c3: "find_process ?c (processes m3) = None" unfolding sn(4) [symmetric] by (rule find_process_None)
  show ?thesis
    using nz w sn(1) a3 c3 context_switch_None_find [of "current_pid m3" m3]
    by (auto simp: user_fault_def terminate_and_recover_def exception_recovery_trampoline_def pid_of_def)
qed

text \<open>
  C26. A parent that is blocked waiting for its child is made ready when the child exits, but not when
  the child faults: after a fault the parent is still blocked, exactly as it was, and the child with its
  exit code has left the process list.
\<close>

theorem fault_strands_parent:
  assumes "kernel_reachable m" and "find_process (current_pid m) (processes m) = Some p"
    and "proc_name p \<noteq> ''idle''" and "parent_id p = Some pp" and "pp \<noteq> current_pid m"
    and "find_process pp (processes m) = Some a" and "pstate a = Blocked" and "proc_name a \<noteq> ''idle''"
  shows "\<exists>m1 m2 b. terminate_process (current_pid m) code m = Some m1 \<and> user_fault (Some tramp) m = Some m2 \<and>
    find_process pp (processes m1) = Some b \<and> (pstate b = Ready \<or> pstate b = Running) \<and>
    find_process pp (processes m2) = Some a \<and> find_process (current_pid m) (processes m2) = None"
proof -
  have inv: "kernel_inv m" by (rule reachable_inv [OF assms(1)])
  obtain m3 m1 r where e: "kernel_inv m3" "schedule_next m3 = Some (r, m1)"
    "terminate_process (current_pid m) code m = Some m1"
    "\<And>i a. i \<noteq> current_pid m \<Longrightarrow> find_process i (processes m) = Some a \<Longrightarrow> pstate a = Blocked \<Longrightarrow>
      parent_id p = Some i \<Longrightarrow> find_process i (processes m3) = Some (a\<lparr>pstate := Ready\<rparr>)"
    by (rule terminate_before_schedule [OF inv assms(2,3), of code]) (rule that)
  have "find_process pp (processes m3) = Some (a\<lparr>pstate := Ready\<rparr>)" by (rule e(4) [OF assms(5-7,4)])
  from schedule_next_find [OF _ e(2) this] e(1) obtain b where
    b: "find_process pp (processes m1) = Some b" "pstate b = Ready \<or> pstate b = Running"
    by (auto simp: kernel_inv_def)
  from fault_parent_blocked [OF inv assms(2,3,5-8)] show ?thesis using e(3) b by blast
qed

section \<open>A concrete machine\<close>

definition demo_gdt :: Gdt where
  "demo_gdt = \<lparr>gdt_code = None, gdt_kernel_data = None, gdt_user_code = None, gdt_user_data = None\<rparr>"

definition demo_boot :: Machine where
  "demo_boot = \<lparr>processes = [], next_pid = 1, schedule_index = 0, current_pid = 0, tsc_per_ms = 0,
     tick_counter = 0, recovery_rsp = 0, recovery_rip = 0, cpu = context_default demo_gdt, cr3 = 0x1000, secret = 7,
     events = Map.empty, threads = Map.empty, channels = Map.empty, pipes = Map.empty, next_ref = 0,
     hidden_windows = [], freed_stacks = [], freed_page_tables = []\<rparr>"

definition demo_alloc :: Allocations where
  "demo_alloc = \<lparr>kstack = Inr 0x100000, ustack = Inr 0x200000, ptable = Inr (0x3000, Some 0x3000),
     frame_allocator = True, vdso = Some \<lparr>time_us = 0, uptime_us = 0, vdso_pid = 0\<rparr>\<rparr>"

definition demo_init :: Machine where
  "demo_init = snd (the (process_init demo_gdt 0x400000 (False, demo_boot)))"

lemma demo_init_reachable: "kernel_reachable demo_init"
proof (rule kernel_reachable.boot)
  show "process_init demo_gdt 0x400000 (False, demo_boot) = Some (True, demo_init)"
    by (simp add: demo_init_def process_init_def demo_boot_def allocate_pid_def sched_add_def MAX_PROCESSES_def
        position_def)
qed (simp_all add: demo_boot_def)

text \<open>A user process is created and scheduled.\<close>

definition demo_one :: Machine where
  "demo_one = snd (create_process demo_gdt demo_alloc ''shell'' 0x1000 True demo_init)"

definition demo_two :: Machine where
  "demo_two = the (the (yield_current demo_one))"

text \<open>It forks, and blocks to wait for its child.\<close>

definition demo_fork :: ForkOutcome where
  "demo_fork = \<lparr>fork_manager = True, fork_clone = Inr 0x5000, fork_table_init = True, fork_stack = Some 0x300000,
     fork_frame_allocator = True, fork_vdso = None\<rparr>"

definition demo_three :: Machine where
  "demo_three = snd (syscall_fork demo_fork demo_two)"

definition demo_four :: Machine where
  "demo_four = the (block_current demo_three)"

text \<open>The processes of these machines.\<close>

definition demo_idle :: Process where
  "demo_idle = snd (hd (processes demo_init))"

definition demo_shell :: Process where
  "demo_shell = snd (last (processes demo_one))"

lemma demo_init_fields:
  "processes demo_init = [(1, demo_idle)]" "next_pid demo_init = 2" "schedule_index demo_init = 0"
  "current_pid demo_init = 1" "proc_name demo_idle = ''idle''" "pstate demo_idle = Running"
  by (simp_all add: demo_idle_def demo_init_def process_init_def demo_boot_def allocate_pid_def sched_add_def
      MAX_PROCESSES_def position_def)

lemma demo_one_fields:
  "processes demo_one = [(1, demo_idle), (2, demo_shell)]" "next_pid demo_one = 3" "schedule_index demo_one = 0"
  "current_pid demo_one = 1" "proc_name demo_shell = ''shell''" "pstate demo_shell = Ready" "proc_id demo_shell = 2"
  by (simp_all add: demo_shell_def demo_one_def create_process_def demo_alloc_def allocate_pid_def sched_add_def
      MAX_PROCESSES_def position_def demo_init_fields finish_process_def process_new_def init_context_def Let_def)

lemma scan_hit: "pstate (snd (ps ! ((idx + 1) mod length ps))) = Ready \<Longrightarrow>
    schedule_scan ps start idx = Some ((idx + 1) mod length ps)"
  by (subst schedule_scan.simps) (simp add: Let_def)

lemma demo_two_fields:
  "\<exists>i. processes demo_two = [(1, i), (2, demo_shell\<lparr>pstate := Running\<rparr>)] \<and> proc_name i = ''idle''"
  "next_pid demo_two = 3" "schedule_index demo_two = 1" "current_pid demo_two = 2"
  using scan_hit [of "processes demo_one" 0 0]
  by (simp_all add: demo_two_def yield_current_def pid_of_def demo_one_fields schedule_next_def Let_def switch_states_def
      set_pstate_def context_switch_def switch_context_def with_process_def find_process_def demo_init_fields)

lemma demo_three_fields:
  "syscall_fork demo_fork demo_two = (Inr 3, demo_three)"
  "\<exists>i c. processes demo_three = [(1, i), (2, demo_shell\<lparr>pstate := Running\<rparr>), (3, c)] \<and> proc_name i = ''idle'' \<and>
     proc_name c = ''child'' \<and> parent_id c = Some 2 \<and> pstate c = Ready"
  "schedule_index demo_three = 1" "current_pid demo_three = 2"
proof -
  obtain i where i: "processes demo_two = [(1, i), (2, demo_shell\<lparr>pstate := Running\<rparr>)]" "proc_name i = ''idle''"
    using demo_two_fields(1) by blast
  have u: "\<not> ctx_is_user (pcontext demo_shell)"
    by (simp add: demo_shell_def demo_one_def create_process_def demo_alloc_def allocate_pid_def sched_add_def
        MAX_PROCESSES_def position_def demo_init_fields finish_process_def process_new_def init_context_def Let_def
        context_default_def)
  have three: "demo_three = demo_two\<lparr>next_pid := 4, processes := processes demo_two @
      [(3, fork_child 3 2 (demo_shell\<lparr>pstate := Running\<rparr>) 0x5000 0x300000 None)]\<rparr>"
    using u by (simp add: demo_three_def syscall_fork_def demo_fork_def pid_of_def demo_two_fields i find_process_def
        allocate_pid_def sched_add_def MAX_PROCESSES_def position_def Let_def fork_child_def)
  show "syscall_fork demo_fork demo_two = (Inr 3, demo_three)"
    using u by (simp add: demo_three_def syscall_fork_def demo_fork_def pid_of_def demo_two_fields i find_process_def
        allocate_pid_def sched_add_def MAX_PROCESSES_def position_def Let_def fork_child_def)
  show "\<exists>i c. processes demo_three = [(1, i), (2, demo_shell\<lparr>pstate := Running\<rparr>), (3, c)] \<and> proc_name i = ''idle'' \<and>
     proc_name c = ''child'' \<and> parent_id c = Some 2 \<and> pstate c = Ready"
    "schedule_index demo_three = 1" "current_pid demo_three = 2"
    using i by (simp_all add: three demo_two_fields fork_child_def Let_def)
qed

lemma demo_four_fields:
  "current_pid demo_four = 3"
  "\<exists>i a c. processes demo_four = [(1, i), (2, a), (3, c)] \<and> proc_name a = ''shell'' \<and> pstate a = Blocked \<and>
     proc_name c = ''child'' \<and> parent_id c = Some 2"
proof -
  obtain i c where p: "processes demo_three = [(1, i), (2, demo_shell\<lparr>pstate := Running\<rparr>), (3, c)]"
    "proc_name c = ''child''" "parent_id c = Some 2" "pstate c = Ready"
    using demo_three_fields(2) by blast
  show "current_pid demo_four = 3"
    "\<exists>i a c. processes demo_four = [(1, i), (2, a), (3, c)] \<and> proc_name a = ''shell'' \<and> pstate a = Blocked \<and>
     proc_name c = ''child'' \<and> parent_id c = Some 2"
    using scan_hit [of "[(1, i), (2, demo_shell\<lparr>pstate := Blocked\<rparr>), (3, c)]" 1 1]
    by (simp_all add: demo_four_def block_current_def demo_three_fields(3,4) p with_process_def find_process_def
        schedule_and_switch_def schedule_next_def Let_def switch_states_def set_pstate_def demo_one_fields
        context_switch_def switch_context_def)
qed

lemma demo_two_reachable: "kernel_reachable demo_two"
proof -
  have 1: "kernel_reachable demo_one" unfolding demo_one_def
    using demo_init_reachable by (rule kernel_reachable.step) (rule kstep.create, simp add: demo_init_fields)
  then have "\<exists>m'. yield_current demo_one = Some (Some m')" using yield_inv reachable_inv by blast
  then have "kstep demo_one demo_two" unfolding demo_two_def by (auto intro: kstep.yield)
  with 1 show ?thesis by (rule kernel_reachable.step)
qed

lemma demo_four_reachable: "kernel_reachable demo_four"
proof -
  have 3: "kernel_reachable demo_three" unfolding demo_three_def using demo_two_reachable
    by (rule kernel_reachable.step) (rule kstep.fork, simp add: demo_two_fields)
  then have "\<exists>m'. block_current demo_three = Some m'" using block_inv reachable_inv by blast
  then have "kstep demo_three demo_four" unfolding demo_four_def by (auto intro: kstep.block)
  with 3 show ?thesis by (rule kernel_reachable.step)
qed


theorem exit_keeps_cpu_witness:
  "\<exists>m' q. terminate_process 3 5 demo_four = Some m' \<and> find_process 3 (processes m') = Some q \<and>
    pstate q = Terminated \<and> exit_code q = Some 5 \<and> current_pid m' \<noteq> 3 \<and> cpu m' = cpu demo_four"
proof -
  obtain c where "find_process (current_pid demo_four) (processes demo_four) = Some c" "proc_name c = ''child''"
    using demo_four_fields by (auto simp: find_process_def)
  then show ?thesis using exit_keeps_cpu [OF demo_four_reachable, of c 5] by (auto simp: demo_four_fields(1))
qed

theorem fault_strands_parent_witness:
  "\<exists>m2 a. user_fault (Some 0x9000) demo_four = Some m2 \<and> find_process 2 (processes m2) = Some a \<and> pstate a = Blocked"
proof -
  obtain a c where "find_process (current_pid demo_four) (processes demo_four) = Some c" "proc_name c = ''child''"
    "parent_id c = Some 2" "find_process 2 (processes demo_four) = Some a" "pstate a = Blocked" "proc_name a = ''shell''"
    using demo_four_fields by (auto simp: find_process_def)
  then show ?thesis
    using fault_strands_parent [OF demo_four_reachable, of c 2 a 0 "0x9000"] by (auto simp: demo_four_fields(1))
qed


section \<open>A full process table, and fork\<close>


definition demo_full :: Machine where
  "demo_full = demo_init\<lparr>processes := map (\<lambda>i. (of_nat i, demo_idle)) [1..<65]\<rparr>"


lemma find_process_append:
  "pid \<notin> fst ` set ps \<Longrightarrow> find_process pid (ps @ [(pid, p)]) = Some p"
  unfolding find_process_def by (induction ps) auto

lemma create_process_user:
  assumes "create_process g al name entry True m = (Inr pid, m1)" and "next_pid m \<notin> fst ` set (processes m)"
  shows "\<exists>p. find_process pid (processes m1) = Some p \<and> is_user p \<and> vdso_page p \<noteq> None \<and>
    ctx_is_user (pcontext p) = False"
  using assms sched_add_fresh [of _ "m\<lparr>next_pid := next_pid m + 1\<rparr>"] find_process_append
  by (auto simp: create_process_def allocate_pid_def Let_def finish_process_def init_context_def process_new_def
      context_default_def split: sum.splits prod.splits if_splits option.splits)

lemma syscall_fork_child:
  assumes "syscall_fork fo m = (Inr c, m')" and "next_pid m \<notin> fst ` set (processes m)"
    and "find_process (current_pid m) (processes m) = Some p" and "\<not> ctx_is_user (pcontext p)"
  shows "\<exists>q. find_process c (processes m') = Some q \<and> parent_id q = Some (current_pid m) \<and> \<not> is_user q \<and> vdso_page q = None"
  using assms sched_add_fresh [of _ "m\<lparr>next_pid := next_pid m + 1\<rparr>"] find_process_append
  by (auto simp: syscall_fork_def pid_of_def allocate_pid_def Let_def fork_child_def
      split: sum.splits prod.splits if_splits option.splits)



end
