(* ===== verification/Kernel_Switch.thy ===== *)
theory Kernel_Switch
  imports Kernel_Process
begin

text \<open>
  The machine code of \<open>switch_context\<close>, \<open>src/fullerene-kernel/src/context_switch.rs\<close>, instruction by
  instruction, on a processor with general registers, flags, segment registers and a memory of
  64-bit cells; all accesses of this code are aligned to eight bytes relative to the two contexts and
  the stack. The cell of the \<open>bool\<close> at offset 200 also holds the seven padding bytes that the code
  reads with it. Execution ends at the indirect jump or at \<open>iretq\<close>, with the address control goes to.
  The auxiliary carry, which \<open>test\<close> leaves undefined, is cleared.
\<close>

section \<open>The processor\<close>

datatype reg = RAX | RBX | RCX | RDX | RSI | RDI | RBP | RSP | R8 | R9 | R10 | R11 | R12 | R13 | R14 | R15

datatype seg = CS | SS | DS | ES | FS | GS

datatype instr =
    Test reg reg
  | Jz nat
  | Label nat
  | Store reg u64 reg
  | Load reg reg u64
  | Mov reg reg
  | MovSeg reg seg
  | Movzx16 reg
  | Push reg
  | Pop reg
  | Pushfq
  | Popfq
  | Iretq
  | Jmp reg

record Cpu =
  gpr :: "reg \<Rightarrow> u64"
  eflags :: u64
  segr :: "seg \<Rightarrow> u16"
  mem :: "u64 \<Rightarrow> u64"

definition flag_bits :: "u64" where
  "flag_bits = 0x8D5"

definition test_flags :: "u64 \<Rightarrow> u64 \<Rightarrow> u64" where
  "test_flags v f =
     (f AND NOT flag_bits) OR (if v = 0 then 0x40 else 0) OR (if bit v 63 then 0x80 else 0) OR
     (if even (length (filter (bit v) [0..<8])) then 4 else 0)"

definition zero_flag :: "u64 \<Rightarrow> bool" where
  "zero_flag f \<longleftrightarrow> bit f 6"

definition push64 :: "u64 \<Rightarrow> Cpu \<Rightarrow> Cpu" where
  "push64 v s = s\<lparr>gpr := (gpr s)(RSP := gpr s RSP - 8), mem := (mem s)(gpr s RSP - 8 := v)\<rparr>"

definition top64 :: "Cpu \<Rightarrow> u64" where
  "top64 s = mem s (gpr s RSP)"

definition drop64 :: "Cpu \<Rightarrow> Cpu" where
  "drop64 s = s\<lparr>gpr := (gpr s)(RSP := gpr s RSP + 8)\<rparr>"

text \<open>The instructions that only change the state.\<close>

fun exec1 :: "instr \<Rightarrow> Cpu \<Rightarrow> Cpu" where
  "exec1 (Test a b) s = s\<lparr>eflags := test_flags (gpr s a AND gpr s b) (eflags s)\<rparr>"
| "exec1 (Store b k r) s = s\<lparr>mem := (mem s)(gpr s b + k := gpr s r)\<rparr>"
| "exec1 (Load r b k) s = s\<lparr>gpr := (gpr s)(r := mem s (gpr s b + k))\<rparr>"
| "exec1 (Mov a b) s = s\<lparr>gpr := (gpr s)(a := gpr s b)\<rparr>"
| "exec1 (MovSeg r g) s = s\<lparr>gpr := (gpr s)(r := (gpr s r AND NOT 0xFFFF) OR ucast (segr s g))\<rparr>"
| "exec1 (Movzx16 r) s = s\<lparr>gpr := (gpr s)(r := gpr s r AND 0xFFFF)\<rparr>"
| "exec1 (Push r) s = push64 (gpr s r) s"
| "exec1 (Pop r) s = (let v = top64 s; t = drop64 s in t\<lparr>gpr := (gpr t)(r := v)\<rparr>)"
| "exec1 Pushfq s = push64 (eflags s) s"
| "exec1 Popfq s = (drop64 s)\<lparr>eflags := top64 s\<rparr>"
| "exec1 _ s = s"

text \<open>\<open>iretq\<close> pops the instruction pointer, \<open>cs\<close>, the flags, the stack pointer and \<open>ss\<close>.\<close>

definition iretq :: "Cpu \<Rightarrow> u64 \<times> Cpu" where
  "iretq s = (let sp = gpr s RSP in
     (mem s sp, s\<lparr>segr := (segr s)(CS := ucast (mem s (sp + 8)), SS := ucast (mem s (sp + 32))),
        eflags := mem s (sp + 16), gpr := (gpr s)(RSP := mem s (sp + 24))\<rparr>))"

function exec :: "instr list \<Rightarrow> Cpu \<Rightarrow> (u64 \<times> Cpu) option" where
  "exec [] s = None"
| "exec (i # is) s = (case i of
     Jz l \<Rightarrow> exec (if zero_flag (eflags s) then dropWhile (\<lambda>j. j \<noteq> Label l) is else is) s
   | Jmp r \<Rightarrow> Some (gpr s r, s)
   | Iretq \<Rightarrow> Some (iretq s)
   | _ \<Rightarrow> exec is (exec1 i s))"
  by pat_completeness auto
termination by (relation "measure (length \<circ> fst)") (auto simp: less_Suc_eq_le length_dropWhile_le)


section \<open>The code\<close>

definition save_code :: "instr list" where
  "save_code =
    [Store RDI 0 RAX, Store RDI 8 RBX, Store RDI 16 RCX, Store RDI 24 RDX, Store RDI 32 RSI, Store RDI 40 RDI,
     Store RDI 48 RBP, Store RDI 56 RSP, Store RDI 64 R8, Store RDI 72 R9, Store RDI 80 R10, Store RDI 88 R11,
     Store RDI 96 R12, Store RDI 104 R13, Store RDI 112 R14, Store RDI 120 R15,
     Load RAX RSP 0, Store RDI 128 RAX, Pushfq, Pop RAX, Store RDI 136 RAX,
     MovSeg RAX CS, Movzx16 RAX, Store RDI 144 RAX, MovSeg RAX SS, Movzx16 RAX, Store RDI 152 RAX,
     MovSeg RAX DS, Movzx16 RAX, Store RDI 160 RAX, MovSeg RAX ES, Movzx16 RAX, Store RDI 168 RAX,
     MovSeg RAX FS, Movzx16 RAX, Store RDI 176 RAX, MovSeg RAX GS, Movzx16 RAX, Store RDI 184 RAX]"

definition stage_code :: "instr list" where
  "stage_code =
    [Mov RBX RSI, Load RAX RBX 200, Push RAX, Load RAX RBX 136, Push RAX, Load RAX RBX 128, Push RAX,
     Load RAX RBX 152, Push RAX, Load RAX RBX 144, Push RAX, Load RAX RBX 56, Push RAX]"

definition restore_code :: "instr list" where
  "restore_code =
    [Load RAX RBX 0, Load RCX RBX 16, Load RDX RBX 24, Load RSI RBX 32, Load RDI RBX 40, Load RBP RBX 48,
     Load R8 RBX 64, Load R9 RBX 72, Load R10 RBX 80, Load R11 RBX 88, Load R12 RBX 96, Load R13 RBX 104,
     Load R14 RBX 112, Load R15 RBX 120, Load RBX RBX 8,
     Pop RAX, Pop RCX, Pop RDX, Pop R8, Pop R9, Pop R10]"

definition leave_code :: "instr list" where
  "leave_code =
    [Test R10 R10, Jz 3, Push RDX, Push RAX, Push R9, Push RCX, Push R8, Iretq,
     Label 3, Mov RSP RAX, Push R9, Popfq, Jmp R8]"

definition switch_code :: "instr list" where
  "switch_code = [Test RDI RDI, Jz 2] @ save_code @ [Label 2] @ stage_code @ restore_code @ leave_code"


section \<open>Contexts in memory\<close>

definition ctx_area :: "u64 \<Rightarrow> u64 set" where
  "ctx_area c = (+) c ` {0, 8, 16, 24, 32, 40, 48, 56, 64, 72, 80, 88, 96, 104, 112, 120, 128, 136, 144, 152, 160,
     168, 176, 184, 192, 200}"

definition stack_area :: "u64 \<Rightarrow> u64 set" where
  "stack_area sp = (\<lambda>k. sp - k) ` {8, 16, 24, 32, 40, 48}"

text \<open>The order of the fields in a \<open>repr(C)\<close> structure.\<close>

definition ctx_image :: "ProcessContext \<Rightarrow> u64 list" where
  "ctx_image c = regs c @ [rflags c, rip c] @ segments c @ [tss c, if ctx_is_user c then 1 else 0]"

definition ctx_at :: "ProcessContext \<Rightarrow> u64 \<Rightarrow> (u64 \<Rightarrow> u64) \<Rightarrow> bool" where
  "ctx_at c p m \<longleftrightarrow> (\<forall>i < 26. m (p + of_nat (8 * i)) = ctx_image c ! i)"


section \<open>Straight code\<close>

fun straight :: "instr \<Rightarrow> bool" where
  "straight (Jz _) = False"
| "straight (Jmp _) = False"
| "straight Iretq = False"
| "straight _ = True"

lemma exec_straight: "straight i \<Longrightarrow> exec (i # is) s = exec is (exec1 i s)"
  by (cases i) simp_all

lemma exec_append: "list_all straight is \<Longrightarrow> exec (is @ js) s = exec js (fold exec1 is s)"
  by (induction "is" arbitrary: s) (simp_all add: exec_straight del: exec.simps(2))

lemma straight_codes: "list_all straight save_code" "list_all straight stage_code" "list_all straight restore_code"
  by (simp_all add: save_code_def stage_code_def restore_code_def)

lemma zero_flag_test: "zero_flag (test_flags v f) \<longleftrightarrow> v = 0"
  by (simp add: zero_flag_def test_flags_def flag_bits_def bit_simps)

lemmas stack_defs = push64_def top64_def drop64_def Let_def

lemma word_diff_eq: "(x :: u64) - a = x - b \<longleftrightarrow> a = b"
  by simp

text \<open>What the save phase leaves: the registers in the old context, everything else unchanged.\<close>

lemma save_phase:
  fixes s :: Cpu
  defines "d \<equiv> gpr s RDI" and "sp \<equiv> gpr s RSP" and "t \<equiv> fold exec1 save_code s"
  assumes "sp - 8 \<notin> ctx_area d" and "sp \<notin> ctx_area d"
  shows "r \<noteq> RAX \<Longrightarrow> gpr t r = gpr s r" and "eflags t = eflags s" and "segr t = segr s"
    and "a \<notin> ctx_area d \<Longrightarrow> a \<noteq> sp - 8 \<Longrightarrow> mem t a = mem s a"
    and "mem t (d + 8) = gpr s RBX" and "mem t (d + 48) = gpr s RBP" and "mem t (d + 56) = sp"
    and "mem t (d + 96) = gpr s R12" and "mem t (d + 104) = gpr s R13" and "mem t (d + 112) = gpr s R14"
    and "mem t (d + 120) = gpr s R15" and "mem t (d + 128) = mem s sp" and "mem t (d + 136) = eflags s"
proof -
  note sep = assms(4,5) [unfolded ctx_area_def image_insert image_empty insert_iff de_Morgan_disj d_def sp_def]
  note defs = t_def save_code_def stack_defs d_def sp_def
  show "gpr t r = gpr s r" if "r \<noteq> RAX" using that by (simp add: defs)
  show "eflags t = eflags s" "segr t = segr s" by (simp_all add: defs)
  show "mem t a = mem s a" if "a \<notin> ctx_area d" "a \<noteq> sp - 8"
    using that by (simp add: defs ctx_area_def)
  show "mem t (d + 8) = gpr s RBX" "mem t (d + 48) = gpr s RBP" "mem t (d + 56) = sp"
    "mem t (d + 96) = gpr s R12" "mem t (d + 104) = gpr s R13" "mem t (d + 112) = gpr s R14"
    "mem t (d + 120) = gpr s R15" "mem t (d + 128) = mem s sp" "mem t (d + 136) = eflags s"
    using sep by (auto simp: defs)
qed

lemma stage_phase:
  fixes s :: Cpu
  defines "n \<equiv> gpr s RSI" and "sp \<equiv> gpr s RSP" and "t \<equiv> fold exec1 stage_code s"
  assumes "stack_area sp \<inter> ctx_area n = {}"
  shows "gpr t RBX = n" and "gpr t RSP = sp - 48" and "segr t = segr s" and "eflags t = eflags s"
    and "a \<notin> stack_area sp \<Longrightarrow> mem t a = mem s a"
    and "mem t (sp - 48) = mem s (n + 56)" and "mem t (sp - 40) = mem s (n + 144)"
    and "mem t (sp - 32) = mem s (n + 152)" and "mem t (sp - 24) = mem s (n + 128)"
    and "mem t (sp - 16) = mem s (n + 136)" and "mem t (sp - 8) = mem s (n + 200)"
proof -
  note sep = assms(4) [unfolded ctx_area_def stack_area_def image_insert image_empty sp_def n_def]
  note defs = t_def stage_code_def stack_defs n_def sp_def
  show "gpr t RBX = n" "gpr t RSP = sp - 48" "segr t = segr s" "eflags t = eflags s" by (simp_all add: defs)
  show "mem t a = mem s a" if "a \<notin> stack_area sp" using that by (simp add: defs stack_area_def)
  show "mem t (sp - 48) = mem s (n + 56)" "mem t (sp - 40) = mem s (n + 144)"
    "mem t (sp - 32) = mem s (n + 152)" "mem t (sp - 24) = mem s (n + 128)"
    "mem t (sp - 16) = mem s (n + 136)" "mem t (sp - 8) = mem s (n + 200)"
    using sep by (auto simp: defs word_diff_eq)
qed

lemma restore_phase:
  fixes s :: Cpu
  defines "n \<equiv> gpr s RBX" and "sp \<equiv> gpr s RSP" and "t \<equiv> fold exec1 restore_code s"
  shows "mem t = mem s" and "segr t = segr s" and "gpr t RSP = sp + 48"
    and "gpr t RBX = mem s (n + 8)" and "gpr t RBP = mem s (n + 48)" and "gpr t R12 = mem s (n + 96)"
    and "gpr t R13 = mem s (n + 104)" and "gpr t R14 = mem s (n + 112)" and "gpr t R15 = mem s (n + 120)"
    and "gpr t RAX = mem s sp" and "gpr t RCX = mem s (sp + 8)" and "gpr t RDX = mem s (sp + 16)"
    and "gpr t R8 = mem s (sp + 24)" and "gpr t R9 = mem s (sp + 32)" and "gpr t R10 = mem s (sp + 40)"
  by (simp_all add: assms restore_code_def stack_defs ac_simps)

lemma leave_kernel:
  assumes "gpr s R10 = 0"
  shows "\<exists>t. exec leave_code s = Some (gpr s R8, t) \<and> gpr t RSP = gpr s RAX \<and> eflags t = gpr s R9 \<and>
    (\<forall>r \<in> {RBX, RBP, R12, R13, R14, R15}. gpr t r = gpr s r) \<and>
    (\<forall>a. a \<noteq> gpr s RAX - 8 \<longrightarrow> mem t a = mem s a)"
  using assms by (simp add: leave_code_def zero_flag_test stack_defs)

lemma leave_user:
  assumes "gpr s R10 \<noteq> 0"
  shows "\<exists>t. exec leave_code s = Some (gpr s R8, t) \<and> gpr t RSP = gpr s RAX \<and> eflags t = gpr s R9 \<and>
    segr t CS = ucast (gpr s RCX) \<and> segr t SS = ucast (gpr s RDX) \<and>
    (\<forall>r \<in> {RBX, RBP, R12, R13, R14, R15}. gpr t r = gpr s r) \<and>
    (\<forall>a. a \<notin> stack_area (gpr s RSP) \<longrightarrow> mem t a = mem s a)"
  using assms by (simp add: leave_code_def zero_flag_test stack_defs iretq_def word_diff_eq stack_area_def)

text \<open>The registers a called function keeps, with their offsets in a context.\<close>

definition kept_regs :: "(reg \<times> u64) list" where
  "kept_regs = [(RBX, 8), (RBP, 48), (R12, 96), (R13, 104), (R14, 112), (R15, 120)]"

lemma resume_result:
  assumes "stack_area (gpr s RSP) \<inter> ctx_area (gpr s RSI) = {}"
  shows "\<exists>t. exec (Label 2 # stage_code @ restore_code @ leave_code) s = Some (mem s (gpr s RSI + 128), t) \<and>
    gpr t RSP = mem s (gpr s RSI + 56) \<and> eflags t = mem s (gpr s RSI + 136) \<and>
    (\<forall>(r, k) \<in> set kept_regs. gpr t r = mem s (gpr s RSI + k)) \<and>
    (mem s (gpr s RSI + 200) \<noteq> 0 \<longrightarrow>
      segr t CS = ucast (mem s (gpr s RSI + 144)) \<and> segr t SS = ucast (mem s (gpr s RSI + 152))) \<and>
    (\<forall>a. a \<notin> stack_area (gpr s RSP) \<longrightarrow> a \<noteq> mem s (gpr s RSI + 56) - 8 \<longrightarrow> mem t a = mem s a)"
proof -
  let ?n = "gpr s RSI" and ?sp = "gpr s RSP"
  define u where "u = fold exec1 stage_code s"
  define v where "v = fold exec1 restore_code u"
  have e: "exec (Label 2 # stage_code @ restore_code @ leave_code) s = exec leave_code v"
    by (simp add: exec_append straight_codes u_def v_def)
  note st = stage_phase [OF assms, folded u_def]
  have out: "?n + k \<notin> stack_area ?sp" if "k \<in> {8, 48, 96, 104, 112, 120}" for k
    using assms that by (auto simp: ctx_area_def)
  have kept: "mem u (?n + 8) = mem s (?n + 8)" "mem u (?n + 48) = mem s (?n + 48)" "mem u (?n + 96) = mem s (?n + 96)"
    "mem u (?n + 104) = mem s (?n + 104)" "mem u (?n + 112) = mem s (?n + 112)" "mem u (?n + 120) = mem s (?n + 120)"
    by (rule st(5), rule out, simp)+
  note re = restore_phase [of u, folded v_def, unfolded st(1,2)]
  have pops: "gpr v RAX = mem s (?n + 56)" "gpr v RCX = mem s (?n + 144)" "gpr v RDX = mem s (?n + 152)"
    "gpr v R8 = mem s (?n + 128)" "gpr v R9 = mem s (?n + 136)" "gpr v R10 = mem s (?n + 200)" "gpr v RSP = ?sp"
    using re(3,10-15) st(6-11) by (simp_all add: diff_add_eq [symmetric])
  have m: "mem v a = mem s a" if "a \<notin> stack_area ?sp" for a using st(5) [OF that] re(1) by simp
  show ?thesis
  proof (cases "gpr v R10 = 0")
    case True
    from leave_kernel [OF this] show ?thesis
      unfolding e kept_regs_def using re(4-9) kept pops m True by auto
  next
    case False
    from leave_user [OF this] show ?thesis
      unfolding e kept_regs_def using re(4-9) kept pops m False by auto
  qed
qed

lemma exec_first: "gpr s RDI = 0 \<Longrightarrow>
    exec switch_code s = exec (Label 2 # stage_code @ restore_code @ leave_code) (exec1 (Test RDI RDI) s)"
  by (simp add: switch_code_def save_code_def zero_flag_test)

lemma exec_save: "gpr s RDI \<noteq> 0 \<Longrightarrow>
    exec switch_code s = exec (Label 2 # stage_code @ restore_code @ leave_code)
      (fold exec1 save_code (exec1 (Test RDI RDI) s))"
  by (simp add: switch_code_def zero_flag_test exec_append straight_codes)


section \<open>What a switch does\<close>

text \<open>Two contexts and a stack that do not overlap.\<close>

definition separate :: "Cpu \<Rightarrow> bool" where
  "separate s \<longleftrightarrow> insert (gpr s RSP) (stack_area (gpr s RSP)) \<inter> (ctx_area (gpr s RDI) \<union> ctx_area (gpr s RSI)) = {} \<and>
     ctx_area (gpr s RDI) \<inter> ctx_area (gpr s RSI) = {}"

lemma separate_save:
  assumes "separate s"
  shows "gpr s RSP - 8 \<notin> ctx_area (gpr s RDI)" and "gpr s RSP \<notin> ctx_area (gpr s RDI)"
    and "stack_area (gpr s RSP) \<inter> ctx_area (gpr s RSI) = {}" and "stack_area (gpr s RSP) \<inter> ctx_area (gpr s RDI) = {}"
    and "a \<in> ctx_area (gpr s RSI) \<Longrightarrow> a \<notin> ctx_area (gpr s RDI)" and "a \<in> ctx_area (gpr s RSI) \<Longrightarrow> a \<noteq> gpr s RSP - 8"
  using assms unfolding separate_def stack_area_def by auto

lemma in_ctx_area: "c + 8 \<in> ctx_area c" "c + 48 \<in> ctx_area c" "c + 56 \<in> ctx_area c" "c + 96 \<in> ctx_area c"
  "c + 104 \<in> ctx_area c" "c + 112 \<in> ctx_area c" "c + 120 \<in> ctx_area c" "c + 128 \<in> ctx_area c" "c + 136 \<in> ctx_area c"
  by (simp_all add: ctx_area_def)

lemma switch_goes:
  assumes "gpr s RDI \<noteq> 0" and "separate s"
  defines "u \<equiv> fold exec1 save_code (exec1 (Test RDI RDI) s)"
  shows "\<exists>t. exec switch_code s = Some (mem s (gpr s RSI + 128), t) \<and>
    gpr t RSP = mem s (gpr s RSI + 56) \<and> (\<forall>(r, k) \<in> set kept_regs. gpr t r = mem s (gpr s RSI + k)) \<and>
    (\<forall>a. a \<notin> stack_area (gpr s RSP) \<longrightarrow> a \<noteq> mem s (gpr s RSI + 56) - 8 \<longrightarrow> mem t a = mem u a)"
proof -
  note sep = separate_save [OF assms(2)]
  have sep1: "gpr (exec1 (Test RDI RDI) s) RSP - 8 \<notin> ctx_area (gpr (exec1 (Test RDI RDI) s) RDI)"
    "gpr (exec1 (Test RDI RDI) s) RSP \<notin> ctx_area (gpr (exec1 (Test RDI RDI) s) RDI)" using sep by simp_all
  note sv = save_phase [OF sep1, folded u_def]
  have regs: "gpr u RSP = gpr s RSP" "gpr u RSI = gpr s RSI" using sv(1) by simp_all
  have new: "mem u a = mem s a" if "a \<in> ctx_area (gpr s RSI)" for a
    using sv(4) [of a] sep(5,6) [OF that] by simp
  note n = in_ctx_area [of "gpr s RSI", THEN new]
  have "stack_area (gpr u RSP) \<inter> ctx_area (gpr u RSI) = {}" using sep(3) by (simp add: regs)
  from resume_result [OF this] show ?thesis
    unfolding regs n exec_save [OF assms(1), folded u_def, symmetric] kept_regs_def by (auto simp: n)
qed

lemma switch_saves:
  assumes "gpr s RDI \<noteq> 0" and "separate s" and "mem s (gpr s RSI + 56) - 8 \<notin> ctx_area (gpr s RDI)"
    and "exec switch_code s = Some (ip, t)"
  shows "mem t (gpr s RDI + 128) = mem s (gpr s RSP)" and "mem t (gpr s RDI + 56) = gpr s RSP"
    and "\<forall>(r, k) \<in> set kept_regs. mem t (gpr s RDI + k) = gpr s r"
proof -
  let ?u = "fold exec1 save_code (exec1 (Test RDI RDI) s)"
  note sep = separate_save [OF assms(2)]
  have sep1: "gpr (exec1 (Test RDI RDI) s) RSP - 8 \<notin> ctx_area (gpr (exec1 (Test RDI RDI) s) RDI)"
    "gpr (exec1 (Test RDI RDI) s) RSP \<notin> ctx_area (gpr (exec1 (Test RDI RDI) s) RDI)" using sep by simp_all
  note sv = save_phase [OF sep1]
  have fr: "mem t a = mem ?u a" if "a \<notin> stack_area (gpr s RSP)" "a \<noteq> mem s (gpr s RSI + 56) - 8" for a
    using switch_goes [OF assms(1,2)] assms(4) that by auto
  have old: "mem t a = mem ?u a" if "a \<in> ctx_area (gpr s RDI)" for a
    by (rule fr) (use that sep(4) assms(3) in auto)
  note o = in_ctx_area [of "gpr s RDI", THEN old]
  show "mem t (gpr s RDI + 128) = mem s (gpr s RSP)" "mem t (gpr s RDI + 56) = gpr s RSP"
    using sv(7,12) by (simp_all add: o)
  show "\<forall>(r, k) \<in> set kept_regs. mem t (gpr s RDI + k) = gpr s r"
    using sv(5-11) unfolding kept_regs_def by (simp add: o)
qed

text \<open>
  C13. A process that calls \<open>switch_context\<close> and is later switched to again, with its saved context
  unchanged in between, continues at its return address with the registers a function keeps as they
  were. Its stack pointer, however, still points at the return address: it is eight bytes lower than
  after a return.
\<close>

theorem switch_resumes:
  assumes "gpr s RDI \<noteq> 0" and "separate s" and "mem s (gpr s RSI + 56) - 8 \<notin> ctx_area (gpr s RDI)"
    and "exec switch_code s = Some (ip, t)"
    and "\<forall>a \<in> ctx_area (gpr s RDI). mem s2 a = mem t a"
    and "gpr s2 RDI \<noteq> 0" and "separate s2" and "gpr s2 RSI = gpr s RDI"
  shows "\<exists>t2. exec switch_code s2 = Some (mem s (gpr s RSP), t2) \<and> gpr t2 RSP = gpr s RSP \<and>
    gpr t2 RBX = gpr s RBX \<and> gpr t2 RBP = gpr s RBP \<and> gpr t2 R12 = gpr s R12 \<and> gpr t2 R13 = gpr s R13 \<and>
    gpr t2 R14 = gpr s R14 \<and> gpr t2 R15 = gpr s R15"
proof -
  note sv = switch_saves [OF assms(1-4)]
  note m = in_ctx_area [of "gpr s RDI", THEN assms(5) [rule_format]]
  obtain t2 where "exec switch_code s2 = Some (mem s2 (gpr s RDI + 128), t2)" "gpr t2 RSP = mem s2 (gpr s RDI + 56)"
    "\<forall>(r, k) \<in> set kept_regs. gpr t2 r = mem s2 (gpr s RDI + k)"
    using switch_goes [OF assms(6,7)] unfolding assms(8) by blast
  then show ?thesis using sv by (simp add: m kept_regs_def)
qed

definition demo_cpu :: Cpu where
  "demo_cpu = \<lparr>gpr = (\<lambda>_. 0)(RDI := 0x1000, RSI := 0x2000, RSP := 0x9000, RBX := 5, R12 := 6), eflags = 0x202,
     segr = (\<lambda>_. 8), mem = (\<lambda>_. 0)(0x9000 := 0x400123, 0x2038 := 0xA000, 0x2080 := 0x500000, 0x2088 := 0x202)\<rparr>"

theorem switch_resumes_witness:
  "\<exists>t t2. exec switch_code demo_cpu = Some (0x500000, t) \<and>
    exec switch_code (t\<lparr>gpr := (gpr t)(RDI := 0x2000, RSI := 0x1000, RSP := 0xA000)\<rparr>) = Some (0x400123, t2) \<and>
    gpr t2 RSP = 0x9000 \<and> gpr t2 RBX = 5"
proof -
  have s: "separate demo_cpu" "gpr demo_cpu RDI \<noteq> 0" "mem demo_cpu (gpr demo_cpu RSI + 56) - 8 \<notin> ctx_area (gpr demo_cpu RDI)"
    by (simp_all add: separate_def demo_cpu_def ctx_area_def stack_area_def)
  obtain t where t: "exec switch_code demo_cpu = Some (mem demo_cpu (gpr demo_cpu RSI + 128), t)"
    using switch_goes [OF s(2,1)] by blast
  let ?s2 = "t\<lparr>gpr := (gpr t)(RDI := 0x2000, RSI := 0x1000, RSP := 0xA000)\<rparr>"
  have "separate ?s2" by (simp add: separate_def ctx_area_def stack_area_def)
  from switch_resumes [OF s(2,1,3) t _ _ this] obtain t2 where
    "exec switch_code ?s2 = Some (mem demo_cpu (gpr demo_cpu RSP), t2)" "gpr t2 RSP = gpr demo_cpu RSP"
    "gpr t2 RBX = gpr demo_cpu RBX" by (auto simp: demo_cpu_def)
  then show ?thesis using t by (auto simp: demo_cpu_def)
qed

lemma ctx_at_fields:
  assumes "ctx_at c p m" and "length (regs c) = 16" and "length (segments c) = 6"
  shows "m (p + 56) = regs c ! 7" and "m (p + 128) = rflags c" and "m (p + 136) = rip c"
    and "m (p + 200) = (if ctx_is_user c then 1 else 0)"
proof -
  have "m (p + of_nat (8 * i)) = ctx_image c ! i" if "i < 26" for i using assms(1) that by (simp add: ctx_at_def)
  from this [of 7] this [of 16] this [of 17] this [of 25] show "m (p + 56) = regs c ! 7" "m (p + 128) = rflags c"
    "m (p + 136) = rip c" "m (p + 200) = (if ctx_is_user c then 1 else 0)"
    using assms(2,3) by (simp_all add: ctx_image_def nth_append)
qed


definition demo_entry :: Process where
  "demo_entry = process_new \<lparr>gdt_code = None, gdt_kernel_data = None, gdt_user_code = None, gdt_user_data = None\<rparr>
     2 ''init'' 0x401000 False"

definition demo_fresh :: Cpu where
  "demo_fresh = demo_cpu\<lparr>gpr := (gpr demo_cpu)(RDI := 0), mem := (\<lambda>a. ctx_image (pcontext (init_context
     \<lparr>gdt_code = None, gdt_kernel_data = None, gdt_user_code = None, gdt_user_data = None\<rparr> 0x8000 demo_entry)) !
     (unat (a - 0x2000) div 8))\<rparr>"


end
