(* ===== verification/Spec2Isabelle.thy ===== *)
theory Spec2Isabelle
  imports Solvent_Timers Petroleum_MemMap Petroleum_Paging Petroleum_UserMem Genome_Vfs Kernel_Reach Kernel_Switch
begin

text \<open>
  A verification development of the fullerene operating system, an operating system in Rust for
  x86_64 machines with UEFI firmware.

  \<^bold>\<open>The program.\<close> The kernel (\<open>src/fullerene-kernel\<close>) runs processes on one core with a cooperative
  round-robin scheduler. Processes reach kernel objects through signed handles and files through
  descriptors, with system calls whose numbers, errors and records are a crate of their own
  (\<open>src/fullerene-kernel/abi\<close>). Memory is managed by \<open>src/petroleum\<close>: a bitmap of physical frames,
  filled from the memory map of the firmware, gives frames to the page tables that the mapper builds.
  Files live in \<open>src/genome\<close>: a dispatcher sends each path to the file system mounted closest to it,
  the in-memory file system stores inodes, and stream helpers read whole files. \<open>src/chronoline\<close> is the
  line of timers that \<open>src/solvent\<close> drains at every tick of the desktop.

  \<^bold>\<open>Conventions.\<close> A struct is a record, an enum a datatype, a method a function from the state to
  the result and the new state. \<open>Result<T, E>\<close> is the sum \<open>E + T\<close>. An outer \<open>None\<close> is a panic, a halted
  machine, or a loop that does not return. Integers keep their width; lengths are natural numbers.
  Shared references (\<open>Arc\<close>) are numbers that index stores in the state. Third-party code, firmware and
  hardware are arguments of the definitions.

  \<^bold>\<open>The theories.\<close>
  \<^item> \<open>Fullerene_Prelude\<close>: integer types, core library arithmetic, byte images, searches.
  \<^item> \<open>Chronoline\<close>: the timer line (\<open>chronoline/src/lib.rs\<close>) as a heap-ordered list; the earliest due timer
    is popped first, repeating timers stay on their grid, a cancelled timer never fires.
  \<^item> \<open>Solvent_Timers\<close>: the tick of the event loop (\<open>solvent/src/event_loop.rs\<close>,
    \<open>runtime_context.rs\<close>); it ends and leaves no timer due.
  \<^item> \<open>Petroleum_Frames\<close>: the frame allocator (\<open>page_table/allocator\<close>) refines a set of free frames from
    which the least is taken; contiguous allocation is first fit; deallocation undoes allocation.
  \<^item> \<open>Petroleum_MemMap\<close>: initialisation of the allocator from the memory map (\<open>page_table/memory_map\<close>); the free
    frames are those of conventional memory; which descriptors are valid.
  \<^item> \<open>Petroleum_Paging\<close>: addresses, entries and tables (\<open>page_table/types.rs\<close>), walking, mapping, unmapping
    and translation (\<open>page_table/raw\<close>) over a store of tables. Its locale of a frame pool is interpreted
    on the bitmap allocator; mapping a page changes the translation of exactly that page.
  \<^item> \<open>Genome_Paths\<close>, \<open>Genome_MemFs\<close>, \<open>Genome_Io\<close>, \<open>Genome_Vfs\<close>: paths, the in-memory file system, the stream
    helpers and the dispatcher of \<open>genome/src/vfs.rs\<close> and \<open>io.rs\<close>. The inodes always form a tree; operations
    reach the longest mount that is a prefix; a file read through a mount comes back whole. The locale of a
    byte reader is interpreted on the files of the dispatcher.
  \<^item> \<open>Kernel_Handles\<close>: handles and their signature (\<open>syscall/types.rs\<close>), handle and descriptor tables
    (\<open>process.rs\<close>). One locale of an object table is interpreted on both.
  \<^item> \<open>Kernel_Abi\<close>: the ABI crate and the error conversions (\<open>syscall/interface.rs\<close>).
  \<^item> \<open>Kernel_Process\<close>, \<open>Kernel_Sched\<close>: processes and the scheduler (\<open>process.rs\<close>, \<open>scheduler_context.rs\<close>); the scan
    for the next process returns and is fair.
  \<^item> \<open>Kernel_Life\<close>, \<open>Kernel_Reach\<close>: creation, fork, termination, release of resources and faults
    (\<open>process.rs\<close>, \<open>syscall/process.rs\<close>, \<open>interrupts/exceptions.rs\<close>); the step relation of the machine, with the
    system calls of \<open>Kernel_Ipc\<close> among the steps, the
    invariant that one process runs, and what exits and faults do to the processes involved.
  \<^item> \<open>Petroleum_UserMem\<close>: checks of user ranges against the page tables and the copies from and to
    user memory built on them (\<open>common/memory.rs\<close>, \<open>fullerene-kernel/src/user_memory.rs\<close>): what is copied,
    what is refused, the search for the end of a C string, and the walk over huge pages.
  \<^item> \<open>Kernel_Ipc\<close>: the system calls on events, channels, pipes, handles and threads and the waiting calls
    (\<open>syscall/event.rs\<close>, \<open>ipc.rs\<close>, \<open>cap.rs\<close>, \<open>thread.rs\<close>, \<open>process.rs\<close>), as steps that keep the invariant of the
    processes. A channel simulates a bounded queue over any sequence of calls; a transfer moves an object.
  \<^item> \<open>Kernel_Switch\<close>: the machine code of \<open>switch_context\<close> on a model of the processor.

  \<^bold>\<open>Loops and fuel.\<close> Every loop is a total function with a termination proof, except the scan of the
  scheduler and the reading loops, which are partial functions with values in an option type; their
  theorems show that they return. No definition uses fuel.

  \<^bold>\<open>Not modelled.\<close> Device drivers (\<open>src/nitrogen\<close>), firmware and boot code (\<open>src/bellows\<close>, the boot parts of the
  kernel and of \<open>src/petroleum\<close>): their behaviour is that of hardware registers and firmware services outside the
  sources. Drawing (\<open>src/lattice\<close>, the viewers of \<open>src/solvent\<close>, \<open>src/toluene\<close>): the results are pixels. The host
  tool \<open>src/flasks\<close> runs other programs. The page table managers of \<open>src/petroleum\<close> that wrap the third-party
  \<open>x86_64\<close> mapper, the FAT drivers, the Linux personality, the shell and its line editor, the event dispatch of
  \<open>src/resonance\<close> and the network daemon \<open>src/bonder\<close> are not modelled. Concurrency is not: the kernel runs on one
  core and switches cooperatively, so that each operation on the locked state is one step.
\<close>

end
